(* ===== verification/Prelude.thy ===== *)
theory Prelude
  imports Main "HOL-Library.Word" "HOL-Library.Monad_Syntax" "HOL-Library.Multiset"
begin

text \<open>
  Shared vocabulary of the development.

  A C++ call that aborts the process (a failed \<open>assert\<close>, \<open>abort\<close>), leaves the bounds of an
  array, or never returns is the value \<open>None\<close> of \<^typ>\<open>'a option\<close>; a call that returns is
  \<open>Some\<close> of its results, the updated object among them.  The do-notation of
  \<open>Monad_Syntax\<close> threads the object through a sequence of calls.

  The theory holds the checked array accesses, the assertion, the wrap-around of the unsigned
  machine integers, the error numbers, a fallible fold, and the lemmas on them that the
  component theories share.
\<close>

section \<open>Collections of lemmas\<close>

named_theorems guard_simps \<open>evaluation of assertions and checked array accesses\<close>
named_theorems run_simps \<open>unfolding of the operations of a component\<close>

section \<open>Machine integers\<close>

text \<open>Unsigned 32-bit and 64-bit values are natural numbers, the wrap-around written out.\<close>

definition u32 :: "nat \<Rightarrow> nat" where
  "u32 n = n mod 2 ^ 32"

definition u64 :: "nat \<Rightarrow> nat" where
  "u64 n = n mod 2 ^ 64"

lemma u32_id [simp]: "n < 4294967296 \<Longrightarrow> u32 n = n"
  by (simp add: u32_def)

lemma u64_id [simp]: "n < 18446744073709551616 \<Longrightarrow> u64 n = n"
  by (simp add: u64_def)

lemma u32_less: "u32 n < 4294967296"
  by (simp add: u32_def)

text \<open>Error numbers (Linux).\<close>

definition ENOENT :: int where "ENOENT = 2"
definition EIO :: int where "EIO = 5"
definition EBADF :: int where "EBADF = 9"
definition ENOMEM :: int where "ENOMEM = 12"
definition EINVAL :: int where "EINVAL = 22"
definition ENFILE :: int where "ENFILE = 23"
definition EFBIG :: int where "EFBIG = 27"
definition ENOSPC :: int where "ENOSPC = 28"

lemmas errno_defs =
  ENOENT_def EIO_def EBADF_def ENOMEM_def EINVAL_def ENFILE_def EFBIG_def ENOSPC_def

section \<open>Assertions and checked array accesses\<close>

definition assert_that :: "bool \<Rightarrow> unit option" where
  "assert_that b = (if b then Some () else None)"

lemma assert_that_True [simp, guard_simps]: "b \<Longrightarrow> assert_that b = Some ()"
  by (simp add: assert_that_def)

lemma assert_that_Some [simp]: "assert_that b = Some u \<longleftrightarrow> b"
  by (simp add: assert_that_def)

lemma assert_that_None [simp]: "assert_that b = None \<longleftrightarrow> \<not> b"
  by (simp add: assert_that_def)

definition array_get :: "'a list \<Rightarrow> nat \<Rightarrow> 'a option" where
  "array_get xs i = (if i < length xs then Some (xs ! i) else None)"

definition array_set :: "'a list \<Rightarrow> nat \<Rightarrow> 'a \<Rightarrow> 'a list option" where
  "array_set xs i x = (if i < length xs then Some (xs[i := x]) else None)"

lemma array_get_in [simp, guard_simps]: "i < length xs \<Longrightarrow> array_get xs i = Some (xs ! i)"
  by (simp add: array_get_def)

lemma array_set_in [simp, guard_simps]: "i < length xs \<Longrightarrow> array_set xs i x = Some (xs[i := x])"
  by (simp add: array_set_def)

lemma array_get_Some_iff: "array_get xs i = Some x \<longleftrightarrow> i < length xs \<and> xs ! i = x"
  by (auto simp: array_get_def)

lemma array_set_Some_iff: "array_set xs i x = Some ys \<longleftrightarrow> i < length xs \<and> ys = xs[i := x]"
  by (auto simp: array_set_def)

section \<open>A fallible fold: the body of a counting loop\<close>

fun fold_opt :: "('a \<Rightarrow> 's \<Rightarrow> 's option) \<Rightarrow> 'a list \<Rightarrow> 's \<Rightarrow> 's option" where
  "fold_opt f [] s = Some s"
| "fold_opt f (x # xs) s = Option.bind (f x s) (fold_opt f xs)"

lemma fold_opt_Nil_fun [simp]: "fold_opt f [] = Some"
  by (rule ext) simp

lemma fold_opt_append:
  "fold_opt f (xs @ ys) s = Option.bind (fold_opt f xs s) (fold_opt f ys)"
proof (induction xs arbitrary: s)
  case (Cons x xs)
  then show ?case by (cases "f x s") auto
qed simp

text \<open>Total correctness of a loop over a list: an invariant on the part already done.\<close>

lemma fold_opt_invariant:
  assumes "P [] s"
    and "\<And>done x rest t. xs = done @ x # rest \<Longrightarrow> P done t \<Longrightarrow> \<exists>t'. f x t = Some t' \<and> P (done @ [x]) t'"
  shows "\<exists>t. fold_opt f xs s = Some t \<and> P xs t"
proof -
  have "\<exists>t. fold_opt f ys s = Some t \<and> P ys t" if "\<exists>zs. xs = ys @ zs" for ys
    using that
  proof (induction ys rule: rev_induct)
    case Nil
    then show ?case using assms(1) by simp
  next
    case (snoc y ys)
    then obtain zs where zs: "xs = ys @ y # zs" by auto
    with snoc.IH obtain t where "fold_opt f ys s = Some t" "P ys t" by auto
    with assms(2)[OF zs] show ?case by (auto simp: fold_opt_append)
  qed
  from this[of xs] show ?thesis by simp
qed

section \<open>Lists as arrays\<close>

lemma distinct_nth_iff:
  "distinct xs \<Longrightarrow> i < length xs \<Longrightarrow> j < length xs \<Longrightarrow> xs ! i = xs ! j \<longleftrightarrow> i = j"
  by (rule nth_eq_iff_index_eq)

lemma mset_swap_distinct:
  assumes "i < length xs" "j < length xs" "distinct xs"
  shows "distinct (xs[i := xs ! j, j := xs ! i])"
proof -
  have "mset (xs[i := xs ! j, j := xs ! i]) = mset xs"
    using mset_swap[OF assms(2,1)] by simp
  then show ?thesis using assms(3) by (metis mset_eq_imp_distinct_iff)
qed

end
