(* ===== verification/FdTable.thy ===== *)
theory FdTable
  imports Prelude
begin

text \<open>
  The table of open file descriptors, \<^verbatim>\<open>cvmfs/fd_table.h\<close>.

  \<open>fd_index\<close> is a permutation of the descriptor numbers: the numbers before \<open>fd_pivot\<close> are in
  use, the others are free.  Every used descriptor holds a back pointer into \<open>fd_index\<close>, so that
  opening and closing take constant time.

  The invariant \<open>fd_inv\<close> says just that; it makes every assertion of the code succeed, and the
  table then behaves as a partial map from descriptors to handles (\<open>fd_abs\<close>).
  The handle type comes with its own \<^verbatim>\<open>operator==\<close>, which need not be identity, so the table
  carries it (\<open>handle_eq\<close>); the code only ever compares a handle with the invalid one.
\<close>

section \<open>The code\<close>

record 'h fd_wrapper =
  handle :: 'h
  index :: nat

record 'h fd_table =
  handle_eq :: "'h \<Rightarrow> 'h \<Rightarrow> bool"
  invalid_handle :: 'h
  fd_pivot :: nat
  fd_index :: "nat list"
  open_fds :: "'h fd_wrapper list"

definition FdTable_new :: "('h \<Rightarrow> 'h \<Rightarrow> bool) \<Rightarrow> nat \<Rightarrow> 'h \<Rightarrow> 'h fd_table option" where
  "FdTable_new eq max_open_fds invalid = do {
     assert_that (max_open_fds > 0);
     Some \<lparr>handle_eq = eq, invalid_handle = invalid, fd_pivot = 0,
           fd_index = [0..<max_open_fds],
           open_fds = map (\<lambda>i. \<lparr>handle = invalid, index = i\<rparr>) [0..<max_open_fds]\<rparr>
   }"

definition fd_used :: "'h fd_table \<Rightarrow> nat \<Rightarrow> bool" where
  "fd_used t i \<longleftrightarrow> \<not> handle_eq t (handle (open_fds t ! i)) (invalid_handle t)"

definition IsValid :: "int \<Rightarrow> 'h fd_table \<Rightarrow> bool" where
  "IsValid fd t \<longleftrightarrow>
     (if fd < 0 \<or> nat fd \<ge> length (open_fds t) then False else fd_used t (nat fd))"

definition OpenFd :: "'h \<Rightarrow> 'h fd_table \<Rightarrow> (int \<times> 'h fd_table) option" where
  "OpenFd h t =
     (if handle_eq t h (invalid_handle t) then Some (- EINVAL, t)
      else if fd_pivot t \<ge> length (fd_index t) then Some (- ENFILE, t)
      else do {
        next_fd \<leftarrow> array_get (fd_index t) (fd_pivot t);
        assert_that (next_fd < length (open_fds t));
        assert_that (\<not> fd_used t next_fd);
        fds \<leftarrow> array_set (open_fds t) next_fd \<lparr>handle = h, index = fd_pivot t\<rparr>;
        Some (int next_fd, t\<lparr>open_fds := fds, fd_pivot := fd_pivot t + 1\<rparr>)
      })"

definition GetHandle :: "int \<Rightarrow> 'h fd_table \<Rightarrow> 'h" where
  "GetHandle fd t =
     (if IsValid fd t then handle (open_fds t ! nat fd) else invalid_handle t)"

definition CloseFd :: "int \<Rightarrow> 'h fd_table \<Rightarrow> (int \<times> 'h fd_table) option" where
  "CloseFd fd t =
     (if \<not> IsValid fd t then Some (- EBADF, t)
      else do {
        w \<leftarrow> array_get (open_fds t) (nat fd);
        assert_that (index w < length (fd_index t));
        assert_that (fd_pivot t \<le> length (fd_index t));
        assert_that (fd_pivot t > 0);
        fds \<leftarrow> array_set (open_fds t) (nat fd) (w\<lparr>handle := invalid_handle t\<rparr>);
        let t1 = t\<lparr>open_fds := fds, fd_pivot := fd_pivot t - 1\<rparr>;
        if index w < fd_pivot t1 then do {
          other \<leftarrow> array_get (fd_index t1) (fd_pivot t1);
          assert_that (other < length (open_fds t1));
          assert_that (fd_used t1 other);
          ow \<leftarrow> array_get (open_fds t1) other;
          fds' \<leftarrow> array_set (open_fds t1) other (ow\<lparr>index := index w\<rparr>);
          ix1 \<leftarrow> array_set (fd_index t1) (index w) other;
          ix2 \<leftarrow> array_set ix1 (fd_pivot t1) (nat fd);
          Some (0, t1\<lparr>open_fds := fds', fd_index := ix2\<rparr>)
        } else Some (0, t1)
      })"

definition GetMaxFds :: "'h fd_table \<Rightarrow> nat" where
  "GetMaxFds t = length (fd_index t)"

text \<open>
  \<open>AssignFrom\<close> restores a saved table, \<open>Clone\<close> saves one.  Both copy the two vectors element
  by element, over the length of \<open>fd_index\<close>.
\<close>

definition copy_prefix :: "nat \<Rightarrow> 'a list \<Rightarrow> 'a list \<Rightarrow> 'a list option" where
  "copy_prefix n src dst =
     fold_opt (\<lambda>i d. Option.bind (array_get src i) (array_set d i)) [0..<n] dst"

definition vector_resize :: "nat \<Rightarrow> 'a \<Rightarrow> 'a list \<Rightarrow> 'a list" where
  "vector_resize n x xs = take n xs @ replicate (n - length xs) x"

definition AssignFrom :: "'h fd_table \<Rightarrow> 'h fd_table \<Rightarrow> 'h fd_table option" where
  "AssignFrom other t = do {
     let ix = vector_resize (length (fd_index other)) 0 (fd_index t);
     let fds = vector_resize (length (open_fds other))
                 \<lparr>handle = invalid_handle other, index = 0\<rparr> (open_fds t);
     ix' \<leftarrow> copy_prefix (length ix) (fd_index other) ix;
     fds' \<leftarrow> copy_prefix (length ix) (open_fds other) fds;
     Some (t\<lparr>invalid_handle := invalid_handle other, fd_pivot := fd_pivot other,
             fd_index := ix', open_fds := fds'\<rparr>)
   }"

definition Clone :: "'h fd_table \<Rightarrow> 'h fd_table option" where
  "Clone t = do {
     r \<leftarrow> FdTable_new (handle_eq t) (length (open_fds t)) (invalid_handle t);
     ix \<leftarrow> copy_prefix (length (fd_index t)) (fd_index t) (fd_index r);
     fds \<leftarrow> copy_prefix (length (fd_index t)) (open_fds t) (open_fds r);
     Some (r\<lparr>fd_pivot := fd_pivot t, fd_index := ix, open_fds := fds\<rparr>)
   }"

section \<open>Invariant and abstraction\<close>

definition fd_inv :: "'h fd_table \<Rightarrow> bool" where
  "fd_inv t \<longleftrightarrow>
     length (fd_index t) = length (open_fds t) \<and> open_fds t \<noteq> [] \<and>
     fd_pivot t \<le> length (fd_index t) \<and>
     distinct (fd_index t) \<and> (\<forall>i < length (fd_index t). fd_index t ! i < length (open_fds t)) \<and>
     handle_eq t (invalid_handle t) (invalid_handle t) \<and>
     (\<forall>i < length (fd_index t).
        fd_used t (fd_index t ! i) = (i < fd_pivot t) \<and>
        (i < fd_pivot t \<longrightarrow> index (open_fds t ! (fd_index t ! i)) = i))"

definition fd_abs :: "'h fd_table \<Rightarrow> int \<Rightarrow> 'h option" where
  "fd_abs t fd = (if IsValid fd t then Some (handle (open_fds t ! nat fd)) else None)"

lemma fd_invD:
  assumes "fd_inv t"
  shows "length (fd_index t) = length (open_fds t)" "fd_pivot t \<le> length (open_fds t)"
    "distinct (fd_index t)" "handle_eq t (invalid_handle t) (invalid_handle t)"
    "\<And>i. i < length (open_fds t) \<Longrightarrow> fd_index t ! i < length (open_fds t)"
    "\<And>i. i < length (open_fds t) \<Longrightarrow> fd_used t (fd_index t ! i) = (i < fd_pivot t)"
    "\<And>i. i < fd_pivot t \<Longrightarrow> index (open_fds t ! (fd_index t ! i)) = i"
  using assms by (auto simp: fd_inv_def)

lemma fd_invI:
  assumes "length (fd_index t) = length (open_fds t)" "open_fds t \<noteq> []"
    "fd_pivot t \<le> length (open_fds t)"
    "distinct (fd_index t)" "handle_eq t (invalid_handle t) (invalid_handle t)"
    "\<And>i. i < length (open_fds t) \<Longrightarrow> fd_index t ! i < length (open_fds t)"
    "\<And>i. i < length (open_fds t) \<Longrightarrow> fd_used t (fd_index t ! i) = (i < fd_pivot t)"
    "\<And>i. i < fd_pivot t \<Longrightarrow> index (open_fds t ! (fd_index t ! i)) = i"
  shows "fd_inv t"
  using assms by (simp add: fd_inv_def)

text \<open>\<open>fd_index\<close> enumerates all descriptor numbers.\<close>

lemma fd_index_surj:
  assumes "fd_inv t" "fd < length (open_fds t)"
  obtains i where "i < length (open_fds t)" "fd_index t ! i = fd"
proof -
  note I = fd_invD[OF assms(1)]
  have "set (fd_index t) \<subseteq> {..<length (open_fds t)}"
    using I(1,5) by (auto simp: in_set_conv_nth)
  moreover have "card (set (fd_index t)) = length (open_fds t)"
    using I(1,3) by (simp add: distinct_card)
  ultimately have "set (fd_index t) = {..<length (open_fds t)}"
    by (simp add: card_subset_eq)
  with assms(2) that I(1) show thesis by (metis in_set_conv_nth lessThan_iff)
qed

lemma fd_abs_Some_iff:
  "fd_abs t fd = Some h \<longleftrightarrow>
     0 \<le> fd \<and> nat fd < length (open_fds t) \<and> fd_used t (nat fd) \<and> handle (open_fds t ! nat fd) = h"
  by (auto simp: fd_abs_def IsValid_def)

lemma dom_fd_abs:
  assumes "fd_inv t"
  shows "dom (fd_abs t) = (\<lambda>i. int (fd_index t ! i)) ` {..<fd_pivot t}"
proof (rule set_eqI)
  note I = fd_invD[OF assms]
  fix fd
  show "fd \<in> dom (fd_abs t) \<longleftrightarrow> fd \<in> (\<lambda>i. int (fd_index t ! i)) ` {..<fd_pivot t}"
  proof
    assume "fd \<in> dom (fd_abs t)"
    then have fd: "0 \<le> fd" "nat fd < length (open_fds t)" "fd_used t (nat fd)"
      by (auto simp: fd_abs_Some_iff)
    from fd_index_surj[OF assms fd(2)] obtain i
      where "i < length (open_fds t)" "fd_index t ! i = nat fd" .
    moreover from this fd(3) I(6) have "i < fd_pivot t" by metis
    ultimately show "fd \<in> (\<lambda>i. int (fd_index t ! i)) ` {..<fd_pivot t}"
      using fd(1) by (auto intro!: image_eqI[of _ _ i])
  next
    assume "fd \<in> (\<lambda>i. int (fd_index t ! i)) ` {..<fd_pivot t}"
    then show "fd \<in> dom (fd_abs t)"
      using I(2,5,6) by (auto simp: dom_def fd_abs_Some_iff)
  qed
qed

lemma card_dom_fd_abs:
  assumes "fd_inv t"
  shows "card (dom (fd_abs t)) = fd_pivot t"
proof -
  note I = fd_invD[OF assms]
  have "inj_on (\<lambda>i. int (fd_index t ! i)) {..<fd_pivot t}"
    using I(1,2,3) by (auto simp: inj_on_def distinct_nth_iff)
  then show ?thesis by (simp add: dom_fd_abs[OF assms] card_image)
qed

section \<open>The operations\<close>

lemma FdTable_new_inv:
  assumes "n > 0" "eq i i"
  shows "\<exists>t. FdTable_new eq n i = Some t \<and> fd_inv t \<and> fd_abs t = Map.empty \<and> GetMaxFds t = n
           \<and> invalid_handle t = i \<and> handle_eq t = eq"
  using assms
  by (auto simp: FdTable_new_def fd_inv_def fd_used_def fd_abs_def IsValid_def GetMaxFds_def fun_eq_iff)

lemma OpenFd_errors:
  assumes "fd_inv t"
  shows "handle_eq t h (invalid_handle t) \<Longrightarrow> OpenFd h t = Some (- EINVAL, t)"
    and "\<not> handle_eq t h (invalid_handle t) \<Longrightarrow> card (dom (fd_abs t)) = GetMaxFds t \<Longrightarrow>
           OpenFd h t = Some (- ENFILE, t)"
  using assms by (auto simp: OpenFd_def card_dom_fd_abs GetMaxFds_def)

lemma OpenFd_ok:
  assumes inv: "fd_inv t" and h: "\<not> handle_eq t h (invalid_handle t)"
    and free: "card (dom (fd_abs t)) < GetMaxFds t"
  shows "\<exists>fd t'. OpenFd h t = Some (fd, t') \<and> fd_inv t' \<and> 0 \<le> fd \<and> fd < int (GetMaxFds t) \<and>
           fd_abs t fd = None \<and> fd_abs t' = (fd_abs t)(fd \<mapsto> h) \<and> GetMaxFds t' = GetMaxFds t \<and>
           invalid_handle t' = invalid_handle t \<and> handle_eq t' = handle_eq t"
proof -
  note I = fd_invD[OF inv]
  have p: "fd_pivot t < length (open_fds t)"
    using free I(1) by (simp add: card_dom_fd_abs[OF inv] GetMaxFds_def)
  define f where "f = fd_index t ! fd_pivot t"
  have f: "f < length (open_fds t)" "\<not> fd_used t f"
    using I(5)[OF p] I(6)[OF p] by (simp_all add: f_def)
  let ?t = "t\<lparr>open_fds := (open_fds t)[f := \<lparr>handle = h, index = fd_pivot t\<rparr>],
              fd_pivot := Suc (fd_pivot t)\<rparr>"
  have run: "OpenFd h t = Some (int f, ?t)"
    using h p f I(1) by (simp add: OpenFd_def f_def Let_def)
  have used: "fd_used ?t j = (j = f \<or> fd_used t j)" if "j < length (open_fds t)" for j
    using that h f by (auto simp: fd_used_def nth_list_update)
  have ix: "fd_index t ! i = f \<longleftrightarrow> i = fd_pivot t" if "i < length (open_fds t)" for i
    using that p I(1,3) by (simp add: f_def distinct_nth_iff)
  have "fd_inv ?t"
  proof (rule fd_invI)
    fix i assume i: "i < length (open_fds ?t)"
    then show "fd_index ?t ! i < length (open_fds ?t)" using I(5) by simp
    show "fd_used ?t (fd_index ?t ! i) = (i < fd_pivot ?t)"
      using i I(5,6)[of i] by (auto simp: used ix less_Suc_eq)
  next
    fix i assume "i < fd_pivot ?t"
    then show "index (open_fds ?t ! (fd_index ?t ! i)) = i"
      using p f(1) I(5)[of i] I(7)[of i] ix[of i] by (auto simp: nth_list_update less_Suc_eq)
  qed (use p I in auto)
  moreover have "fd_abs ?t = (fd_abs t)(int f \<mapsto> h)"
    using f used by (auto simp: fun_eq_iff fd_abs_def IsValid_def)
  moreover have "fd_abs t (int f) = None"
    using f by (simp add: fd_abs_def IsValid_def)
  ultimately show ?thesis
    using run f I(1) by (auto simp: GetMaxFds_def)
qed

lemma CloseFd_invalid: "fd_abs t fd = None \<Longrightarrow> CloseFd fd t = Some (- EBADF, t)"
  by (auto simp: CloseFd_def fd_abs_def split: if_splits)

lemma GetHandle_abs: "GetHandle fd t = (case fd_abs t fd of Some h \<Rightarrow> h | None \<Rightarrow> invalid_handle t)"
  by (auto simp: GetHandle_def fd_abs_def)

text \<open>
  Closing moves the last used descriptor \<open>g\<close> into the gap that the closed one, at position \<open>i\<close> of
  \<open>fd_index\<close>, leaves.
\<close>

definition fd_closed :: "nat \<Rightarrow> 'h fd_table \<Rightarrow> 'h fd_table" where
  "fd_closed i t = (let p = fd_pivot t - 1; f = fd_index t ! i; g = fd_index t ! p;
       w = (open_fds t ! f)\<lparr>handle := invalid_handle t\<rparr>
     in t\<lparr>open_fds := (open_fds t)[f := w, g := (if f = g then w else (open_fds t ! g)\<lparr>index := i\<rparr>)],
          fd_pivot := p, fd_index := (fd_index t)[i := g, p := f]\<rparr>)"

lemma fd_closed_frame [simp]:
  "fd_pivot (fd_closed i t) = fd_pivot t - 1" "invalid_handle (fd_closed i t) = invalid_handle t"
  "handle_eq (fd_closed i t) = handle_eq t" "length (open_fds (fd_closed i t)) = length (open_fds t)"
  "length (fd_index (fd_closed i t)) = length (fd_index t)"
  by (simp_all add: fd_closed_def Let_def)

lemma fd_index_inj:
  assumes "fd_inv t" "i < length (open_fds t)" "j < length (open_fds t)"
  shows "fd_index t ! i = fd_index t ! j \<longleftrightarrow> i = j"
  using assms fd_invD(1,3)[OF assms(1)] by (simp add: distinct_nth_iff)

lemma CloseFd_run:
  assumes inv: "fd_inv t" and i: "i < fd_pivot t"
  shows "CloseFd (int (fd_index t ! i)) t = Some (0, fd_closed i t)"
proof -
  note I = fd_invD[OF inv]
  define p where "p = fd_pivot t - 1"
  define f where "f = fd_index t ! i"
  define g where "g = fd_index t ! p"
  have p: "p < length (open_fds t)" "i \<le> p" "fd_pivot t - Suc 0 = p" using i I(2) by (auto simp: p_def)
  have f: "f < length (open_fds t)" "fd_used t f" "index (open_fds t ! f) = i"
    using i I(2) I(5,6,7)[of i] by (auto simp: f_def)
  have g: "g < length (open_fds t)" "fd_used t g"
    using p(1) I(5,6)[of p] i by (auto simp: g_def p_def)
  have fg: "f = g \<longleftrightarrow> i = p"
    using i p fd_index_inj[OF inv, of i p] by (simp add: f_def g_def)
  have piv: "0 < fd_pivot t" "fd_pivot t \<le> length (fd_index t)" "i < length (fd_index t)"
    using i I(1,2) by auto
  let ?t = "t\<lparr>open_fds := (open_fds t)[f := (open_fds t ! f)\<lparr>handle := invalid_handle t\<rparr>],
              fd_pivot := p\<rparr>"
  have valid: "IsValid (int f) t" using f by (simp add: IsValid_def)
  show ?thesis
  proof (cases "i = p")
    case True
    then have "f = g" "(fd_index t)[i := g, p := f] = fd_index t"
      using fg by (auto simp: g_def)
    then show ?thesis
      using True valid f piv
      by (simp add: CloseFd_def fd_closed_def Let_def p(3) flip: f_def g_def)
  next
    case False
    then have "f \<noteq> g" "i < p" using fg p by auto
    moreover have "fd_used ?t g"
      using g \<open>f \<noteq> g\<close> by (simp add: fd_used_def)
    ultimately show ?thesis
      using valid f g piv p I(1)
      by (simp add: CloseFd_def fd_closed_def Let_def p(3) flip: f_def g_def)
  qed
qed

lemma fd_closed_used:
  assumes inv: "fd_inv t" and i: "i < fd_pivot t" and j: "j < length (open_fds t)"
  shows "fd_used (fd_closed i t) j = (j \<noteq> fd_index t ! i \<and> fd_used t j)"
    and "j \<noteq> fd_index t ! i \<Longrightarrow> handle (open_fds (fd_closed i t) ! j) = handle (open_fds t ! j)"
  using j fd_invD[OF inv] i
  by (auto simp: fd_closed_def Let_def fd_used_def nth_list_update)

lemma fd_closed_index:
  assumes inv: "fd_inv t" and i: "i < fd_pivot t" and j: "j < length (open_fds t)"
  shows "fd_index (fd_closed i t) ! j =
     (if j = fd_pivot t - 1 then fd_index t ! i
      else if j = i then fd_index t ! (fd_pivot t - 1) else fd_index t ! j)"
proof -
  have "fd_pivot t - 1 < length (fd_index t)" "i < length (fd_index t)"
    using i fd_invD(1,2)[OF inv] by auto
  then show ?thesis using j fd_invD(1)[OF inv] by (auto simp: fd_closed_def Let_def nth_list_update)
qed

lemma fd_closed_back:
  assumes inv: "fd_inv t" and i: "i < fd_pivot t" and j: "j < fd_pivot t - 1"
  shows "index (open_fds (fd_closed i t) ! (fd_index (fd_closed i t) ! j)) = j"
proof -
  note I = fd_invD[OF inv]
  define p where "p = fd_pivot t - 1"
  have p: "fd_pivot t - Suc 0 = p" by (simp add: p_def)
  have jp: "j < p" "j < fd_pivot t" "j < length (open_fds t)" "p < length (open_fds t)"
    "i < length (open_fds t)" using i j I(2) by (auto simp: p_def)
  note inj = fd_index_inj[OF inv]
  show ?thesis
  proof (cases "j = i")
    case True
    then show ?thesis
      using jp inj[of i p] I(5)[of p] fd_closed_index[OF inv i jp(3)]
      by (simp add: fd_closed_def Let_def p)
  next
    case False
    then have "fd_index t ! j \<noteq> fd_index t ! i" "fd_index t ! j \<noteq> fd_index t ! p"
      using inj[of j i] inj[of j p] jp by auto
    then show ?thesis
      using False jp I(7) fd_closed_index[OF inv i jp(3)]
      by (simp add: fd_closed_def Let_def p)
  qed
qed

lemma fd_closed_inv:
  assumes inv: "fd_inv t" and i: "i < fd_pivot t"
  shows "fd_inv (fd_closed i t)"
proof (rule fd_invI)
  note I = fd_invD[OF inv]
  have p: "fd_pivot t - 1 < length (open_fds t)" "i < length (open_fds t)" using i I(2) by auto
  show "distinct (fd_index (fd_closed i t))"
    using mset_swap_distinct[of i "fd_index t" "fd_pivot t - 1"] I(1,3) p
    by (simp add: fd_closed_def Let_def)
  fix j assume "j < length (open_fds (fd_closed i t))"
  then have j: "j < length (open_fds t)" by simp
  show bound: "fd_index (fd_closed i t) ! j < length (open_fds (fd_closed i t))"
    using j p I(5) by (simp add: fd_closed_index[OF inv i j])
  show "fd_used (fd_closed i t) (fd_index (fd_closed i t) ! j) = (j < fd_pivot (fd_closed i t))"
  proof -
    have "fd_used (fd_closed i t) (fd_index (fd_closed i t) ! j) =
        (fd_index (fd_closed i t) ! j \<noteq> fd_index t ! i \<and> fd_used t (fd_index (fd_closed i t) ! j))"
      using bound by (intro fd_closed_used(1)[OF inv i]) simp
    also have "\<dots> = (j \<noteq> fd_pivot t - 1 \<and> j < fd_pivot t)"
      using i p j fd_index_inj[OF inv p(1,2)] fd_index_inj[OF inv j p(2)] I(6)[OF p(1)] I(6)[OF j]
      by (auto simp: fd_closed_index[OF inv i j])
    finally show ?thesis using i by auto
  qed
next
  show "open_fds (fd_closed i t) \<noteq> []"
    using i fd_invD(2)[OF inv] by (simp flip: length_greater_0_conv)
next
  fix j assume "j < fd_pivot (fd_closed i t)"
  then show "index (open_fds (fd_closed i t) ! (fd_index (fd_closed i t) ! j)) = j"
    using fd_closed_back[OF inv i] by simp
qed (use fd_invD(1,2,4)[OF inv] in simp_all)

lemma CloseFd_ok:
  assumes inv: "fd_inv t" and fd: "fd_abs t fd = Some h"
  shows "\<exists>t'. CloseFd fd t = Some (0, t') \<and> fd_inv t' \<and> fd_abs t' = (fd_abs t)(fd := None) \<and>
           GetMaxFds t' = GetMaxFds t \<and> invalid_handle t' = invalid_handle t \<and>
           handle_eq t' = handle_eq t"
proof -
  from fd inv have "fd \<in> (\<lambda>i. int (fd_index t ! i)) ` {..<fd_pivot t}"
    using dom_fd_abs by blast
  then obtain i where i: "i < fd_pivot t" and f: "fd = int (fd_index t ! i)" by auto
  have "fd_abs (fd_closed i t) = (fd_abs t)(fd := None)"
    using fd_closed_used[OF inv i] f by (auto simp: fun_eq_iff fd_abs_def IsValid_def)
  then show ?thesis
    using CloseFd_run[OF inv i] fd_closed_inv[OF inv i] f by (simp add: GetMaxFds_def)
qed

section \<open>Saving and restoring\<close>

lemma copy_prefix_spec:
  assumes "n \<le> length src" "n \<le> length dst"
  shows "copy_prefix n src dst = Some (take n src @ drop n dst)"
  using assms
proof (induction n)
  case 0
  then show ?case by (simp add: copy_prefix_def)
next
  case (Suc n)
  then have "copy_prefix n src dst = Some (take n src @ drop n dst)" by simp
  moreover have "(take n src @ drop n dst)[n := src ! n] = take (Suc n) src @ drop (Suc n) dst"
    using Suc.prems
    by (auto simp: list_update_append take_Suc_conv_app_nth drop_Suc tl_drop
        simp flip: Cons_nth_drop_Suc)
  ultimately show ?case
    using Suc.prems by (simp add: copy_prefix_def fold_opt_append)
qed

lemma length_vector_resize [simp]: "length (vector_resize n x xs) = n"
  by (simp add: vector_resize_def)

lemma AssignFrom_eq:
  assumes "fd_inv s"
  shows "AssignFrom s t = Some (s\<lparr>handle_eq := handle_eq t\<rparr>)"
  using fd_invD(1)[OF assms] by (simp add: AssignFrom_def Let_def copy_prefix_spec)

lemma Clone_eq:
  assumes "fd_inv t"
  shows "Clone t = Some t"
  using fd_invD(1)[OF assms] assms
  by (simp add: Clone_def FdTable_new_def copy_prefix_spec fd_inv_def)

section \<open>The contract the cache managers rely on\<close>

text \<open>
  The interface of a descriptor table: \<open>abs\<close> is the partial map from descriptors to handles,
  \<open>bad t h\<close> says that \<open>h\<close> is the invalid handle.  Every operation returns, no assertion fails.
\<close>

locale descriptor_table =
  fixes inv :: "'t \<Rightarrow> bool"
    and abs :: "'t \<Rightarrow> int \<Rightarrow> 'h option"
    and max_fds :: "'t \<Rightarrow> nat"
    and bad :: "'t \<Rightarrow> 'h \<Rightarrow> bool"
    and opn :: "'h \<Rightarrow> 't \<Rightarrow> (int \<times> 't) option"
    and cls :: "int \<Rightarrow> 't \<Rightarrow> (int \<times> 't) option"
  assumes open_bad: "inv t \<Longrightarrow> bad t h \<Longrightarrow> opn h t = Some (- EINVAL, t)"
    and open_full: "inv t \<Longrightarrow> \<not> bad t h \<Longrightarrow> card (dom (abs t)) = max_fds t \<Longrightarrow>
      opn h t = Some (- ENFILE, t)"
    and open_ok: "inv t \<Longrightarrow> \<not> bad t h \<Longrightarrow> card (dom (abs t)) < max_fds t \<Longrightarrow>
      \<exists>fd t'. opn h t = Some (fd, t') \<and> inv t' \<and> 0 \<le> fd \<and> fd < int (max_fds t) \<and>
        abs t fd = None \<and> abs t' = (abs t)(fd \<mapsto> h) \<and> max_fds t' = max_fds t \<and> bad t' = bad t"
    and close_bad: "inv t \<Longrightarrow> abs t fd = None \<Longrightarrow> cls fd t = Some (- EBADF, t)"
    and close_ok: "inv t \<Longrightarrow> abs t fd = Some h \<Longrightarrow>
      \<exists>t'. cls fd t = Some (0, t') \<and> inv t' \<and> abs t' = (abs t)(fd := None) \<and>
        max_fds t' = max_fds t \<and> bad t' = bad t"
    and card_le: "inv t \<Longrightarrow> card (dom (abs t)) \<le> max_fds t"
    and handles_good: "inv t \<Longrightarrow> abs t fd = Some h \<Longrightarrow> \<not> bad t h"
begin

lemma open_cases:
  assumes "inv t"
  obtains (bad) "bad t h" "opn h t = Some (- EINVAL, t)"
  | (full) "\<not> bad t h" "card (dom (abs t)) = max_fds t" "opn h t = Some (- ENFILE, t)"
  | (ok) fd t' where "\<not> bad t h" "card (dom (abs t)) < max_fds t" "opn h t = Some (fd, t')" "inv t'"
      "0 \<le> fd" "fd < int (max_fds t)" "abs t fd = None" "abs t' = (abs t)(fd \<mapsto> h)"
      "max_fds t' = max_fds t" "bad t' = bad t"
  using open_bad[OF assms] open_full[OF assms] open_ok[OF assms] card_le[OF assms]
  by (metis order_le_less)

lemma open_close:
  assumes "inv t" "\<not> bad t h" "card (dom (abs t)) < max_fds t"
  shows "\<exists>fd t' t''. opn h t = Some (fd, t') \<and> cls fd t' = Some (0, t'') \<and> inv t'' \<and> abs t'' = abs t"
proof -
  obtain fd t' where o: "opn h t = Some (fd, t')" "inv t'" "abs t fd = None" "abs t' = (abs t)(fd \<mapsto> h)"
    using open_ok[OF assms] by blast
  then have "abs t' fd = Some h" by simp
  from close_ok[OF o(2) this] obtain t'' where "cls fd t' = Some (0, t'')" "inv t''" "abs t'' = (abs t')(fd := None)"
    by blast
  with o show ?thesis by (auto simp: fun_eq_iff)
qed

text \<open>Any operation keeps the invariant and the two constants of the table.\<close>

lemma open_inv:
  assumes "inv t"
  shows "\<exists>r t'. opn h t = Some (r, t') \<and> inv t' \<and> max_fds t' = max_fds t \<and> bad t' = bad t"
  by (rule open_cases[OF assms, of h]) (use assms in auto)

lemma close_inv:
  assumes "inv t"
  shows "\<exists>r t'. cls fd t = Some (r, t') \<and> inv t' \<and> max_fds t' = max_fds t \<and> bad t' = bad t"
  using close_bad[OF assms, of fd] close_ok[OF assms, of fd] assms by (cases "abs t fd") auto

end

interpretation fdt: descriptor_table fd_inv fd_abs GetMaxFds
  "\<lambda>t h. handle_eq t h (invalid_handle t)" OpenFd CloseFd
proof unfold_locales
  fix t :: "'h fd_table" and h assume "fd_inv t" "\<not> handle_eq t h (invalid_handle t)"
    "card (dom (fd_abs t)) < GetMaxFds t"
  from OpenFd_ok[OF this] show "\<exists>fd t'. OpenFd h t = Some (fd, t') \<and> fd_inv t' \<and> 0 \<le> fd \<and>
      fd < int (GetMaxFds t) \<and> fd_abs t fd = None \<and> fd_abs t' = (fd_abs t)(fd \<mapsto> h) \<and>
      GetMaxFds t' = GetMaxFds t \<and>
      (\<lambda>h. handle_eq t' h (invalid_handle t')) = (\<lambda>h. handle_eq t h (invalid_handle t))"
    by auto
next
  fix t :: "'h fd_table" and h fd assume "fd_inv t" "fd_abs t fd = Some h"
  from CloseFd_ok[OF this] show "\<exists>t'. CloseFd fd t = Some (0, t') \<and> fd_inv t' \<and>
      fd_abs t' = (fd_abs t)(fd := None) \<and> GetMaxFds t' = GetMaxFds t \<and>
      (\<lambda>h. handle_eq t' h (invalid_handle t')) = (\<lambda>h. handle_eq t h (invalid_handle t))"
    by auto
qed (auto simp: OpenFd_errors CloseFd_invalid card_dom_fd_abs GetMaxFds_def fd_abs_Some_iff fd_used_def
      fd_inv_def)

section \<open>Histories of calls\<close>

datatype 'h fd_call = Open_call 'h | Close_call int

fun fd_exec :: "'h fd_call \<Rightarrow> 'h fd_table \<Rightarrow> 'h fd_table option" where
  "fd_exec (Open_call h) t = map_option snd (OpenFd h t)"
| "fd_exec (Close_call fd) t = map_option snd (CloseFd fd t)"

lemma fd_calls_inv:
  assumes "fd_inv t"
  shows "\<exists>t'. fold_opt fd_exec cs t = Some t' \<and> fd_inv t' \<and> GetMaxFds t' = GetMaxFds t"
  using assms
proof (induction cs arbitrary: t)
  case (Cons c cs)
  obtain t' where "fd_exec c t = Some t'" "fd_inv t'" "GetMaxFds t' = GetMaxFds t"
  proof (cases c)
    case (Open_call h)
    then show thesis using fdt.open_inv[OF Cons.prems, of h] that by auto
  next
    case (Close_call fd)
    then show thesis using fdt.close_inv[OF Cons.prems, of fd] that by auto
  qed
  with Cons.IH[of t'] show ?case by auto
qed simp

section \<open>Properties\<close>

text \<open>
  Opening a descriptor never fails an assertion.  On a well-formed table it answers
  \<open>-EINVAL\<close> exactly for the invalid handle and \<open>-ENFILE\<close> exactly when all descriptors are in use,
  without changing the table; otherwise it returns a descriptor that was free, in range, and maps
  it to the handle while every other descriptor keeps its handle.
\<close>

theorem OpenFd_correct:
  assumes "fd_inv t"
  shows "\<exists>r t'. OpenFd h t = Some (r, t') \<and> fd_inv t' \<and>
    (if handle_eq t h (invalid_handle t) then r = - EINVAL \<and> t' = t
     else if card (dom (fd_abs t)) = GetMaxFds t then r = - ENFILE \<and> t' = t
     else 0 \<le> r \<and> r < int (GetMaxFds t) \<and> fd_abs t r = None \<and> fd_abs t' = (fd_abs t)(r \<mapsto> h))"
  by (rule fdt.open_cases[OF assms, of h]) (use assms in auto)

theorem OpenFd_correct_witness:
  "\<exists>t. FdTable_new (=) 2 (0::nat) = Some t \<and> (\<exists>r t'. OpenFd 7 t = Some (r, t') \<and> 0 \<le> r \<and> fd_abs t' r = Some 7)"
proof -
  obtain t :: "nat fd_table" where t: "FdTable_new (=) 2 0 = Some t" "fd_inv t" "fd_abs t = Map.empty"
    "GetMaxFds t = 2" "invalid_handle t = 0" "handle_eq t = (=)"
    using FdTable_new_inv[of 2 "(=)" "0::nat"] by auto
  with OpenFd_correct[OF t(2), of 7] show ?thesis by auto
qed

text \<open>
  C23.  Closing a descriptor never fails an assertion: \<open>-EBADF\<close> and no change for a descriptor that
  is not open (negative, out of range or free), otherwise 0, and exactly that descriptor is
  unmapped although the code moves another descriptor inside its index vector.
\<close>

theorem CloseFd_correct:
  assumes "fd_inv t"
  shows "\<exists>r t'. CloseFd fd t = Some (r, t') \<and> fd_inv t' \<and> GetMaxFds t' = GetMaxFds t \<and>
    (if fd_abs t fd = None then r = - EBADF \<and> t' = t else r = 0 \<and> fd_abs t' = (fd_abs t)(fd := None))"
  using fdt.close_bad[OF assms, of fd] fdt.close_ok[OF assms, of fd] assms
  by (cases "fd_abs t fd") auto

theorem CloseFd_correct_witness:
  "\<exists>t r t'. FdTable_new (=) 2 (0::nat) = Some t \<and> CloseFd 1 t = Some (r, t') \<and> r = - EBADF \<and> t' = t"
proof -
  obtain t :: "nat fd_table" where t: "FdTable_new (=) 2 0 = Some t" "fd_inv t" "fd_abs t = Map.empty"
    using FdTable_new_inv[of 2 "(=)" "0::nat"] by auto
  with CloseFd_correct[OF t(2), of 1] show ?thesis by auto
qed

text \<open>
  C8.  From a fresh table, any history of \<open>OpenFd\<close> and \<open>CloseFd\<close> calls, with whatever handles and
  descriptor numbers, runs to its end: no assertion of the code fails and the table stays
  well-formed, with the number of descriptors it was created with.
\<close>

theorem fd_table_history:
  assumes "n > 0" and "eq invalid invalid"
  shows "\<exists>t t'. FdTable_new eq n invalid = Some t \<and> fold_opt fd_exec calls t = Some t' \<and> fd_inv t' \<and>
           GetMaxFds t' = n"
  using FdTable_new_inv[of n eq invalid] fd_calls_inv assms by metis

theorem fd_table_history_witness:
  "\<exists>t t'. FdTable_new (=) 1 (0::nat) = Some t \<and>
     fold_opt fd_exec [Open_call 5, Open_call 6, Close_call 0, Close_call 0, Open_call 0] t = Some t' \<and>
     fd_inv t' \<and> GetMaxFds t' = 1"
  using fd_table_history[of 1 "(=)" "0::nat" "[Open_call 5, Open_call 6, Close_call 0, Close_call 0, Open_call 0]"]
  by simp

end
