(* ===== verification/Doubles.thy ===== *)
theory Doubles
  imports Prelude
begin

text \<open>
  The few floating-point computations of the modelled code: products and quotients of
  non-negative values, truncated to an unsigned integer.  They decide hash buckets
  (\<^verbatim>\<open>SmallHashBase::ScaleHash\<close>), table capacities and thresholds, and random numbers
  (\<^verbatim>\<open>Prng::Next\<close>).

  A non-negative IEEE 754 double is a fraction \<open>(a, b)\<close> of natural numbers, \<open>b > 0\<close>; \<open>dbl_round\<close> is
  rounding to a 53-bit significand, to nearest, ties to even.  All values that occur lie between
  \<open>2 ^ - 64\<close> and \<open>2 ^ 128\<close> or are zero, so neither overflow nor subnormal numbers arise.
\<close>

type_synonym dbl = "nat \<times> nat"

fun nbits :: "nat \<Rightarrow> nat" where
  "nbits n = (if n = 0 then 0 else Suc (nbits (n div 2)))"

declare nbits.simps [simp del]

definition round_half_even :: "nat \<Rightarrow> nat \<Rightarrow> nat" where
  "round_half_even a b = (let q = a div b; r = a mod b
     in if 2 * r < b then q else if 2 * r > b then q + 1 else if even q then q else q + 1)"

text \<open>
  \<open>dbl_exp a b\<close> is the exponent \<open>e\<close> with \<open>2 ^ 52 \<le> (a / b) / 2 ^ e < 2 ^ 53\<close>.
\<close>

definition dbl_exp :: "nat \<Rightarrow> nat \<Rightarrow> int" where
  "dbl_exp a b = (let e = int (nbits a) - int (nbits b) - 53
     in if a * 2 ^ nat (- e) < 2 ^ 53 * b * 2 ^ nat e then e else e + 1)"

definition dbl_round :: "nat \<Rightarrow> nat \<Rightarrow> dbl" where
  "dbl_round a b = (if a = 0 then (0, 1) else
     (let e = dbl_exp a b; m = round_half_even (a * 2 ^ nat (- e)) (b * 2 ^ nat e)
      in (m * 2 ^ nat e, 2 ^ nat (- e))))"

definition dbl_of_nat :: "nat \<Rightarrow> dbl" where
  "dbl_of_nat n = (if n < 2 ^ 53 then (n, 1) else dbl_round n 1)"

definition dbl_mult :: "dbl \<Rightarrow> dbl \<Rightarrow> dbl" where
  "dbl_mult x y = dbl_round (fst x * fst y) (snd x * snd y)"

definition dbl_div :: "dbl \<Rightarrow> dbl \<Rightarrow> dbl" where
  "dbl_div x y = dbl_round (fst x * snd y) (snd x * fst y)"

definition dbl_trunc :: "dbl \<Rightarrow> nat" where
  "dbl_trunc x = fst x div snd x"

section \<open>The size of a number in bits\<close>

lemma nbits_0 [simp]: "nbits 0 = 0"
  by (simp add: nbits.simps)

lemma nbits_lower: "n > 0 \<Longrightarrow> 2 ^ (nbits n - 1) \<le> n"
proof (induction n rule: nbits.induct)
  case (1 n)
  show ?case
  proof (cases "n div 2 = 0")
    case True
    then show ?thesis using 1(2) by (simp add: nbits.simps)
  next
    case False
    then have "2 ^ (nbits (n div 2) - 1) \<le> n div 2" using 1 by auto
    moreover have "nbits n = Suc (nbits (n div 2))" "nbits (n div 2) \<noteq> 0"
      using 1(2) False by (simp_all add: nbits.simps)
    ultimately show ?thesis by (cases "nbits (n div 2)") auto
  qed
qed

lemma nbits_upper: "n < 2 ^ nbits n"
proof (induction n rule: nbits.induct)
  case (1 n)
  then show ?case by (cases "n = 0") (auto simp: nbits.simps[of n])
qed

lemma nbits_le: "n < 2 ^ k \<Longrightarrow> nbits n \<le> k"
proof (rule ccontr)
  assume n: "n < 2 ^ k" and "\<not> nbits n \<le> k"
  then have "(2::nat) ^ k \<le> 2 ^ (nbits n - 1)" "n > 0"
    by (auto intro: power_increasing) (cases "n = 0", auto)
  then show False using nbits_lower[of n] n by linarith
qed

section \<open>Truncating a rounded quotient\<close>

text \<open>
  Rounding loses nothing on integers below \<open>2 ^ 53\<close>: an integer lower bound survives, and a
  quotient that is a multiple of \<open>1 / 4\<close> is represented exactly.
\<close>

lemma round_half_even_ge: "a div b \<le> round_half_even a b"
  by (simp add: round_half_even_def Let_def)

lemma round_half_even_exact: "b > 0 \<Longrightarrow> round_half_even (q * b) b = q"
  by (simp add: round_half_even_def Let_def)

lemma dbl_exp_le:
  assumes "a < 2 ^ k" "b > 0"
  shows "dbl_exp a b \<le> int k - int (nbits b) - 52"
  using nbits_le[OF assms(1)] by (simp add: dbl_exp_def Let_def)

lemma dbl_trunc_round_ge:
  assumes a: "a < 2 ^ 52" and b: "b > 0" and q: "q * b \<le> a"
  shows "q \<le> dbl_trunc (dbl_round a b)"
proof (cases "a = 0")
  case True
  then show ?thesis using q b by (simp add: dbl_trunc_def dbl_round_def)
next
  case False
  define e where "e = dbl_exp a b"
  have "e \<le> 0" using dbl_exp_le[OF a b] by (simp add: e_def)
  then obtain n where n: "nat (- e) = n" "nat e = 0" by auto
  have "q * 2 ^ n \<le> a * 2 ^ n div b"
    using q b by (simp add: less_eq_div_iff_mult_less_eq mult.commute mult.left_commute)
  also have "\<dots> \<le> round_half_even (a * 2 ^ n) b" by (rule round_half_even_ge)
  finally show ?thesis
    using False n
    by (simp add: dbl_trunc_def dbl_round_def Let_def less_eq_div_iff_mult_less_eq flip: e_def)
qed

lemma round_half_even_le: "round_half_even a b \<le> a div b + 1"
  by (simp add: round_half_even_def Let_def)

lemma dbl_trunc_round_le:
  assumes a: "a < 2 ^ 52" and b: "b > 0"
  shows "dbl_trunc (dbl_round a b) \<le> a div b + 1"
proof (cases "a = 0")
  case True
  then show ?thesis by (simp add: dbl_trunc_def dbl_round_def)
next
  case False
  define e where "e = dbl_exp a b"
  have "e \<le> 0" using dbl_exp_le[OF a b] by (simp add: e_def)
  then obtain n where n: "nat (- e) = n" "nat e = 0" by auto
  have "a * 2 ^ n div b < (a div b + 1) * 2 ^ n"
  proof -
    have "a < (a div b + 1) * b" using b dividend_less_div_times[of b a] by (simp add: algebra_simps)
    then have "a * 2 ^ n < ((a div b + 1) * b) * 2 ^ n" by (rule mult_strict_right_mono) simp
    also have "\<dots> = ((a div b + 1) * 2 ^ n) * b" by (simp only: ac_simps)
    finally show ?thesis using b by (simp only: div_less_iff_less_mult)
  qed
  then have "round_half_even (a * 2 ^ n) b \<le> (a div b + 1) * 2 ^ n"
    using round_half_even_le[of "a * 2 ^ n" b] by linarith
  then have "round_half_even (a * 2 ^ n) b div 2 ^ n \<le> a div b + 1"
    by (metis div_le_mono nonzero_mult_div_cancel_right power_not_zero zero_neq_numeral)
  then show ?thesis using False n by (simp add: dbl_trunc_def dbl_round_def Let_def flip: e_def)
qed

lemma dbl_trunc_round_quarter:
  assumes a: "a < 2 ^ 50"
  shows "dbl_trunc (dbl_round a 4) = a div 4"
proof (cases "a = 0")
  case True
  then show ?thesis by (simp add: dbl_trunc_def dbl_round_def)
next
  case False
  define e where "e = dbl_exp a 4"
  have "nbits 4 = 3" by (simp add: nbits.simps)
  then have "e \<le> -2" using dbl_exp_le[of a 50 4] a by (simp add: e_def)
  define n where "n = nat (- e) - 2"
  have n: "nat (- e) = Suc (Suc n)" "nat e = 0" using \<open>e \<le> -2\<close> by (simp_all add: n_def)
  have "round_half_even (a * 2 ^ Suc (Suc n)) 4 = a * 2 ^ n"
    using round_half_even_exact[of 4 "a * 2 ^ n"] by (simp add: algebra_simps)
  then have "dbl_round a 4 = (a * 2 ^ n, 2 ^ Suc (Suc n))"
    using False n by (simp add: dbl_round_def Let_def flip: e_def)
  then show ?thesis using div_mult_mult2[of "2 ^ n" a 4] by (simp add: dbl_trunc_def)
qed

end
