(* ===== verification/Prng.thy ===== *)
theory Prng
  imports Doubles
begin

text \<open>
  The linear congruential generator of \<^verbatim>\<open>cvmfs/util/prng.h\<close>: a 64-bit state that wraps
  around, scaled to the requested range by a floating-point product.  (\<^verbatim>\<open>NextNormal\<close> needs
  \<^verbatim>\<open>log\<close> and \<^verbatim>\<open>cos\<close> and is not modelled.)
\<close>

record prng =
  prng_state :: "64 word"

definition Prng_new :: prng where
  "Prng_new = \<lparr>prng_state = 0\<rparr>"

definition InitSeed :: "64 word \<Rightarrow> prng \<Rightarrow> prng" where
  "InitSeed seed p = p\<lparr>prng_state := seed\<rparr>"

definition prng_step :: "prng \<Rightarrow> prng" where
  "prng_step p = p\<lparr>prng_state := 6364136223846793005 * prng_state p + 1442695040888963407\<rparr>"

definition Next :: "nat \<Rightarrow> prng \<Rightarrow> nat \<times> prng" where
  "Next boundary p = (let p' = prng_step p;
     scaled_val = dbl_div (dbl_mult (dbl_of_nat (unat (prng_state p'))) (dbl_of_nat boundary)) (2 ^ 64, 1)
   in (u32 (u64 (dbl_trunc scaled_val) mod boundary), p'))"

definition NextDouble :: "prng \<Rightarrow> dbl \<times> prng" where
  "NextDouble p = (let p' = prng_step p
     in (dbl_div (dbl_of_nat (unat (prng_state p'))) (2 ^ 64, 1), p'))"

lemma Next_less: "0 < boundary \<Longrightarrow> fst (Next boundary p) < boundary"
proof -
  assume "0 < boundary"
  then have "u64 x mod boundary < boundary" for x by simp
  then show ?thesis
    by (simp add: Next_def Let_def u32_def) (meson le_less_trans mod_less_eq_dividend)
qed

end
