(* ===== verification/MapSpec.thy ===== *)
theory MapSpec
  imports Prelude
begin

text \<open>
  The contract of a bounded key-value table, as the users of \<^verbatim>\<open>cvmfs/smallhash.h\<close> rely on it:
  finite maps as the abstract state, and a locale \<open>bounded_map\<close> with the laws of the four
  operations.  The laws are total: the operation returns.  Inside the locale, histories of calls
  are shown to behave like histories of map updates.
\<close>

section \<open>The abstract table\<close>

datatype ('k, 'v) map_call = Put 'k 'v | Del 'k | Clr

fun map_step :: "('k, 'v) map_call \<Rightarrow> ('k \<rightharpoonup> 'v) \<Rightarrow> ('k \<rightharpoonup> 'v)" where
  "map_step (Put k v) m = m(k \<mapsto> v)"
| "map_step (Del k) m = m(k := None)"
| "map_step Clr m = Map.empty"

text \<open>
  \<open>fits R ok cs m\<close>: from the map \<open>m\<close>, the calls \<open>cs\<close> use keys that are \<open>ok\<close>, and whenever a new key is
  put, fewer than \<open>R\<close> keys are present.
\<close>

fun fits :: "nat \<Rightarrow> ('k \<Rightarrow> bool) \<Rightarrow> ('k, 'v) map_call list \<Rightarrow> ('k \<rightharpoonup> 'v) \<Rightarrow> bool" where
  "fits R ok [] m = True"
| "fits R ok (c # cs) m =
     ((case c of Put k v \<Rightarrow> ok k \<and> (m k \<noteq> None \<or> card (dom m) < R) | Del k \<Rightarrow> ok k | Clr \<Rightarrow> True) \<and>
      fits R ok cs (map_step c m))"

lemma fits_mono: "fits R ok cs m \<Longrightarrow> R \<le> R' \<Longrightarrow> fits R' ok cs m"
  by (induction R ok cs m rule: fits.induct) (auto split: map_call.splits)

section \<open>The contract\<close>

locale bounded_map =
  fixes inv :: "'s \<Rightarrow> bool"
    and abs :: "'s \<Rightarrow> 'k \<rightharpoonup> 'v"
    and key_ok :: "'s \<Rightarrow> 'k \<Rightarrow> bool"
    and room :: "'s \<Rightarrow> nat"
    and look :: "'k \<Rightarrow> 's \<Rightarrow> 'v option option"
    and ins :: "'k \<Rightarrow> 'v \<Rightarrow> 's \<Rightarrow> 's option"
    and del :: "'k \<Rightarrow> 's \<Rightarrow> (bool \<times> 's) option"
    and clr :: "'s \<Rightarrow> 's option"
  assumes look_law: "inv s \<Longrightarrow> key_ok s k \<Longrightarrow> look k s = Some (abs s k)"
    and ins_law: "inv s \<Longrightarrow> key_ok s k \<Longrightarrow> abs s k \<noteq> None \<or> card (dom (abs s)) < room s \<Longrightarrow>
      \<exists>s'. ins k v s = Some s' \<and> inv s' \<and> abs s' = (abs s)(k \<mapsto> v) \<and> room s' = room s \<and> key_ok s' = key_ok s"
    and del_law: "inv s \<Longrightarrow> key_ok s k \<Longrightarrow>
      \<exists>s'. del k s = Some (abs s k \<noteq> None, s') \<and> inv s' \<and> abs s' = (abs s)(k := None) \<and> room s' = room s \<and>
        key_ok s' = key_ok s"
    and clr_law: "inv s \<Longrightarrow>
      \<exists>s'. clr s = Some s' \<and> inv s' \<and> abs s' = Map.empty \<and> room s' = room s \<and> key_ok s' = key_ok s"
begin

lemma insE:
  assumes "inv s" "key_ok s k" "abs s k \<noteq> None \<or> card (dom (abs s)) < room s"
  obtains s' where "ins k v s = Some s'" "inv s'" "abs s' = (abs s)(k \<mapsto> v)" "room s' = room s" "key_ok s' = key_ok s"
  using ins_law[OF assms, of v] by blast

lemma delE:
  assumes "inv s" "key_ok s k"
  obtains s' where "del k s = Some (abs s k \<noteq> None, s')" "inv s'" "abs s' = (abs s)(k := None)" "room s' = room s"
    "key_ok s' = key_ok s"
  using del_law[OF assms] by blast

lemma clrE:
  assumes "inv s"
  obtains s' where "clr s = Some s'" "inv s'" "abs s' = Map.empty" "room s' = room s" "key_ok s' = key_ok s"
  using clr_law[OF assms] by blast

definition exec :: "('k, 'v) map_call \<Rightarrow> 's \<Rightarrow> 's option" where
  "exec c s = (case c of Put k v \<Rightarrow> ins k v s | Del k \<Rightarrow> map_option snd (del k s) | Clr \<Rightarrow> clr s)"

lemma exec_refines:
  assumes "inv s" "fits (room s) (key_ok s) (c # cs) (abs s)"
  obtains s' where "exec c s = Some s'" "inv s'" "abs s' = map_step c (abs s)" "room s' = room s" "key_ok s' = key_ok s"
proof (cases c)
  case (Put k v)
  then show thesis using insE[OF assms(1), of k v] assms(2) that by (auto simp: exec_def)
next
  case (Del k)
  then show thesis using delE[OF assms(1), of k] assms(2) that by (auto simp: exec_def)
next
  case Clr
  then show thesis using clrE[OF assms(1)] that by (auto simp: exec_def)
qed

lemma history_refines:
  assumes "inv s" "fits (room s) (key_ok s) cs (abs s)"
  shows "\<exists>s'. fold_opt exec cs s = Some s' \<and> inv s' \<and> abs s' = fold map_step cs (abs s) \<and> key_ok s' = key_ok s"
  using assms
proof (induction cs arbitrary: s)
  case (Cons c cs)
  obtain s' where "exec c s = Some s'" "inv s'" "abs s' = map_step c (abs s)" "room s' = room s" "key_ok s' = key_ok s"
    using exec_refines[OF Cons.prems] .
  with Cons.IH[of s'] Cons.prems(2) show ?case by simp
qed simp

lemma history_lookup:
  assumes "inv s" "fits (room s) (key_ok s) cs (abs s)"
  shows "\<exists>s'. fold_opt exec cs s = Some s' \<and> inv s' \<and>
     (\<forall>k. key_ok s k \<longrightarrow> look k s' = Some (fold map_step cs (abs s) k))"
  using history_refines[OF assms] look_law by metis

end

end
