(* ===== verification/SmallHash.thy ===== *)
theory SmallHash
  imports Prng MapSpec
begin

text \<open>
  The hash table with linear probing, \<^verbatim>\<open>cvmfs/smallhash.h\<close>: \<open>SmallHashBase\<close> with its fixed-size
  instance.  (\<open>SmallHashDynamic\<close> extends it in the theory \<open>SmallHashDyn\<close>.)

  The table is a record of the C++ fields.  Keys are compared with HOL equality: the model is that
  of the instances whose \<^verbatim>\<open>operator==\<close> is an identity of the stored data.  What the template
  arguments fix (the sizes of keys and values, their default values) is the field \<open>tparams\<close>.
  Reads and writes of the arrays are checked, a call that would index out of bounds, fail an
  assertion or probe forever is \<open>None\<close>.

  The theory shows that probing always ends when one bucket is empty, and that under the
  invariant \<open>sh_inv\<close> the table is the finite map \<open>sh_abs\<close>: in particular that the re-insertion loop
  of \<open>Erase\<close> restores the invariant.
\<close>

section \<open>The code\<close>

record ('k, 'v) tparams =
  sizeof_key :: nat
  sizeof_value :: nat
  default_key :: 'k
  default_value :: 'v

record ('k, 'v) smallhash =
  tparams :: "('k, 'v) tparams"
  keys :: "'k list"
  vals :: "'v list"
  capacity :: nat
  initial_capacity :: nat
  hsize :: nat
  hasher :: "'k \<Rightarrow> 32 word"
  bytes_allocated :: nat
  num_collisions :: nat
  max_collisions :: nat
  empty_key :: 'k

definition ScaleHash :: "'k \<Rightarrow> ('k, 'v, 'z) smallhash_scheme \<Rightarrow> nat option" where
  "ScaleHash key t = (if capacity t = 0 then None else
     (let bucket = dbl_div (dbl_mult (dbl_of_nat (unat (hasher t key))) (dbl_of_nat (capacity t)))
                     (dbl_of_nat 4294967295)
      in Some (u32 (dbl_trunc bucket) mod capacity t)))"

definition AllocMemory :: "('k, 'v, 'z) smallhash_scheme \<Rightarrow> ('k, 'v, 'z) smallhash_scheme option" where
  "AllocMemory t = do {
     assert_that (capacity t * sizeof_key (tparams t) > 0);
     assert_that (capacity t * sizeof_value (tparams t) > 0);
     Some (t\<lparr>keys := replicate (capacity t) (default_key (tparams t)),
             vals := replicate (capacity t) (default_value (tparams t)),
             bytes_allocated := (sizeof_key (tparams t) + sizeof_value (tparams t)) * capacity t\<rparr>)
   }"

text \<open>The loop shared by \<open>DoLookup\<close> and \<open>LookupEx\<close>: \<open>(found, bucket, collisions)\<close>.\<close>

partial_function (option) probe ::
  "'k list \<Rightarrow> nat \<Rightarrow> 'k \<Rightarrow> 'k \<Rightarrow> nat \<Rightarrow> nat \<Rightarrow> (bool \<times> nat \<times> nat) option" where
  "probe ks cap emp key bucket collisions =
     (case array_get ks bucket of None \<Rightarrow> None
      | Some x \<Rightarrow> if x = emp then Some (False, bucket, collisions)
                 else if x = key then Some (True, bucket, collisions)
                 else probe ks cap emp key ((bucket + 1) mod cap) (u32 (collisions + 1)))"

definition DoLookup :: "'k \<Rightarrow> ('k, 'v, 'z) smallhash_scheme \<Rightarrow> (bool \<times> nat \<times> nat) option" where
  "DoLookup key t = do {
     bucket \<leftarrow> ScaleHash key t;
     probe (keys t) (capacity t) (empty_key t) key bucket 0
   }"

definition DoInsert ::
  "'k \<Rightarrow> 'v \<Rightarrow> bool \<Rightarrow> ('k, 'v, 'z) smallhash_scheme \<Rightarrow> (bool \<times> ('k, 'v, 'z) smallhash_scheme) option" where
  "DoInsert key v count_collisions t = do {
     (overwritten, bucket, collisions) \<leftarrow> DoLookup key t;
     let t1 = (if count_collisions
               then t\<lparr>num_collisions := u64 (num_collisions t + collisions),
                      max_collisions := max collisions (max_collisions t)\<rparr>
               else t);
     ks \<leftarrow> array_set (keys t1) bucket key;
     vs \<leftarrow> array_set (vals t1) bucket v;
     Some (overwritten, t1\<lparr>keys := ks, vals := vs\<rparr>)
   }"

text \<open>
  \<open>hash_clear\<close> is the loop of \<open>DoClear\<close>, after the derived class has had the chance to reset
  the capacity; \<open>hash_insert\<close> is \<open>Insert\<close> after \<open>Grow\<close>; \<open>hash_erase\<close> is \<open>Erase\<close> before \<open>Shrink\<close>.
\<close>

definition hash_clear :: "('k, 'v, 'z) smallhash_scheme \<Rightarrow> ('k, 'v, 'z) smallhash_scheme option" where
  "hash_clear t = do {
     ks \<leftarrow> fold_opt (\<lambda>i ks. array_set ks i (empty_key t)) [0..<capacity t] (keys t);
     Some (t\<lparr>keys := ks, hsize := 0\<rparr>)
   }"

definition hash_lookup :: "'k \<Rightarrow> ('k, 'v, 'z) smallhash_scheme \<Rightarrow> 'v option option" where
  "hash_lookup key t = do {
     (found, bucket, collisions) \<leftarrow> DoLookup key t;
     if found then map_option Some (array_get (vals t) bucket) else Some None
   }"

definition LookupEx :: "'k \<Rightarrow> ('k, 'v, 'z) smallhash_scheme \<Rightarrow> ('k \<times> 'v) option option" where
  "LookupEx key t = do {
     bucket0 \<leftarrow> ScaleHash key t;
     (found, bucket, collisions) \<leftarrow> probe (keys t) (capacity t) (empty_key t) key bucket0 0;
     if found then do {
       k \<leftarrow> array_get (keys t) bucket;
       v \<leftarrow> array_get (vals t) bucket;
       Some (Some (k, v))
     } else Some None
   }"

definition Contains :: "'k \<Rightarrow> ('k, 'v, 'z) smallhash_scheme \<Rightarrow> bool option" where
  "Contains key t = map_option fst (DoLookup key t)"

definition hash_insert ::
  "'k \<Rightarrow> 'v \<Rightarrow> ('k, 'v, 'z) smallhash_scheme \<Rightarrow> ('k, 'v, 'z) smallhash_scheme option" where
  "hash_insert key v t = do {
     (overwritten, t1) \<leftarrow> DoInsert key v True t;
     Some (t1\<lparr>hsize := u32 (hsize t1 + (if overwritten then 0 else 1))\<rparr>)
   }"

text \<open>
  The re-insertion loop of \<open>Erase\<close>.  It runs over the buckets after the erased one until it
  meets an empty bucket; \<open>fuel\<close> bounds the number of rounds and is the capacity of the table.
\<close>

fun erase_loop ::
  "nat \<Rightarrow> nat \<Rightarrow> ('k, 'v, 'z) smallhash_scheme \<Rightarrow> ('k, 'v, 'z) smallhash_scheme option" where
  "erase_loop 0 bucket t = None"
| "erase_loop (Suc fuel) bucket t = do {
     rehash \<leftarrow> array_get (keys t) bucket;
     if rehash = empty_key t then Some t
     else do {
       ks \<leftarrow> array_set (keys t) bucket (empty_key t);
       v \<leftarrow> array_get (vals t) bucket;
       (_, t1) \<leftarrow> DoInsert rehash v False (t\<lparr>keys := ks\<rparr>);
       erase_loop fuel ((bucket + 1) mod capacity t) t1
     }
   }"

definition hash_erase ::
  "'k \<Rightarrow> ('k, 'v, 'z) smallhash_scheme \<Rightarrow> (bool \<times> ('k, 'v, 'z) smallhash_scheme) option" where
  "hash_erase key t = do {
     (found, bucket, collisions) \<leftarrow> DoLookup key t;
     if found then do {
       ks \<leftarrow> array_set (keys t) bucket (empty_key t);
       let t1 = t\<lparr>keys := ks, hsize := u32 (hsize t + 4294967295)\<rparr>;
       t2 \<leftarrow> erase_loop (capacity t) ((bucket + 1) mod capacity t) t1;
       Some (True, t2)
     } else Some (False, t)
   }"

text \<open>\<open>Init\<close> of the fixed-size table: \<open>kLoadFactor = 0.75\<close>, no thresholds to set.\<close>

definition load_capacity :: "nat \<Rightarrow> nat" where
  "load_capacity expected_size = u32 (dbl_trunc (dbl_div (dbl_of_nat expected_size) (3, 4)))"

definition hash_new :: "('k, 'v) tparams \<Rightarrow> 'k \<Rightarrow> ('k \<Rightarrow> 32 word) \<Rightarrow> ('k, 'v) smallhash" where
  "hash_new tp emp h = \<lparr>tparams = tp, keys = [], vals = [], capacity = 0, initial_capacity = 0,
     hsize = 0, hasher = h, bytes_allocated = 0, num_collisions = 0, max_collisions = 0, empty_key = emp\<rparr>"

definition fixed_Init ::
  "('k, 'v) tparams \<Rightarrow> nat \<Rightarrow> 'k \<Rightarrow> ('k \<Rightarrow> 32 word) \<Rightarrow> ('k, 'v) smallhash option" where
  "fixed_Init tp expected_size emp h = do {
     let c = load_capacity expected_size;
     t \<leftarrow> AllocMemory ((hash_new tp emp h)\<lparr>capacity := c, initial_capacity := c\<rparr>);
     hash_clear t
   }"

section \<open>Invariant and abstraction\<close>

text \<open>
  \<open>rdist n a b\<close> is the number of steps from bucket \<open>a\<close> to bucket \<open>b\<close> on a ring of \<open>n\<close> buckets.
  The invariant of linear probing: from its home bucket an entry is reached before any empty bucket.
\<close>

definition rdist :: "nat \<Rightarrow> nat \<Rightarrow> nat \<Rightarrow> nat" where
  "rdist n a b = (b + n - a) mod n"

definition home :: "('k, 'v, 'z) smallhash_scheme \<Rightarrow> 'k \<Rightarrow> nat" where
  "home t k = (case ScaleHash k t of Some b \<Rightarrow> b | None \<Rightarrow> 0)"

definition reach_inv :: "('k \<Rightarrow> nat) \<Rightarrow> 'k \<Rightarrow> 'k list \<Rightarrow> bool" where
  "reach_inv h emp ks \<longleftrightarrow> (\<forall>i < length ks. \<forall>j < length ks. ks ! i \<noteq> emp \<longrightarrow> ks ! j = emp \<longrightarrow>
     rdist (length ks) (h (ks ! i)) i < rdist (length ks) (h (ks ! i)) j)"

definition no_dups :: "'k \<Rightarrow> 'k list \<Rightarrow> bool" where
  "no_dups emp ks \<longleftrightarrow> distinct (filter (\<lambda>k. k \<noteq> emp) ks)"

definition sh_inv :: "('k, 'v, 'z) smallhash_scheme \<Rightarrow> bool" where
  "sh_inv t \<longleftrightarrow> 0 < capacity t \<and> capacity t < 2 ^ 32 \<and>
     length (keys t) = capacity t \<and> length (vals t) = capacity t \<and>
     hsize t = length (filter (\<lambda>k. k \<noteq> empty_key t) (keys t)) \<and> hsize t < capacity t \<and>
     no_dups (empty_key t) (keys t) \<and> reach_inv (home t) (empty_key t) (keys t) \<and>
     0 < sizeof_key (tparams t) \<and> 0 < sizeof_value (tparams t)"

definition entries :: "'k \<Rightarrow> 'k list \<Rightarrow> 'v list \<Rightarrow> ('k \<times> 'v) list" where
  "entries emp ks vs = filter (\<lambda>p. fst p \<noteq> emp) (zip ks vs)"

definition sh_abs :: "('k, 'v, 'z) smallhash_scheme \<Rightarrow> 'k \<rightharpoonup> 'v" where
  "sh_abs t = map_of (entries (empty_key t) (keys t) (vals t))"

section \<open>The ring of buckets\<close>

lemma rdist_if: "a < n \<Longrightarrow> b < n \<Longrightarrow> rdist n a b = (if a \<le> b then b - a else b + n - a)"
  by (auto simp: rdist_def le_mod_geq)

lemma ring_if: "(a::nat) < n \<Longrightarrow> d \<le> n \<Longrightarrow> (a + d) mod n = (if a + d < n then a + d else a + d - n)"
  by (auto simp: le_mod_geq)

lemma ring_less [simp]: "(a::nat) < n \<Longrightarrow> (a + d) mod n < n"
  by simp

lemma rdist_less: "0 < n \<Longrightarrow> rdist n a b < n"
  by (simp add: rdist_def)

lemma ring_rdist: "a < n \<Longrightarrow> b < n \<Longrightarrow> (a + rdist n a b) mod n = b"
  by (auto simp: rdist_if ring_if)

lemma rdist_ring: "a < n \<Longrightarrow> d < n \<Longrightarrow> rdist n a ((a + d) mod n) = d"
  by (auto simp: rdist_if ring_if)

lemma ring_eq_iff:
  assumes "(a::nat) < n" "d < n" "d' < n"
  shows "(a + d) mod n = (a + d') mod n \<longleftrightarrow> d = d'"
proof
  assume "(a + d) mod n = (a + d') mod n"
  then have "rdist n a ((a + d) mod n) = rdist n a ((a + d') mod n)" by (rule arg_cong)
  then show "d = d'" by (simp only: rdist_ring assms)
qed simp

section \<open>Probing\<close>

lemma probe_step:
  "b < length ks \<Longrightarrow> probe ks cap emp key b col =
     (if ks ! b = emp then Some (False, b, col) else if ks ! b = key then Some (True, b, col)
      else probe ks cap emp key ((b + 1) mod cap) (u32 (col + 1)))"
  by (subst probe.simps) simp

text \<open>
  If an empty bucket lies \<open>m\<close> steps ahead, probing ends after \<open>q \<le> m\<close> steps, at the first bucket that
  is empty or holds the key.
\<close>

lemma probe_ends:
  assumes "b < n" "n = length ks" "ks ! ((b + m) mod n) = emp \<or> ks ! ((b + m) mod n) = key"
  shows "\<exists>q col'. q \<le> m \<and> (\<forall>r < q. ks ! ((b + r) mod n) \<noteq> emp \<and> ks ! ((b + r) mod n) \<noteq> key) \<and>
     (ks ! ((b + q) mod n) = emp \<or> ks ! ((b + q) mod n) = key) \<and>
     probe ks n emp key b col = Some (ks ! ((b + q) mod n) \<noteq> emp, (b + q) mod n, col')"
  using assms
proof (induction m arbitrary: b col)
  case 0
  then show ?case by (auto simp: probe_step)
next
  case (Suc m)
  show ?case
  proof (cases "ks ! b = emp \<or> ks ! b = key")
    case True
    then show ?thesis using Suc.prems by (intro exI[of _ 0] exI[of _ col]) (auto simp: probe_step)
  next
    case False
    let ?b = "(b + 1) mod n"
    have shift: "(?b + r) mod n = (b + Suc r) mod n" for r by (simp add: mod_simps)
    have "?b < n" using Suc.prems(1) by simp
    from Suc.IH[OF this, of "u32 (col + 1)"] Suc.prems(2,3) obtain q col' where q: "q \<le> m"
      "\<forall>r < q. ks ! ((b + Suc r) mod n) \<noteq> emp \<and> ks ! ((b + Suc r) mod n) \<noteq> key"
      "ks ! ((b + Suc q) mod n) = emp \<or> ks ! ((b + Suc q) mod n) = key"
      "probe ks n emp key ?b (u32 (col + 1)) = Some (ks ! ((b + Suc q) mod n) \<noteq> emp, (b + Suc q) mod n, col')"
      unfolding shift by blast
    have "\<forall>r < Suc q. ks ! ((b + r) mod n) \<noteq> emp \<and> ks ! ((b + r) mod n) \<noteq> key"
      using q(2) False Suc.prems(1) by (auto simp: less_Suc_eq_0_disj)
    with q False Suc.prems show ?thesis
      by (intro exI[of _ "Suc q"] exI[of _ col']) (auto simp: probe_step)
  qed
qed

text \<open>Probing from the home bucket, in terms of the steps taken.\<close>

lemma probe_from:
  assumes "a < n" "n = length ks" "j < n" "ks ! j = emp"
  obtains b col where "probe ks n emp key a 0 = Some (ks ! b \<noteq> emp, b, col)" "b < n"
    "ks ! b = emp \<or> ks ! b = key"
    "\<And>i. i < n \<Longrightarrow> rdist n a i < rdist n a b \<Longrightarrow> ks ! i \<noteq> emp \<and> ks ! i \<noteq> key"
    "rdist n a b \<le> rdist n a j"
proof -
  have "ks ! ((a + rdist n a j) mod n) = emp" using assms by (simp add: ring_rdist)
  from probe_ends[OF assms(1,2) disjI1[OF this], of key 0] obtain q col where q: "q \<le> rdist n a j"
    "\<forall>r < q. ks ! ((a + r) mod n) \<noteq> emp \<and> ks ! ((a + r) mod n) \<noteq> key"
    "ks ! ((a + q) mod n) = emp \<or> ks ! ((a + q) mod n) = key"
    "probe ks n emp key a 0 = Some (ks ! ((a + q) mod n) \<noteq> emp, (a + q) mod n, col)" by blast
  have "q < n" using q(1) rdist_less[of n a j] assms(1) by simp
  then have "rdist n a ((a + q) mod n) = q" using assms(1) by (simp add: rdist_ring)
  moreover have "ks ! i \<noteq> emp \<and> ks ! i \<noteq> key" if "i < n" "rdist n a i < q" for i
    using q(2)[rule_format, OF that(2)] that(1) assms(1) by (simp add: ring_rdist)
  ultimately show thesis using q assms(1) by (intro that[of "(a + q) mod n" col]) auto
qed

lemma probe_stops_at:
  assumes "probe ks n emp key b col = Some r"
  shows "emp \<in> set ks \<or> key \<in> set ks"
proof (rule probe.raw_induct[where P = "\<lambda>ks n emp key b col r. emp \<in> set ks \<or> key \<in> set ks", OF _ assms])
  fix pr :: "'a list \<Rightarrow> nat \<Rightarrow> 'a \<Rightarrow> 'a \<Rightarrow> nat \<Rightarrow> nat \<Rightarrow> (bool \<times> nat \<times> nat) option" and ks cap emp key b col r
  assume IH: "\<And>ks cap emp key b col r. pr ks cap emp key b col = Some r \<Longrightarrow> emp \<in> set ks \<or> key \<in> set ks"
    and run: "(case array_get ks b of None \<Rightarrow> None
      | Some x \<Rightarrow> if x = emp then Some (False, b, col) else if x = key then Some (True, b, col)
                 else pr ks cap emp key ((b + 1) mod cap) (u32 (col + 1))) = Some r"
  then obtain x where x: "b < length ks" "x = ks ! b" by (auto simp: array_get_def split: if_splits)
  show "emp \<in> set ks \<or> key \<in> set ks"
  proof (cases "x = emp \<or> x = key")
    case True
    then show ?thesis using x nth_mem by metis
  next
    case False
    then show ?thesis using IH[of ks cap emp key] run x by simp
  qed
qed

lemma probe_returns_iff:
  assumes "b < n" "n = length ks"
  shows "probe ks n emp key b col \<noteq> None \<longleftrightarrow> emp \<in> set ks \<or> key \<in> set ks"
proof
  assume "probe ks n emp key b col \<noteq> None"
  then show "emp \<in> set ks \<or> key \<in> set ks" using probe_stops_at by (metis not_Some_eq)
next
  assume "emp \<in> set ks \<or> key \<in> set ks"
  then obtain j where j: "j < n" "ks ! j = emp \<or> ks ! j = key" using assms(2) by (auto simp: in_set_conv_nth)
  then have "ks ! ((b + rdist n b j) mod n) = emp \<or> ks ! ((b + rdist n b j) mod n) = key"
    using assms(1) by (simp add: ring_rdist)
  from probe_ends[OF assms this, of col] show "probe ks n emp key b col \<noteq> None" by force
qed

lemma probe_home:
  assumes h: "h k < n" and n: "n = length ks" and j: "j < n" "ks ! j = emp" and k: "k \<noteq> emp"
    and inv: "reach_inv h emp ks"
  obtains (found) b col where "probe ks n emp k (h k) 0 = Some (True, b, col)" "b < n" "ks ! b = k"
  | (absent) b col where "probe ks n emp k (h k) 0 = Some (False, b, col)" "b < n" "ks ! b = emp" "k \<notin> set ks"
      "\<And>i. i < n \<Longrightarrow> ks ! i = emp \<Longrightarrow> rdist n (h k) b \<le> rdist n (h k) i"
proof -
  obtain b col where b: "probe ks n emp k (h k) 0 = Some (ks ! b \<noteq> emp, b, col)" "b < n"
    "ks ! b = emp \<or> ks ! b = k"
    "\<And>i. i < n \<Longrightarrow> rdist n (h k) i < rdist n (h k) b \<Longrightarrow> ks ! i \<noteq> emp \<and> ks ! i \<noteq> k"
    using probe_from[OF h n j] by metis
  show thesis
  proof (cases "ks ! b = emp")
    case True
    have "k \<notin> set ks"
    proof
      assume "k \<in> set ks"
      then obtain i where i: "i < n" "ks ! i = k" using n by (metis in_set_conv_nth)
      then have "rdist n (h k) i < rdist n (h k) b"
        using inv True b(2) k unfolding reach_inv_def n by blast
      with b(4)[OF i(1)] i(2) show False by simp
    qed
    moreover have "rdist n (h k) b \<le> rdist n (h k) i" if "i < n" "ks ! i = emp" for i
      using b(4)[OF that(1)] that(2) by force
    ultimately show thesis using absent True b(1,2) by simp
  next
    case False
    with b found show thesis by auto
  qed
qed

lemma reach_inv_insert:
  assumes inv: "reach_inv h emp ks" and n: "n = length ks" "b < n" "h k < n"
    and first: "\<And>i. i < n \<Longrightarrow> ks ! i = emp \<Longrightarrow> rdist n (h k) b \<le> rdist n (h k) i"
    and b: "ks ! b = emp" and k: "k \<noteq> emp"
  shows "reach_inv h emp (ks[b := k])"
  unfolding reach_inv_def
proof (intro allI impI)
  fix i j assume ij: "i < length (ks[b := k])" "j < length (ks[b := k])"
    and ne: "ks[b := k] ! i \<noteq> emp" "ks[b := k] ! j = emp"
  then have j: "j \<noteq> b" "ks ! j = emp" "j < n" using k n by (auto simp: nth_list_update split: if_splits)
  show "rdist (length (ks[b := k])) (h (ks[b := k] ! i)) i < rdist (length (ks[b := k])) (h (ks[b := k] ! i)) j"
  proof (cases "i = b")
    case True
    have "rdist n (h k) b \<noteq> rdist n (h k) j"
      using j(1,3) n ring_rdist[of "h k" n b] ring_rdist[of "h k" n j] by auto
    then show ?thesis using True first[OF j(3,2)] n by simp
  next
    case False
    then show ?thesis using inv ij ne j n unfolding reach_inv_def by auto
  qed
qed

lemma reach_inv_update: "reach_inv h emp ks \<Longrightarrow> b < length ks \<Longrightarrow> ks ! b = k \<Longrightarrow> reach_inv h emp (ks[b := k])"
  by auto

section \<open>Erasing: re-insertion of the buckets that follow\<close>

text \<open>
  Seen from the bucket \<open>c\<close> after some empty bucket, the ring is a line that ends with an empty
  bucket and on which no probe path wraps around.  \<open>lin_inv p\<close> is the invariant of the re-insertion
  loop when it has come to position \<open>p\<close> of that line: the entries before \<open>p\<close> are reached from their
  homes, the entries from \<open>p\<close> on are reached as far as the buckets from \<open>p\<close> on are concerned.
\<close>

definition line :: "nat \<Rightarrow> 'k list \<Rightarrow> nat \<Rightarrow> 'k" where
  "line c ks p = ks ! ((c + p) mod length ks)"

definition lin_inv :: "('k \<Rightarrow> nat) \<Rightarrow> 'k \<Rightarrow> nat \<Rightarrow> nat \<Rightarrow> 'k list \<Rightarrow> bool" where
  "lin_inv h emp c p ks \<longleftrightarrow> line c ks (length ks - 1) = emp \<and>
     (\<forall>q < length ks. line c ks q \<noteq> emp \<longrightarrow> rdist (length ks) c (h (line c ks q)) \<le> q \<and>
        (\<forall>r. rdist (length ks) c (h (line c ks q)) \<le> r \<longrightarrow> q < p \<or> p \<le> r \<longrightarrow> r < q \<longrightarrow> line c ks r \<noteq> emp))"

lemma line_update:
  "c < length ks \<Longrightarrow> p < length ks \<Longrightarrow> q < length ks \<Longrightarrow>
   line c (ks[(c + q) mod length ks := x]) p = (if p = q then x else line c ks p)"
  using ring_eq_iff[of c "length ks" q p] by (auto simp: line_def nth_list_update)

lemma rdist_line:
  assumes "a < n" "b < n" "c < n"
  shows "rdist n a b = (if rdist n c a \<le> rdist n c b then rdist n c b - rdist n c a
                        else n + rdist n c b - rdist n c a)"
  using assms by (auto simp: rdist_if)

lemma reach_inv_lin:
  assumes n: "n = length ks" "c < n" and h: "\<And>k. h k < n" and last: "line c ks (n - 1) = emp"
    and inv: "reach_inv h emp ks"
  shows "lin_inv h emp c p ks"
  unfolding lin_inv_def n(1)[symmetric]
proof (intro conjI allI impI)
  fix q assume q: "q < n" "line c ks q \<noteq> emp"
  let ?k = "line c ks q" let ?a = "rdist n c (h ?k)"
  have reach: "rdist n (h ?k) ((c + q) mod n) < rdist n (h ?k) ((c + r) mod n)"
    if "r < n" "line c ks r = emp" for r
  proof -
    have "(c + q) mod n < n" "(c + r) mod n < n" using n(2) by simp_all
    then show ?thesis using inv q(2) that(2) unfolding reach_inv_def line_def n(1) by blast
  qed
  have pos: "rdist n (h ?k) ((c + r) mod n) = (if ?a \<le> r then r - ?a else n + r - ?a)" if "r < n" for r
    using rdist_line[of "h ?k" n "(c + r) mod n" c] h n(2) that by (auto simp: rdist_ring)
  have a: "?a < n" using n(2) by (simp add: rdist_less)
  show le: "?a \<le> q"
    using reach[of "n - 1"] pos[of "n - 1"] pos[of q] last q(1) a by (auto split: if_splits)
  fix r assume "?a \<le> r" "r < q"
  then show "line c ks r \<noteq> emp" using reach[of r] q(1) le by (auto simp: pos)
qed (rule last)

lemma lin_inv_reach:
  assumes n: "n = length ks" "c < n" and h: "\<And>k. h k < n" and p: "p < n" "line c ks p = emp"
    and inv: "lin_inv h emp c p ks"
  shows "reach_inv h emp ks"
  unfolding reach_inv_def n(1)[symmetric]
proof (intro allI impI)
  fix i j assume ij: "i < n" "j < n" "ks ! i \<noteq> emp" "ks ! j = emp"
  let ?q = "rdist n c i" let ?r = "rdist n c j" let ?a = "rdist n c (h (ks ! i))"
  have l: "line c ks ?q = ks ! i" "line c ks ?r = emp"
    using ij ring_rdist[OF n(2) ij(1)] ring_rdist[OF n(2) ij(2)] by (simp_all add: line_def n(1))
  have less: "?q < n" "?r < n" "?a < n" using n(2) by (simp_all add: rdist_less)
  have le: "?a \<le> ?q" and path: "\<And>r. ?a \<le> r \<Longrightarrow> ?q < p \<or> p \<le> r \<Longrightarrow> r < ?q \<Longrightarrow> line c ks r \<noteq> emp"
    using inv less(1) ij(3) l(1) unfolding lin_inv_def n(1)[symmetric] by auto
  have "?q < ?r \<or> ?r < ?a"
  proof (rule ccontr)
    assume "\<not> (?q < ?r \<or> ?r < ?a)"
    moreover have "?q \<noteq> ?r" using l ij(3) by auto
    ultimately have r: "?a \<le> ?r" "?r < ?q" by auto
    show False
    proof (cases "?q < p \<or> p \<le> ?r")
      case True
      then show False using path[OF r(1) _ r(2)] l(2) by simp
    next
      case False
      then have "?q \<noteq> p" using l(1) p(2) ij(3) by metis
      then show False using path[of p] r False p(2) by auto
    qed
  qed
  then show "rdist n (h (ks ! i)) i < rdist n (h (ks ! i)) j"
    using rdist_line[OF h ij(1) n(2), of "ks ! i"] rdist_line[OF h ij(2) n(2), of "ks ! i"] le less by auto
qed

text \<open>One round: the entry at position \<open>p\<close> moves to the first empty bucket from its home, at or before \<open>p\<close>.\<close>

lemma lin_inv_target:
  assumes n: "n = length ks" "c < n" "p < n" and h: "h k < n"
    and k: "line c ks p = k" "k \<noteq> emp" "\<forall>q < n. line c ks q = k \<longrightarrow> q = p"
    and le: "rdist n c (h k) \<le> p"
  defines "ks1 \<equiv> ks[(c + p) mod n := emp]"
  obtains q col where "probe ks1 n emp k (h k) 0 = Some (False, (c + q) mod n, col)" "q \<le> p"
    "line c ks1 q = emp" "rdist n c (h k) \<le> q" "\<And>r. rdist n c (h k) \<le> r \<Longrightarrow> r < q \<Longrightarrow> line c ks1 r \<noteq> emp"
proof -
  let ?a = "rdist n c (h k)"
  have n1: "n = length ks1" using n by (simp add: ks1_def)
  have emp: "ks1 ! ((c + p) mod n) = emp" using n by (simp add: ks1_def)
  obtain b col where b: "probe ks1 n emp k (h k) 0 = Some (ks1 ! b \<noteq> emp, b, col)" "b < n"
    "ks1 ! b = emp \<or> ks1 ! b = k"
    "\<And>i. i < n \<Longrightarrow> rdist n (h k) i < rdist n (h k) b \<Longrightarrow> ks1 ! i \<noteq> emp \<and> ks1 ! i \<noteq> k"
    "rdist n (h k) b \<le> rdist n (h k) ((c + p) mod n)"
    using probe_from[OF h n1 _ emp] n(2) by (metis ring_less)
  define q where "q = rdist n c b"
  have q: "q < n" "(c + q) mod n = b" using n(2) b(2) by (simp_all add: q_def rdist_less ring_rdist)
  have pos: "rdist n (h k) ((c + r) mod n) = (if ?a \<le> r then r - ?a else n + r - ?a)" if "r < n" for r
    using rdist_line[of "h k" n "(c + r) mod n" c] h n(2) that by (simp add: rdist_ring)
  have range: "?a \<le> q" "q \<le> p" using b(5) pos[of q] pos[of p] q n(3) le by (auto split: if_splits)
  have line1: "line c ks1 r = ks1 ! ((c + r) mod n)" for r using n1 by (simp add: line_def)
  have upd: "line c ks1 r = (if r = p then emp else line c ks r)" if "r < n" for r
    using line_update[of c ks r p emp] n that by (simp add: ks1_def)
  have e: "ks1 ! b = emp"
  proof (rule ccontr)
    assume "ks1 ! b \<noteq> emp"
    then have "line c ks1 q = k" using b(3) line1[of q] q(2) by simp
    then have "q \<noteq> p \<and> line c ks q = k" using upd[OF q(1)] k(2) by (simp split: if_splits)
    then show False using k(3) q(1) by blast
  qed
  have first: "line c ks1 r \<noteq> emp" if "?a \<le> r" "r < q" for r
    using b(4)[of "(c + r) mod n"] pos[of r] pos[of q] that q n(2) by (simp add: line1)
  show thesis
    using that[of q col] b(1) e q range first line1[of q] by simp
qed

lemma lin_inv_step:
  assumes n: "n = length ks" "c < n" "p < n" and h: "\<And>k. h k < n"
    and k: "line c ks p = k" "k \<noteq> emp" "\<forall>q < n. line c ks q = k \<longrightarrow> q = p"
    and inv: "lin_inv h emp c p ks"
  defines "ks1 \<equiv> ks[(c + p) mod n := emp]"
  obtains b col where "probe ks1 n emp k (h k) 0 = Some (False, b, col)" "b < n" "ks1 ! b = emp"
    "Suc p < n" "lin_inv h emp c (Suc p) (ks1[b := k])"
proof -
  let ?a = "\<lambda>k. rdist n c (h k)"
  have I: "?a (line c ks q) \<le> q" "\<And>r. ?a (line c ks q) \<le> r \<Longrightarrow> q < p \<or> p \<le> r \<Longrightarrow> r < q \<Longrightarrow> line c ks r \<noteq> emp"
    if "q < n" "line c ks q \<noteq> emp" for q
    using inv that unfolding lin_inv_def n(1)[symmetric] by blast+
  have last: "line c ks (n - 1) = emp" using inv by (simp add: lin_inv_def n(1))
  then have p: "Suc p < n" using k(1,2) n(3) by (cases "p = n - 1") auto
  obtain q col where q: "probe ks1 n emp k (h k) 0 = Some (False, (c + q) mod n, col)" "q \<le> p"
    "line c ks1 q = emp" "?a k \<le> q" "\<And>r. ?a k \<le> r \<Longrightarrow> r < q \<Longrightarrow> line c ks1 r \<noteq> emp"
    using lin_inv_target[where h = h and k = k, OF n h k] I(1)[of p] n(3) k(1,2) unfolding ks1_def by blast
  let ?ks2 = "ks1[(c + q) mod n := k]"
  have len: "length ks1 = n" "length ?ks2 = n" using n(1) by (simp_all add: ks1_def)
  have l1: "line c ks1 r = (if r = p then emp else line c ks r)" if "r < n" for r
    using line_update[of c ks r p emp] n that by (simp add: ks1_def)
  have l2: "line c ?ks2 r = (if r = q then k else line c ks1 r)" if "r < n" for r
    using line_update[of c ks1 r q k] n q(2) that len by simp
  have "lin_inv h emp c (Suc p) ?ks2"
    unfolding lin_inv_def len
  proof (intro conjI allI impI)
    have "n - Suc 0 \<noteq> p" "n - Suc 0 \<noteq> q" using p q(2) by linarith+
    then show "line c ?ks2 (n - 1) = emp" using l1 l2 p last by simp
    fix s assume s: "s < n" "line c ?ks2 s \<noteq> emp"
    show "?a (line c ?ks2 s) \<le> s"
      using s q(4) I(1)[of s] by (auto simp: l1 l2 split: if_splits)
    fix r assume r: "?a (line c ?ks2 s) \<le> r" "s < Suc p \<or> Suc p \<le> r" "r < s"
    show "line c ?ks2 r \<noteq> emp"
    proof (cases "s = q")
      case True
      then show ?thesis using r s q(5)[of r] k(2) by (simp add: l2)
    next
      case False
      then have "s \<noteq> p" "line c ?ks2 s = line c ks s" using s by (auto simp: l1 l2 split: if_splits)
      then show ?thesis using I(2)[of s r] r s k(2) False by (auto simp: l1 l2)
    qed
  qed
  moreover have "ks1 ! ((c + q) mod n) = emp" using q(3) len by (simp add: line_def)
  ultimately show thesis using that[of "(c + q) mod n" col] q(1) p n(2) by simp
qed

section \<open>Entries\<close>

lemma entries_update:
  assumes "length ks = length vs" "b < length ks"
  shows "mset (entries emp (ks[b := k]) (vs[b := v])) =
    (mset (entries emp ks vs) - (if ks ! b = emp then {#} else {#(ks ! b, vs ! b)#})) +
      (if k = emp then {#} else {#(k, v)#})"
proof -
  have "zip (ks[b := k]) (vs[b := v]) = (zip ks vs)[b := (k, v)]" by (simp add: zip_update)
  then have "mset (zip (ks[b := k]) (vs[b := v])) = mset (zip ks vs) - {#(ks ! b, vs ! b)#} + {#(k, v)#}"
    using assms by (simp add: mset_update)
  then show ?thesis by (simp add: entries_def mset_filter filter_diff_mset)
qed

lemma entries_erase:
  assumes "length ks = length vs" "b < length ks" "ks ! b \<noteq> emp"
  shows "mset (entries emp (ks[b := emp]) vs) = mset (entries emp ks vs) - {#(ks ! b, vs ! b)#}"
  using entries_update[OF assms(1,2), of emp emp "vs ! b"] assms(3) by simp

lemma map_fst_entries: "length ks = length vs \<Longrightarrow> map fst (entries emp ks vs) = filter (\<lambda>k. k \<noteq> emp) ks"
  by (induction ks vs rule: list_induct2) (auto simp: entries_def)

lemma entries_in:
  "length ks = length vs \<Longrightarrow> b < length ks \<Longrightarrow> ks ! b \<noteq> emp \<Longrightarrow> (ks ! b, vs ! b) \<in> set (entries emp ks vs)"
  by (force simp: entries_def set_zip)

lemma no_dups_entries: "length ks = length vs \<Longrightarrow> no_dups emp ks \<longleftrightarrow> distinct (map fst (entries emp ks vs))"
  by (simp add: no_dups_def map_fst_entries)

lemma no_dups_nth:
  assumes "no_dups emp ks" "i < length ks" "j < length ks" "ks ! i = ks ! j" "ks ! i \<noteq> emp"
  shows "i = j"
  using assms
proof (induction ks arbitrary: i j)
  case (Cons a ks)
  have nd: "no_dups emp ks" "a \<noteq> emp \<Longrightarrow> a \<notin> set ks"
    using Cons.prems(1) by (auto simp: no_dups_def split: if_splits)
  show ?case
  proof (cases i; cases j)
    fix i' j' assume "i = Suc i'" "j = Suc j'"
    then show ?thesis using Cons.IH[OF nd(1), of i' j'] Cons.prems by simp
  qed (use Cons.prems nd(2) in auto)
qed simp

text \<open>Two tables with the same multiset of entries, keys unique, are the same map.\<close>

lemma map_of_mset_eq:
  assumes "mset xs = mset ys" "distinct (map fst xs)"
  shows "map_of xs = map_of ys" "distinct (map fst ys)" "length xs = length ys"
proof -
  have "mset (map fst xs) = mset (map fst ys)" using assms(1) by simp
  then show d: "distinct (map fst ys)" using assms(2) mset_eq_imp_distinct_iff by blast
  show "map_of xs = map_of ys"
    using d assms mset_eq_setD by (subst map_of_inject_set) auto
  show "length xs = length ys" using assms(1) by (rule mset_eq_length)
qed

lemma map_of_mset_add:
  assumes "mset ys = add_mset (k, v) (mset xs)" "distinct (map fst xs)" "k \<notin> fst ` set xs"
  shows "map_of ys = (map_of xs)(k \<mapsto> v)" "distinct (map fst ys)" "length ys = Suc (length xs)"
proof -
  have "mset ((k, v) # xs) = mset ys" "distinct (map fst ((k, v) # xs))" using assms by simp_all
  from map_of_mset_eq[OF this] show "map_of ys = (map_of xs)(k \<mapsto> v)" "distinct (map fst ys)"
    "length ys = Suc (length xs)" by simp_all
qed

lemma map_of_mset_remove:
  assumes "mset xs = add_mset (k, v) (mset ys)" "distinct (map fst xs)"
  shows "map_of ys = (map_of xs)(k := None)" "distinct (map fst ys)" "length xs = Suc (length ys)"
    "map_of xs k = Some v"
proof -
  have "mset xs = mset ((k, v) # ys)" using assms by simp
  note E = map_of_mset_eq[OF this assms(2)]
  then have "map_of ys k = None" by (simp add: map_of_eq_None_iff)
  then show "map_of ys = (map_of xs)(k := None)" using E(1) by (auto simp: fun_eq_iff)
  show "distinct (map fst ys)" "length xs = Suc (length ys)" "map_of xs k = Some v" using E by simp_all
qed

text \<open>Writing a bucket that holds the key already, or is empty while the key occurs nowhere.\<close>

lemma entries_store:
  fixes v :: 'v
  assumes len: "length ks = length vs" "b < length ks" and nd: "no_dups emp ks" and k: "k \<noteq> emp"
    and b: "if map_of (entries emp ks vs) k = None then ks ! b = emp else ks ! b = k"
  defines "E \<equiv> entries emp ks vs" and "E' \<equiv> entries emp (ks[b := k]) (vs[b := v])"
  shows "map_of E' = (map_of E)(k \<mapsto> v)" "distinct (map fst E')"
    "length E' = (if map_of E k = None then Suc (length E) else length E)"
proof -
  have M: "mset E' = (mset E - (if map_of E k = None then {#} else {#(k, vs ! b)#})) + {#(k, v)#}"
    using entries_update[OF len, of emp k v] b k by (auto simp: E_def E'_def split: if_splits)
  have dist: "distinct (map fst E)" using len nd no_dups_entries[of ks vs emp] by (simp add: E_def)
  have "map_of E' = (map_of E)(k \<mapsto> v) \<and> distinct (map fst E') \<and>
    length E' = (if map_of E k = None then Suc (length E) else length E)"
  proof (cases "map_of E k = None")
    case True
    then have "k \<notin> fst ` set E" by (simp add: map_of_eq_None_iff)
    with True M dist map_of_mset_add[of E' k v E] show ?thesis by simp
  next
    case False
    then have old: "(k, vs ! b) \<in> set E" using entries_in[OF len, of emp] b k by (auto simp: E_def)
    define ys where "ys = remove1 (k, vs ! b) E"
    have ys: "mset E = add_mset (k, vs ! b) (mset ys)" using old by (simp add: ys_def)
    note R = map_of_mset_remove[OF ys dist]
    have "k \<notin> fst ` set ys" using R(1) by (metis fun_upd_same map_of_eq_None_iff)
    with map_of_mset_add[of E' k v ys] R M ys False show ?thesis by simp
  qed
  then show "map_of E' = (map_of E)(k \<mapsto> v)" "distinct (map fst E')"
    "length E' = (if map_of E k = None then Suc (length E) else length E)" by blast+
qed

section \<open>Lookup and insertion\<close>

lemma home_frame [simp]:
  "home (t\<lparr>keys := ks\<rparr>) = home t" "home (t\<lparr>vals := vs\<rparr>) = home t" "home (t\<lparr>hsize := s\<rparr>) = home t"
  "home (t\<lparr>num_collisions := x\<rparr>) = home t" "home (t\<lparr>max_collisions := y\<rparr>) = home t"
  by (simp_all add: home_def ScaleHash_def fun_eq_iff)

lemma ScaleHash_home: "0 < capacity t \<Longrightarrow> ScaleHash k t = Some (home t k)"
  by (simp add: home_def ScaleHash_def Let_def)

lemma home_less: "0 < capacity t \<Longrightarrow> home t k < capacity t"
  by (simp add: home_def ScaleHash_def Let_def)

lemma sh_invD:
  assumes "sh_inv t"
  shows "0 < capacity t" "capacity t < 2 ^ 32" "length (keys t) = capacity t" "length (vals t) = capacity t"
    "hsize t < capacity t" "no_dups (empty_key t) (keys t)" "reach_inv (home t) (empty_key t) (keys t)"
    "hsize t = length (entries (empty_key t) (keys t) (vals t))"
    "0 < sizeof_key (tparams t)" "0 < sizeof_value (tparams t)"
  using assms length_map[of fst "entries (empty_key t) (keys t) (vals t)"]
  by (auto simp: sh_inv_def map_fst_entries simp del: length_map)

lemma sh_invI:
  assumes "0 < capacity t" "capacity t < 2 ^ 32" "length (keys t) = capacity t" "length (vals t) = capacity t"
    "hsize t = length (entries (empty_key t) (keys t) (vals t))" "hsize t < capacity t"
    "distinct (map fst (entries (empty_key t) (keys t) (vals t)))"
    "reach_inv (home t) (empty_key t) (keys t)" "0 < sizeof_key (tparams t)" "0 < sizeof_value (tparams t)"
  shows "sh_inv t"
  using assms arg_cong[OF map_fst_entries[of "keys t" "vals t" "empty_key t"], of length]
    no_dups_entries[of "keys t" "vals t" "empty_key t"]
  by (simp add: sh_inv_def)

lemma sh_inv_empty_bucket:
  assumes "length (filter (\<lambda>k. k \<noteq> emp) ks) < length ks"
  obtains j where "j < length ks" "ks ! j = emp"
proof -
  have "\<exists>x \<in> set ks. x = emp"
    using assms by (metis (mono_tags, lifting) filter_True less_irrefl)
  then show thesis using that by (auto simp: in_set_conv_nth)
qed

lemma sh_abs_bucket:
  assumes "sh_inv t" "b < capacity t" "keys t ! b \<noteq> empty_key t"
  shows "sh_abs t (keys t ! b) = Some (vals t ! b)"
  using assms sh_invD[OF assms(1)]
  by (simp add: sh_abs_def map_of_eq_Some_iff entries_in flip: no_dups_entries)

lemma sh_abs_None_iff:
  assumes "sh_inv t"
  shows "sh_abs t k = None \<longleftrightarrow> k = empty_key t \<or> k \<notin> set (keys t)"
proof -
  have "fst ` set (entries (empty_key t) (keys t) (vals t)) = set (filter (\<lambda>k. k \<noteq> empty_key t) (keys t))"
    using sh_invD(3,4)[OF assms] by (simp flip: map_fst_entries[of _ "vals t"])
  then show ?thesis by (auto simp: sh_abs_def map_of_eq_None_iff)
qed

text \<open>The result of \<open>DoLookup\<close>: the bucket of the key, or the empty bucket where it belongs.\<close>

lemma DoLookup_cases:
  assumes inv: "sh_inv t" and k: "k \<noteq> empty_key t"
  obtains (found) b col where "DoLookup k t = Some (True, b, col)" "b < capacity t" "keys t ! b = k"
      "sh_abs t k = Some (vals t ! b)"
  | (absent) b col where "DoLookup k t = Some (False, b, col)" "b < capacity t" "keys t ! b = empty_key t"
      "sh_abs t k = None" "reach_inv (home t) (empty_key t) ((keys t)[b := k])"
proof -
  note I = sh_invD[OF inv]
  have "length (filter (\<lambda>k. k \<noteq> empty_key t) (keys t)) < length (keys t)"
    using inv by (simp add: sh_inv_def)
  then obtain j where j: "j < capacity t" "keys t ! j = empty_key t"
    using sh_inv_empty_bucket I(3) by metis
  have run: "DoLookup k t = probe (keys t) (capacity t) (empty_key t) k (home t k) 0"
    by (simp add: DoLookup_def ScaleHash_home I(1))
  show thesis
  proof (rule probe_home[OF home_less[OF I(1)] I(3)[symmetric] j k I(7)])
    fix b col assume "probe (keys t) (capacity t) (empty_key t) k (home t k) 0 = Some (True, b, col)"
      "b < capacity t" "keys t ! b = k"
    then show thesis using found[of b col] run sh_abs_bucket[OF inv, of b] k by simp
  next
    fix b col assume b: "probe (keys t) (capacity t) (empty_key t) k (home t k) 0 = Some (False, b, col)"
      "b < capacity t" "keys t ! b = empty_key t" "k \<notin> set (keys t)"
      "\<And>i. i < capacity t \<Longrightarrow> keys t ! i = empty_key t \<Longrightarrow>
         rdist (capacity t) (home t k) b \<le> rdist (capacity t) (home t k) i"
    then have "reach_inv (home t) (empty_key t) ((keys t)[b := k])"
      using reach_inv_insert[OF I(7) I(3)[symmetric] b(2) home_less[OF I(1)] b(5) b(3) k] by simp
    then show thesis using absent[of b col] run b sh_abs_None_iff[OF inv] by simp
  qed
qed

text \<open>What no operation on the buckets touches.\<close>

definition sh_frame :: "('k, 'v, 'z) smallhash_scheme \<Rightarrow> ('k, 'v, 'z) smallhash_scheme \<Rightarrow> bool" where
  "sh_frame t t' \<longleftrightarrow> tparams t' = tparams t \<and> capacity t' = capacity t \<and>
     initial_capacity t' = initial_capacity t \<and> hasher t' = hasher t \<and> empty_key t' = empty_key t \<and>
     bytes_allocated t' = bytes_allocated t \<and> smallhash.more t' = smallhash.more t"

lemma sh_frame_refl [simp]: "sh_frame t t"
  by (simp add: sh_frame_def)

lemma sh_frame_trans: "sh_frame t1 t2 \<Longrightarrow> sh_frame t2 t3 \<Longrightarrow> sh_frame t1 t3"
  by (simp add: sh_frame_def)

lemma sh_frame_simps [simp]:
  "sh_frame t (t'\<lparr>keys := ks\<rparr>) = sh_frame t t'" "sh_frame t (t'\<lparr>vals := vs\<rparr>) = sh_frame t t'"
  "sh_frame t (t'\<lparr>hsize := s\<rparr>) = sh_frame t t'" "sh_frame t (t'\<lparr>num_collisions := x\<rparr>) = sh_frame t t'"
  "sh_frame t (t'\<lparr>max_collisions := y\<rparr>) = sh_frame t t'"
  by (simp_all add: sh_frame_def)

lemma sh_frameD:
  assumes "sh_frame t t'"
  shows "tparams t' = tparams t" "capacity t' = capacity t" "initial_capacity t' = initial_capacity t"
    "hasher t' = hasher t" "empty_key t' = empty_key t" "bytes_allocated t' = bytes_allocated t"
    "smallhash.more t' = smallhash.more t" "home t' = home t"
  using assms by (auto simp: sh_frame_def home_def ScaleHash_def fun_eq_iff)

lemma hash_lookup_correct:
  assumes "sh_inv t" "k \<noteq> empty_key t"
  shows "hash_lookup k t = Some (sh_abs t k)"
  by (rule DoLookup_cases[OF assms]) (use sh_invD(4)[OF assms(1)] in \<open>simp_all add: hash_lookup_def\<close>)

lemma LookupEx_correct:
  assumes "sh_inv t" "k \<noteq> empty_key t"
  shows "LookupEx k t = Some (map_option (Pair k) (sh_abs t k))"
proof -
  have run: "LookupEx k t = do {
     (found, bucket, collisions) \<leftarrow> DoLookup k t;
     if found then do { k \<leftarrow> array_get (keys t) bucket; v \<leftarrow> array_get (vals t) bucket; Some (Some (k, v)) }
     else Some None }"
    by (simp add: LookupEx_def DoLookup_def)
  show ?thesis
    by (rule DoLookup_cases[OF assms]) (use sh_invD(3,4)[OF assms(1)] run in simp_all)
qed

lemma Contains_correct:
  assumes "sh_inv t" "k \<noteq> empty_key t"
  shows "Contains k t = Some (sh_abs t k \<noteq> None)"
  by (rule DoLookup_cases[OF assms]) (simp_all add: Contains_def)

text \<open>Storing an entry in its bucket, whether the bucket held the key or was empty.\<close>

lemma DoInsert_correct:
  assumes inv: "sh_inv t" and k: "k \<noteq> empty_key t"
  obtains b t' where "DoInsert k v cc t = Some (sh_abs t k \<noteq> None, t')" "b < capacity t"
    "keys t' = (keys t)[b := k]" "vals t' = (vals t)[b := v]" "sh_frame t t'" "hsize t' = hsize t"
    "if sh_abs t k = None then keys t ! b = empty_key t else keys t ! b = k"
    "reach_inv (home t) (empty_key t) (keys t')"
proof -
  note I = sh_invD[OF inv]
  show thesis
  proof (rule DoLookup_cases[OF inv k])
    fix b col assume "DoLookup k t = Some (True, b, col)" "b < capacity t" "keys t ! b = k"
      "sh_abs t k = Some (vals t ! b)"
    then show thesis using that[of _ b] I(3,4,7) reach_inv_update[OF I(7), of b k]
      by (cases cc) (simp_all add: DoInsert_def Let_def)
  next
    fix b col assume "DoLookup k t = Some (False, b, col)" "b < capacity t" "keys t ! b = empty_key t"
      "sh_abs t k = None" "reach_inv (home t) (empty_key t) ((keys t)[b := k])"
    then show thesis using that[of _ b] I(3,4)
      by (cases cc) (simp_all add: DoInsert_def Let_def)
  qed
qed

lemma hash_insert_correct:
  assumes inv: "sh_inv t" and k: "k \<noteq> empty_key t"
    and room: "sh_abs t k = None \<Longrightarrow> Suc (hsize t) < capacity t"
  shows "\<exists>t'. hash_insert k v t = Some t' \<and> sh_inv t' \<and> sh_abs t' = (sh_abs t)(k \<mapsto> v) \<and> sh_frame t t' \<and>
     hsize t' = (if sh_abs t k = None then Suc (hsize t) else hsize t)"
proof -
  note I = sh_invD[OF inv]
  obtain b t' where b: "DoInsert k v True t = Some (sh_abs t k \<noteq> None, t')" "b < capacity t"
    "keys t' = (keys t)[b := k]" "vals t' = (vals t)[b := v]" "sh_frame t t'" "hsize t' = hsize t"
    "if sh_abs t k = None then keys t ! b = empty_key t else keys t ! b = k"
    "reach_inv (home t) (empty_key t) (keys t')"
    by (rule DoInsert_correct[OF inv k])
  let ?s = "if sh_abs t k = None then Suc (hsize t) else hsize t"
  let ?t = "t'\<lparr>hsize := ?s\<rparr>"
  note F = sh_frameD[OF b(5)]
  have run: "hash_insert k v t = Some ?t"
    using b(1,6) I(2,5) room by (auto simp: hash_insert_def)
  have len: "length (keys t') = capacity t" "length (vals t') = capacity t" using b I by simp_all
  have E: "map_of (entries (empty_key t) (keys t') (vals t')) = (sh_abs t)(k \<mapsto> v)"
    "distinct (map fst (entries (empty_key t) (keys t') (vals t')))"
    "length (entries (empty_key t) (keys t') (vals t')) = ?s"
    using entries_store[of "keys t" "vals t" b "empty_key t" k v] I(3,4,6,8) b(2,7) k
    by (simp_all add: b(3,4) flip: sh_abs_def)
  have "sh_inv ?t"
    by (rule sh_invI) (use E(2,3) I(1,2,5,9,10) b(8) len F room in \<open>simp_all split: if_splits\<close>)
  moreover have "sh_abs ?t = (sh_abs t)(k \<mapsto> v)" using E(1) F(5) unfolding sh_abs_def[of ?t] by simp
  ultimately show ?thesis using run b(5) by simp
qed

section \<open>Erasing\<close>

lemma line_unique:
  assumes "no_dups emp ks" "c < length ks" "p < length ks" "line c ks p \<noteq> emp"
  shows "\<forall>q < length ks. line c ks q = line c ks p \<longrightarrow> q = p"
proof (intro allI impI)
  fix q assume q: "q < length ks" "line c ks q = line c ks p"
  then have "(c + q) mod length ks = (c + p) mod length ks"
    using no_dups_nth[OF assms(1), of "(c + q) mod length ks" "(c + p) mod length ks"] assms
    by (simp add: line_def)
  then show "q = p" using ring_eq_iff[OF assms(2) q(1) assms(3)] by simp
qed

text \<open>One round of the loop moves an entry; the entries as a whole stay the same.\<close>

lemma erase_round:
  assumes n: "capacity t = n" "length (keys t) = n" "length (vals t) = n" "c < n" "p < n"
    and inv: "lin_inv (home t) (empty_key t) c p (keys t)" and nd: "no_dups (empty_key t) (keys t)"
    and k: "line c (keys t) p \<noteq> empty_key t"
  obtains t' where "\<forall>fuel. erase_loop (Suc fuel) ((c + p) mod n) t = erase_loop fuel ((c + Suc p) mod n) t'"
    "sh_frame t t'" "hsize t' = hsize t" "length (keys t') = n" "length (vals t') = n" "Suc p < n"
    "lin_inv (home t) (empty_key t) c (Suc p) (keys t')"
    "mset (entries (empty_key t) (keys t') (vals t')) = mset (entries (empty_key t) (keys t) (vals t))"
proof -
  let ?b = "(c + p) mod n" and ?e = "empty_key t" and ?k = "line c (keys t) p"
  let ?ks1 = "(keys t)[?b := ?e]" and ?v = "vals t ! ?b"
  have b: "?b < n" "keys t ! ?b = ?k" using n by (simp_all add: line_def)
  have h: "home t k < n" for k using home_less[of t] n by simp
  obtain q col where q: "probe ?ks1 n ?e ?k (home t ?k) 0 = Some (False, q, col)" "q < n" "?ks1 ! q = ?e"
    "Suc p < n" "lin_inv (home t) ?e c (Suc p) (?ks1[q := ?k])"
    using lin_inv_step[OF n(2)[symmetric] n(4,5) h refl k _ inv]
      line_unique[OF nd, of c p] n k by auto
  let ?t = "t\<lparr>keys := ?ks1[q := ?k], vals := (vals t)[q := ?v]\<rparr>"
  have "DoLookup ?k (t\<lparr>keys := ?ks1\<rparr>) = Some (False, q, col)"
    using q(1) n by (simp add: DoLookup_def ScaleHash_home)
  then have ins: "DoInsert ?k ?v False (t\<lparr>keys := ?ks1\<rparr>) = Some (False, ?t)"
    using q(2) n by (simp add: DoInsert_def)
  have "erase_loop (Suc fuel) ?b t = erase_loop fuel ((c + Suc p) mod n) ?t" for fuel
    using b n ins k mod_Suc_eq[of "c + p" n] by simp
  moreover have "mset (entries ?e (keys ?t) (vals ?t)) = mset (entries ?e (keys t) (vals t))"
    using entries_update[of ?ks1 "vals t" q ?e ?k ?v] entries_erase[of "keys t" "vals t" ?b ?e]
      entries_in[of "keys t" "vals t" ?b ?e] q(2,3) b n k by simp
  ultimately show thesis using that[of ?t] q n by simp
qed

lemma erase_loop_correct:
  assumes "capacity t = n" "length (keys t) = n" "length (vals t) = n" "c < n" "p < n" "n \<le> fuel + p"
    and "lin_inv (home t) (empty_key t) c p (keys t)" and "no_dups (empty_key t) (keys t)"
  shows "\<exists>t'. erase_loop fuel ((c + p) mod n) t = Some t' \<and> sh_frame t t' \<and> hsize t' = hsize t \<and>
     length (keys t') = n \<and> length (vals t') = n \<and> reach_inv (home t) (empty_key t) (keys t') \<and>
     mset (entries (empty_key t) (keys t') (vals t')) = mset (entries (empty_key t) (keys t) (vals t))"
  using assms
proof (induction fuel arbitrary: p t)
  case (Suc fuel)
  note n = Suc.prems
  show ?case
  proof (cases "line c (keys t) p = empty_key t")
    case True
    have "reach_inv (home t) (empty_key t) (keys t)"
      using lin_inv_reach[OF n(2)[symmetric] n(4) _ n(5) True n(7)] home_less[of t] n by simp
    then show ?thesis using True n by (simp add: line_def)
  next
    case False
    obtain t' where t': "\<forall>fuel. erase_loop (Suc fuel) ((c + p) mod n) t = erase_loop fuel ((c + Suc p) mod n) t'"
      "sh_frame t t'" "hsize t' = hsize t" "length (keys t') = n" "length (vals t') = n" "Suc p < n"
      "lin_inv (home t) (empty_key t) c (Suc p) (keys t')"
      "mset (entries (empty_key t) (keys t') (vals t')) = mset (entries (empty_key t) (keys t) (vals t))"
      by (rule erase_round[OF n(1,2,3,4,5,7,8) False])
    note F = sh_frameD[OF t'(2)]
    have "no_dups (empty_key t') (keys t')"
      using map_of_mset_eq(2)[OF t'(8)[symmetric]] n(8) t'(4,5) n(2,3) F(5)
        no_dups_entries[of "keys t" "vals t"] no_dups_entries[of "keys t'" "vals t'"] by simp
    then obtain t'' where t'': "erase_loop fuel ((c + Suc p) mod n) t' = Some t''" "sh_frame t' t''"
      "hsize t'' = hsize t'" "length (keys t'') = n" "length (vals t'') = n"
      "reach_inv (home t) (empty_key t) (keys t'')"
      "mset (entries (empty_key t) (keys t'') (vals t'')) = mset (entries (empty_key t) (keys t') (vals t'))"
      using Suc.IH[of t' "Suc p"] t' n F by auto
    then show ?thesis using t' sh_frame_trans[OF t'(2) t''(2)] by auto
  qed
qed simp

text \<open>The start of the loop, right after the bucket of the key has been emptied.\<close>

lemma lin_inv_erase:
  assumes inv: "reach_inv h emp ks" and n: "n = length ks" "b < n" "ks ! b \<noteq> emp" and h: "\<And>k. h k < n"
    and j: "j < n" "ks ! j = emp"
  obtains c p where "c < n" "Suc p < n" "(c + p) mod n = b" "lin_inv h emp c (Suc p) (ks[b := emp])"
proof -
  define c where "c = (j + 1) mod n"
  define p where "p = rdist n c b"
  have c: "c < n" using j by (simp add: c_def)
  have p: "p < n" "(c + p) mod n = b" using c n(2) by (simp_all add: p_def rdist_less ring_rdist)
  have "(c + (n - 1)) mod n = j"
    using j(1) mod_add_left_eq[of "j + 1" n "n - 1"] by (simp add: c_def)
  then have last: "line c ks (n - 1) = emp" using j(2) n(1) by (simp add: line_def)
  have "line c ks p \<noteq> emp" using p(2) n by (simp add: line_def)
  then have p1: "Suc p < n" using last p(1) by (cases "p = n - 1") auto
  have L: "lin_inv h emp c n ks" by (rule reach_inv_lin[OF n(1) c h last inv])
  have upd: "line c (ks[b := emp]) q = (if q = p then emp else line c ks q)" if "q < n" for q
    using line_update[of c ks q p emp] c p n(1) that by simp
  have I: "rdist n c (h (line c ks q)) \<le> q"
    "\<And>r. rdist n c (h (line c ks q)) \<le> r \<Longrightarrow> r < q \<Longrightarrow> line c ks r \<noteq> emp"
    if "q < n" "line c ks q \<noteq> emp" for q
    using L that unfolding lin_inv_def n(1)[symmetric] by blast+
  have "lin_inv h emp c (Suc p) (ks[b := emp])"
    unfolding lin_inv_def length_list_update n(1)[symmetric]
  proof (intro conjI allI impI)
    show "line c (ks[b := emp]) (n - 1) = emp" using upd[of "n - 1"] p(1) last by simp
    fix q assume q: "q < n" "line c (ks[b := emp]) q \<noteq> emp"
    then have q': "q \<noteq> p" "line c ks q \<noteq> emp" "line c (ks[b := emp]) q = line c ks q"
      by (simp_all add: upd split: if_splits)
    show "rdist n c (h (line c (ks[b := emp]) q)) \<le> q" using I(1) q(1) q'(2,3) by simp
    fix r assume r: "rdist n c (h (line c (ks[b := emp]) q)) \<le> r" "q < Suc p \<or> Suc p \<le> r" "r < q"
    then have "r \<noteq> p" "line c ks r \<noteq> emp" using I(2)[of q r] q(1) q' by auto
    then show "line c (ks[b := emp]) r \<noteq> emp" using upd[of r] r(3) q(1) by simp
  qed
  with that c p1 p show thesis by blast
qed

lemma hash_erase_correct:
  assumes inv: "sh_inv t" and k: "k \<noteq> empty_key t"
  shows "\<exists>t'. hash_erase k t = Some (sh_abs t k \<noteq> None, t') \<and> sh_inv t' \<and> sh_abs t' = (sh_abs t)(k := None) \<and>
     sh_frame t t' \<and> hsize t' = (if sh_abs t k = None then hsize t else hsize t - 1)"
proof (rule DoLookup_cases[OF inv k])
  fix b col assume "DoLookup k t = Some (False, b, col)" "sh_abs t k = None"
  then show ?thesis using inv by (auto simp: hash_erase_def fun_eq_iff)
next
  note I = sh_invD[OF inv]
  fix b col assume b: "DoLookup k t = Some (True, b, col)" "b < capacity t" "keys t ! b = k"
    "sh_abs t k = Some (vals t ! b)"
  let ?n = "capacity t" and ?e = "empty_key t"
  let ?ks = "(keys t)[b := ?e]"
  let ?t = "t\<lparr>keys := ?ks, hsize := hsize t - 1\<rparr>"
  have E: "mset (entries ?e (keys t) (vals t)) = add_mset (k, vals t ! b) (mset (entries ?e ?ks (vals t)))"
    using entries_erase[of "keys t" "vals t" b ?e] entries_in[of "keys t" "vals t" b ?e] I b k by simp
  have dist: "distinct (map fst (entries ?e (keys t) (vals t)))"
    using I(3,4,6) no_dups_entries[of "keys t" "vals t" ?e] by simp
  note R = map_of_mset_remove[OF E dist]
  have "0 < hsize t" using R(3) I(8) by simp
  then have sz: "u32 (hsize t + 4294967295) = hsize t - 1" using I(2,5) by (simp add: u32_def mod_if)
  obtain j where "j < ?n" "keys t ! j = ?e"
    using sh_inv_empty_bucket[of ?e "keys t"] inv I(3) by (auto simp: sh_inv_def)
  then obtain c p where cp: "c < ?n" "Suc p < ?n" "(c + p) mod ?n = b" "lin_inv (home t) ?e c (Suc p) ?ks"
    using lin_inv_erase[OF I(7) I(3)[symmetric] b(2) _ home_less[OF I(1)]] b(3) k by metis
  have nd: "no_dups ?e ?ks" using R(2) I(3,4) no_dups_entries[of ?ks "vals t" ?e] by simp
  obtain t' where t': "erase_loop ?n ((c + Suc p) mod ?n) ?t = Some t'" "sh_frame ?t t'" "hsize t' = hsize t - 1"
    "length (keys t') = ?n" "length (vals t') = ?n" "reach_inv (home t) ?e (keys t')"
    "mset (entries ?e (keys t') (vals t')) = mset (entries ?e ?ks (vals t))"
    using erase_loop_correct[of ?t ?n c "Suc p" ?n] I(1,3,4) cp nd by auto
  have "(b + 1) mod ?n = (c + Suc p) mod ?n" using cp(3) by (metis Suc_eq_plus1 add_Suc_right mod_Suc_eq)
  then have "hash_erase k t = Some (True, t')"
    using b t'(1) I(3) sz by (simp add: hash_erase_def Let_def)
  note M = map_of_mset_eq[OF t'(7)[symmetric] R(2)]
  have fr: "sh_frame t t'" using t'(2) by (simp add: sh_frame_def)
  note F = sh_frameD[OF fr]
  have "sh_inv t'"
    by (rule sh_invI) (use M R I t' F in simp_all)
  moreover have "sh_abs t' = (sh_abs t)(k := None)"
    using M(1) R(1) F(5) by (simp add: sh_abs_def)
  ultimately show ?thesis using \<open>hash_erase k t = Some (True, t')\<close> b(4) fr t'(3) by simp
qed

section \<open>Clearing and creating\<close>

lemma array_fill:
  "m \<le> length ks \<Longrightarrow> fold_opt (\<lambda>i ks. array_set ks i x) [0..<m] ks = Some (replicate m x @ drop m ks)"
proof (induction m)
  case (Suc m)
  then have "(replicate m x @ drop m ks)[m := x] = replicate (Suc m) x @ drop (Suc m) ks"
    by (simp add: list_update_append replicate_append_same[symmetric] flip: Cons_nth_drop_Suc)
  then show ?case using Suc by (simp add: fold_opt_append)
qed simp

lemma hash_clear_eq:
  "length (keys t) = capacity t \<Longrightarrow> hash_clear t = Some (t\<lparr>keys := replicate (capacity t) (empty_key t), hsize := 0\<rparr>)"
  by (simp add: hash_clear_def array_fill)

lemma entries_replicate [simp]: "entries emp (replicate n emp) vs = []"
  by (auto simp: entries_def filter_empty_conv in_set_zip)

lemma cleared_inv:
  assumes "0 < capacity t" "capacity t < 2 ^ 32" "length (vals t) = capacity t"
    "0 < sizeof_key (tparams t)" "0 < sizeof_value (tparams t)"
  shows "sh_inv (t\<lparr>keys := replicate (capacity t) (empty_key t), hsize := 0\<rparr>)"
    and "sh_abs (t\<lparr>keys := replicate (capacity t) (empty_key t), hsize := 0\<rparr>) = Map.empty"
  using assms by (auto intro!: sh_invI simp: reach_inv_def sh_abs_def)

lemma hash_clear_correct:
  assumes "sh_inv t"
  shows "\<exists>t'. hash_clear t = Some t' \<and> sh_inv t' \<and> sh_abs t' = Map.empty \<and> sh_frame t t' \<and> hsize t' = 0"
  using sh_invD[OF assms] cleared_inv[of t] by (simp add: hash_clear_eq)

text \<open>A table for \<open>n\<close> elements has more than \<open>n\<close> buckets, \<open>n \<ge> 3\<close>.\<close>

lemma load_capacity_bounds:
  assumes "n \<le> 2 ^ 31"
  shows "n + n div 3 \<le> load_capacity n" "load_capacity n < 2 ^ 32"
proof -
  have "load_capacity n = u32 (dbl_trunc (dbl_round (n * 4) 3))"
    using assms by (simp add: load_capacity_def dbl_div_def dbl_of_nat_def)
  moreover have "n + n div 3 \<le> dbl_trunc (dbl_round (n * 4) 3)"
    by (rule dbl_trunc_round_ge) (use assms in auto)
  moreover have "dbl_trunc (dbl_round (n * 4) 3) \<le> n * 4 div 3 + 1"
    by (rule dbl_trunc_round_le) (use assms in auto)
  ultimately show "n + n div 3 \<le> load_capacity n" "load_capacity n < 2 ^ 32"
    using assms by (auto simp: u32_def)
qed

definition tparams_ok :: "('k, 'v) tparams \<Rightarrow> bool" where
  "tparams_ok tp \<longleftrightarrow> 0 < sizeof_key tp \<and> 0 < sizeof_value tp"

lemma fixed_Init_correct:
  assumes "tparams_ok tp" "3 \<le> n" "n \<le> 2 ^ 31"
  shows "\<exists>t. fixed_Init tp n emp h = Some t \<and> sh_inv t \<and> sh_abs t = Map.empty \<and> n < capacity t \<and>
     empty_key t = emp \<and> hasher t = h \<and> tparams t = tp \<and> hsize t = 0"
proof -
  note L = load_capacity_bounds[OF assms(3)]
  have c: "n < load_capacity n" using L(1) assms(2) by linarith
  then have pos: "0 < load_capacity n" by simp
  let ?t = "(hash_new tp emp h)\<lparr>capacity := load_capacity n, initial_capacity := load_capacity n,
     keys := replicate (load_capacity n) (default_key tp), vals := replicate (load_capacity n) (default_value tp),
     bytes_allocated := (sizeof_key tp + sizeof_value tp) * load_capacity n\<rparr>"
  have "fixed_Init tp n emp h = hash_clear ?t"
    using pos assms(1) by (simp add: fixed_Init_def AllocMemory_def hash_new_def Let_def tparams_ok_def)
  then show ?thesis
    using cleared_inv[of ?t] pos c L(2) assms(1) hash_clear_eq[of ?t]
    by (simp add: hash_new_def tparams_ok_def)
qed

section \<open>The fixed-size table implements the contract\<close>

lemma dom_sh_abs_card:
  assumes "sh_inv t"
  shows "card (dom (sh_abs t)) = hsize t"
proof -
  note I = sh_invD[OF assms]
  have "distinct (map fst (entries (empty_key t) (keys t) (vals t)))"
    using I(3,4,6) no_dups_entries[of "keys t" "vals t"] by simp
  then have "card (fst ` set (entries (empty_key t) (keys t) (vals t))) = hsize t"
    using I(8) distinct_card by (metis length_map set_map)
  then show ?thesis by (simp add: sh_abs_def dom_map_of_conv_image_fst)
qed

interpretation fixed: bounded_map "sh_inv :: ('k, 'v) smallhash \<Rightarrow> bool" sh_abs
  "\<lambda>t k. k \<noteq> empty_key t" "\<lambda>t. capacity t - 1" hash_lookup hash_insert hash_erase hash_clear
proof unfold_locales
  fix t :: "('k, 'v) smallhash" and k v
  assume inv: "sh_inv t" and k: "k \<noteq> empty_key t" and room: "sh_abs t k \<noteq> None \<or> card (dom (sh_abs t)) < capacity t - 1"
  from hash_insert_correct[OF inv k] room dom_sh_abs_card[OF inv]
  obtain t' where t': "hash_insert k v t = Some t'" "sh_inv t'" "sh_abs t' = (sh_abs t)(k \<mapsto> v)" "sh_frame t t'"
    by (metis Suc_eq_plus1 less_diff_conv)
  then show "\<exists>t'. hash_insert k v t = Some t' \<and> sh_inv t' \<and> sh_abs t' = (sh_abs t)(k \<mapsto> v) \<and>
      capacity t' - 1 = capacity t - 1 \<and> (\<lambda>k. k \<noteq> empty_key t') = (\<lambda>k. k \<noteq> empty_key t)"
    using sh_frameD[OF t'(4)] by simp
next
  fix t :: "('k, 'v) smallhash" and k
  assume "sh_inv t" "k \<noteq> empty_key t"
  from hash_erase_correct[OF this] show "\<exists>t'. hash_erase k t = Some (sh_abs t k \<noteq> None, t') \<and> sh_inv t' \<and>
      sh_abs t' = (sh_abs t)(k := None) \<and> capacity t' - 1 = capacity t - 1 \<and>
      (\<lambda>k. k \<noteq> empty_key t') = (\<lambda>k. k \<noteq> empty_key t)"
    using sh_frameD(2,5) by metis
next
  fix t :: "('k, 'v) smallhash" assume "sh_inv t"
  from hash_clear_correct[OF this] show "\<exists>t'. hash_clear t = Some t' \<and> sh_inv t' \<and> sh_abs t' = Map.empty \<and>
      capacity t' - 1 = capacity t - 1 \<and> (\<lambda>k. k \<noteq> empty_key t') = (\<lambda>k. k \<noteq> empty_key t)"
    using sh_frameD(2,5) by metis
qed (rule hash_lookup_correct)


section \<open>Properties\<close>

text \<open>A call on the fixed-size table.\<close>

definition hash_exec :: "('k, 'v) map_call \<Rightarrow> ('k, 'v) smallhash \<Rightarrow> ('k, 'v) smallhash option" where
  "hash_exec c t = (case c of Put k v \<Rightarrow> hash_insert k v t | Del k \<Rightarrow> map_option snd (hash_erase k t) | Clr \<Rightarrow> hash_clear t)"

lemma fixed_exec [simp]: "fixed.exec = hash_exec"
  by (simp add: fun_eq_iff fixed.exec_def hash_exec_def)

text \<open>Template parameters for the examples.\<close>

definition demo_params :: "(nat, nat) tparams" where
  "demo_params = \<lparr>sizeof_key = 8, sizeof_value = 8, default_key = 0, default_value = 0\<rparr>"

lemma demo_params_ok: "tparams_ok demo_params"
  by (simp add: tparams_ok_def demo_params_def)

text \<open>
  C7.  \<open>SmallHashFixed\<close> implements a finite map: after \<open>Init\<close> for \<open>n\<close> expected elements, at least three (for fewer the
  computed capacity has no spare bucket) and at most \<open>2 ^ 31\<close>, every sequence of
  \<open>Insert\<close>, \<open>Erase\<close> and \<open>Clear\<close> that never has more than \<open>n\<close> keys present and avoids the reserved empty
  key runs to its end, and then \<open>Lookup\<close> returns for every key what the map built by the same
  updates holds.
\<close>

theorem smallhash_fixed_history:
  assumes "tparams_ok tp" "3 \<le> n" "n \<le> 2 ^ 31" "fits n (\<lambda>k. k \<noteq> emp) cs Map.empty"
  shows "\<exists>t t'. fixed_Init tp n emp h = Some t \<and> fold_opt hash_exec cs t = Some t' \<and>
     (\<forall>k. k \<noteq> emp \<longrightarrow> hash_lookup k t' = Some (fold map_step cs Map.empty k))"
proof -
  obtain t where t: "fixed_Init tp n emp h = Some t" "sh_inv t" "sh_abs t = Map.empty" "n < capacity t" "empty_key t = emp"
    using fixed_Init_correct[OF assms(1-3)] by blast
  have "fits (capacity t - 1) (\<lambda>k. k \<noteq> empty_key t) cs (sh_abs t)"
    using fits_mono[OF assms(4)] t by simp
  from fixed.history_lookup[OF t(2) this] t show ?thesis by auto
qed

theorem smallhash_fixed_history_witness:
  "\<exists>t t'. fixed_Init demo_params 3 0 of_nat = Some t \<and> fold_opt hash_exec [Put 1 10, Put 2 20, Put 6 60, Del 1] t = Some t' \<and>
     hash_lookup 6 t' = Some (Some 60) \<and> hash_lookup 2 t' = Some (Some 20) \<and> hash_lookup 1 t' = Some None"
proof -
  have "fits 3 (\<lambda>k. k \<noteq> 0) [Put 1 10, Put 2 20, Put 6 60, Del 1] (Map.empty :: nat \<rightharpoonup> nat)"
    by (simp add: card_insert_if)
  from smallhash_fixed_history[OF demo_params_ok _ _ this, of of_nat] show ?thesis by fastforce
qed

text \<open>
  C16.  \<open>Erase\<close> with its re-insertion loop: on a table that satisfies the probing invariant it returns
  whether the key was present, removes exactly that key, keeps every other key and its value
  reachable, and gives back the invariant.
\<close>

theorem smallhash_erase:
  assumes "sh_inv t" "k \<noteq> empty_key t"
  shows "\<exists>t'. hash_erase k t = Some (sh_abs t k \<noteq> None, t') \<and> sh_inv t' \<and>
     hash_lookup k t' = Some None \<and>
     (\<forall>k'. k' \<noteq> k \<and> k' \<noteq> empty_key t \<longrightarrow> hash_lookup k' t' = hash_lookup k' t)"
proof -
  obtain t' where t': "hash_erase k t = Some (sh_abs t k \<noteq> None, t')" "sh_inv t'" "sh_abs t' = (sh_abs t)(k := None)"
    "empty_key t' = empty_key t"
    using hash_erase_correct[OF assms] sh_frameD(5) by metis
  then show ?thesis
    using hash_lookup_correct[OF t'(2)] hash_lookup_correct[OF assms(1)] assms(2) by auto
qed

theorem smallhash_erase_witness:
  "\<exists>(t :: (nat, nat) smallhash) t'. sh_inv t \<and> hash_lookup 1 t = Some (Some 10) \<and>
     hash_erase 1 t = Some (True, t') \<and> hash_lookup 1 t' = Some None"
proof -
  obtain t0 :: "(nat, nat) smallhash" where t0: "sh_inv t0" "sh_abs t0 = Map.empty" "3 < capacity t0" "empty_key t0 = 0" "hsize t0 = 0"
    using fixed_Init_correct[OF demo_params_ok, of 3 0 of_nat] by auto
  obtain t where t: "sh_inv t" "sh_abs t = (sh_abs t0)(1 \<mapsto> 10)" "sh_frame t0 t"
    using hash_insert_correct[OF t0(1), of 1 10] t0(3-5) by auto
  have e: "1 \<noteq> empty_key t" using sh_frameD(5)[OF t(3)] t0(4) by simp
  have look: "hash_lookup 1 t = Some (Some 10)" using hash_lookup_correct[OF t(1) e] t(2) by simp
  from smallhash_erase[OF t(1) e] t(2) look t(1) show ?thesis by auto
qed

text \<open>
  C30.  The probing loop of \<open>DoLookup\<close>, in a table of any content, returns exactly if an empty bucket or
  the key itself is somewhere in the table; in a full table the search for an absent key
  never ends.
\<close>

theorem DoLookup_returns_iff:
  assumes "0 < capacity t" "length (keys t) = capacity t"
  shows "DoLookup k t \<noteq> None \<longleftrightarrow> empty_key t \<in> set (keys t) \<or> k \<in> set (keys t)"
  using probe_returns_iff[OF home_less[OF assms(1)] assms(2)[symmetric]] assms(1)
  by (simp add: DoLookup_def ScaleHash_home)

theorem DoLookup_returns_iff_witness:
  "DoLookup 5 ((hash_new demo_params 0 of_nat)\<lparr>capacity := 2, keys := [7, 9]\<rparr>) = None \<and>
   DoLookup 9 ((hash_new demo_params 0 of_nat)\<lparr>capacity := 2, keys := [7, 9]\<rparr>) \<noteq> None"
  using DoLookup_returns_iff[of "(hash_new demo_params 0 of_nat)\<lparr>capacity := 2, keys := [7, 9]\<rparr>" 5]
    DoLookup_returns_iff[of "(hash_new demo_params 0 of_nat)\<lparr>capacity := 2, keys := [7, 9]\<rparr>" 9]
  by (simp add: hash_new_def del: not_None_eq)

end
