(* ===== verification/SmallHashDyn.thy ===== *)
theory SmallHashDyn
  imports SmallHash
begin

text \<open>
  The resizable hash table \<open>SmallHashDynamic\<close> of \<^verbatim>\<open>cvmfs/smallhash.h\<close>, built on the operations of
  the theory \<open>SmallHash\<close>.

  \<open>Insert\<close> may grow the table, which migrates all entries by calling \<open>Insert\<close> again.  The model
  makes the depth of that nesting explicit: \<open>dyn_insert d\<close> allows \<open>d\<close> nested calls and is \<open>None\<close>
  beyond.  Under the invariant \<open>dyn_inv\<close> two levels suffice, so the recursion of the code ends.
  The static random number generator \<open>g_prng\<close> is a field of the record; no result depends on it.
\<close>

section \<open>The code\<close>

record ('k, 'v) smallhash_dyn = "('k, 'v) smallhash" +
  num_migrates :: nat
  threshold_grow :: nat
  threshold_shrink :: nat
  g_prng :: prng

definition SetThresholds :: "('k, 'v) smallhash_dyn \<Rightarrow> ('k, 'v) smallhash_dyn" where
  "SetThresholds t = t\<lparr>
     threshold_grow := u32 (dbl_trunc (dbl_mult (dbl_of_nat (capacity t)) (3, 4))),
     threshold_shrink := u32 (dbl_trunc (dbl_mult (dbl_of_nat (capacity t)) (1, 4)))\<rparr>"

definition shuffle_step :: "nat \<Rightarrow> nat \<Rightarrow> nat list \<times> prng \<Rightarrow> (nat list \<times> prng) option" where
  "shuffle_step N i sp = (case sp of (shuffled, p) \<Rightarrow> (case Next (N - i) p of (r, p') \<Rightarrow> do {
     let swap_idx = u32 (i + r);
     tmp \<leftarrow> array_get shuffled i;
     y \<leftarrow> array_get shuffled swap_idx;
     s1 \<leftarrow> array_set shuffled i y;
     s2 \<leftarrow> array_set s1 swap_idx tmp;
     Some (s2, p')
   }))"

definition ShuffleIndices :: "nat \<Rightarrow> prng \<Rightarrow> (nat list \<times> prng) option" where
  "ShuffleIndices N p = do {
     assert_that (N > 0);
     fold_opt (shuffle_step N) [0..<N - 1] ([0..<N], p)
   }"

type_synonym ('k, 'v) insert_fn = "'k \<Rightarrow> 'v \<Rightarrow> ('k, 'v) smallhash_dyn \<Rightarrow> ('k, 'v) smallhash_dyn option"

text \<open>The copy loops of \<open>Migrate\<close> and \<open>CopyFrom\<close>: one index of the source arrays.\<close>

definition copy_entry ::
  "('k, 'v) insert_fn \<Rightarrow> 'k \<Rightarrow> 'k list \<Rightarrow> 'v list \<Rightarrow> nat \<Rightarrow> ('k, 'v) smallhash_dyn \<Rightarrow> ('k, 'v) smallhash_dyn option" where
  "copy_entry ins emp old_keys old_values i t = do {
     k \<leftarrow> array_get old_keys i;
     if k \<noteq> emp then do { v \<leftarrow> array_get old_values i; ins k v t } else Some t
   }"

definition Migrate :: "('k, 'v) insert_fn \<Rightarrow> nat \<Rightarrow> ('k, 'v) smallhash_dyn \<Rightarrow> ('k, 'v) smallhash_dyn option" where
  "Migrate ins new_capacity t = do {
     let old_keys = keys t;
     let old_values = vals t;
     let old_capacity = capacity t;
     let old_size = hsize t;
     t1 \<leftarrow> AllocMemory (SetThresholds (t\<lparr>capacity := new_capacity\<rparr>));
     t2 \<leftarrow> hash_clear t1;
     t3 \<leftarrow> (if new_capacity < old_capacity then do {
              (shuffled_indices, p) \<leftarrow> ShuffleIndices old_capacity (g_prng t2);
              fold_opt (copy_entry ins (empty_key t) old_keys old_values) shuffled_indices (t2\<lparr>g_prng := p\<rparr>)
            } else fold_opt (copy_entry ins (empty_key t) old_keys old_values) [0..<old_capacity] t2);
     assert_that (hsize t3 = old_size);
     Some (t3\<lparr>num_migrates := u32 (num_migrates t3 + 1)\<rparr>)
   }"

definition Grow :: "('k, 'v) insert_fn \<Rightarrow> ('k, 'v) smallhash_dyn \<Rightarrow> ('k, 'v) smallhash_dyn option" where
  "Grow ins t = (if hsize t > threshold_grow t then Migrate ins (u32 (capacity t * 2)) t else Some t)"

fun dyn_insert :: "nat \<Rightarrow> ('k, 'v) insert_fn" where
  "dyn_insert 0 k v t = None"
| "dyn_insert (Suc d) k v t = do { t1 \<leftarrow> Grow (dyn_insert d) t; hash_insert k v t1 }"

definition Shrink :: "('k, 'v) insert_fn \<Rightarrow> ('k, 'v) smallhash_dyn \<Rightarrow> ('k, 'v) smallhash_dyn option" where
  "Shrink ins t = (if hsize t < threshold_shrink t then
     (let target_capacity = capacity t div 2
      in if target_capacity \<ge> initial_capacity t then Migrate ins target_capacity t else Some t)
     else Some t)"

definition dyn_Insert :: "('k, 'v) insert_fn" where
  "dyn_Insert k v t = dyn_insert 2 k v t"

definition dyn_Erase :: "'k \<Rightarrow> ('k, 'v) smallhash_dyn \<Rightarrow> (bool \<times> ('k, 'v) smallhash_dyn) option" where
  "dyn_Erase k t = do {
     (found, t1) \<leftarrow> hash_erase k t;
     if found then do { t2 \<leftarrow> Shrink dyn_Insert t1; Some (True, t2) } else Some (False, t1)
   }"

definition ResetCapacity :: "('k, 'v) smallhash_dyn \<Rightarrow> ('k, 'v) smallhash_dyn option" where
  "ResetCapacity t = do {
     t1 \<leftarrow> AllocMemory (t\<lparr>capacity := initial_capacity t\<rparr>);
     Some (SetThresholds t1)
   }"

definition dyn_Clear :: "('k, 'v) smallhash_dyn \<Rightarrow> ('k, 'v) smallhash_dyn option" where
  "dyn_Clear t = do { t1 \<leftarrow> ResetCapacity t; hash_clear t1 }"

definition dyn_new :: "('k, 'v) tparams \<Rightarrow> 'k \<Rightarrow> ('k \<Rightarrow> 32 word) \<Rightarrow> prng \<Rightarrow> ('k, 'v) smallhash_dyn" where
  "dyn_new tp emp h p = smallhash.extend (hash_new tp emp h)
     \<lparr>num_migrates = 0, threshold_grow = 0, threshold_shrink = 0, g_prng = p\<rparr>"

definition dyn_Init ::
  "('k, 'v) tparams \<Rightarrow> nat \<Rightarrow> 'k \<Rightarrow> ('k \<Rightarrow> 32 word) \<Rightarrow> prng \<Rightarrow> ('k, 'v) smallhash_dyn option" where
  "dyn_Init tp expected_size emp h p = do {
     let c = load_capacity expected_size;
     t \<leftarrow> AllocMemory (SetThresholds ((dyn_new tp emp h p)\<lparr>capacity := c, initial_capacity := c\<rparr>));
     hash_clear t
   }"

text \<open>\<open>CopyFrom\<close>, which is all that the assignment operator does for two distinct tables.\<close>

definition CopyFrom :: "('k, 'v) smallhash_dyn \<Rightarrow> ('k, 'v) smallhash_dyn \<Rightarrow> ('k, 'v) smallhash_dyn option" where
  "CopyFrom other t = do {
     (shuffled_indices, p) \<leftarrow> ShuffleIndices (capacity other) (g_prng t);
     fold_opt (copy_entry dyn_Insert (empty_key other) (keys other) (vals other)) shuffled_indices (t\<lparr>g_prng := p\<rparr>)
   }"

section \<open>Shuffling is a permutation\<close>

lemma shuffle_step_perm:
  assumes "Suc i < N" "length s = N" "N \<le> 2 ^ 32"
  shows "\<exists>s' p'. shuffle_step N i (s, p) = Some (s', p') \<and> mset s' = mset s"
proof -
  obtain r p' where next': "Next (N - i) p = (r, p')" by fastforce
  have "r < N - i" using Next_less[of "N - i" p] next' assms(1) by simp
  then have j: "i + r < N" "u32 (i + r) = i + r" using assms by (auto intro!: u32_id)
  have "mset (s[i := s ! (i + r), i + r := s ! i]) = mset s"
    by (rule mset_swap) (use j assms in auto)
  then show ?thesis using next' j assms by (simp add: shuffle_step_def Let_def)
qed

lemma ShuffleIndices_perm:
  assumes "0 < N" "N \<le> 2 ^ 32"
  shows "\<exists>s p'. ShuffleIndices N p = Some (s, p') \<and> mset s = mset [0..<N]"
proof -
  let ?P = "\<lambda>_ sp. mset (fst sp) = mset [0..<N]"
  have "\<exists>sp. fold_opt (shuffle_step N) [0..<N - 1] ([0..<N], p) = Some sp \<and> ?P [0..<N - 1] sp"
  proof (rule fold_opt_invariant[of ?P])
    fix ds i rest and sp :: "nat list \<times> prng"
    assume split: "[0..<N - 1] = ds @ i # rest" and P: "mset (fst sp) = mset [0..<N]"
    have "i \<in> set [0..<N - 1]" using split by simp
    then have "Suc i < N" by auto
    moreover have "length (fst sp) = N" using P mset_eq_length by fastforce
    ultimately show "\<exists>sp'. shuffle_step N i sp = Some sp' \<and> mset (fst sp') = mset [0..<N]"
      using shuffle_step_perm[of i N "fst sp" "snd sp"] assms(2) P by auto
  qed simp
  then show ?thesis using assms by (auto simp: ShuffleIndices_def)
qed

section \<open>Invariant\<close>

definition thresholds_ok :: "('k, 'v) smallhash_dyn \<Rightarrow> bool" where
  "thresholds_ok t \<longleftrightarrow> threshold_grow t = 3 * capacity t div 4 \<and> threshold_shrink t = capacity t div 4"

definition dyn_inv :: "('k, 'v) smallhash_dyn \<Rightarrow> bool" where
  "dyn_inv t \<longleftrightarrow> sh_inv t \<and> thresholds_ok t \<and> 5 \<le> initial_capacity t \<and> initial_capacity t \<le> capacity t \<and>
     hsize t \<le> Suc (threshold_grow t) \<and> hsize t \<le> 2 ^ 30"

lemma SetThresholds_eq:
  assumes "capacity t < 2 ^ 32"
  shows "SetThresholds t = t\<lparr>threshold_grow := 3 * capacity t div 4, threshold_shrink := capacity t div 4\<rparr>"
  using assms dbl_trunc_round_quarter[of "capacity t * 3"] dbl_trunc_round_quarter[of "capacity t"]
  by (simp add: SetThresholds_def dbl_mult_def dbl_of_nat_def mult.commute)


definition dyn_frame :: "('k, 'v) smallhash_dyn \<Rightarrow> ('k, 'v) smallhash_dyn \<Rightarrow> bool" where
  "dyn_frame t t' \<longleftrightarrow> tparams t' = tparams t \<and> initial_capacity t' = initial_capacity t \<and>
     hasher t' = hasher t \<and> empty_key t' = empty_key t"

lemma thresholds_ok_frame: "sh_frame t t' \<Longrightarrow> thresholds_ok t' = thresholds_ok t"
  by (cases t; cases t') (simp add: sh_frame_def thresholds_ok_def)

lemma threshold_grow_frame: "sh_frame t t' \<Longrightarrow> threshold_grow t' = threshold_grow t"
  by (cases t; cases t') (simp add: sh_frame_def)

lemma dyn_frame_frame: "sh_frame t t' \<Longrightarrow> dyn_frame t t'"
  by (simp add: sh_frame_def dyn_frame_def)

lemma dyn_frame_trans: "dyn_frame t1 t2 \<Longrightarrow> dyn_frame t2 t3 \<Longrightarrow> dyn_frame t1 t3"
  by (simp add: dyn_frame_def)

lemma dyn_frame_refl [simp]: "dyn_frame t t"
  by (simp add: dyn_frame_def)

lemma home_dyn_upd [simp]: "home (t\<lparr>g_prng := p\<rparr>) = home t" "home (t\<lparr>num_migrates := n\<rparr>) = home t"
  by (simp_all add: fun_eq_iff home_def ScaleHash_def)

lemma dyn_upd_simps [simp]:
  "sh_inv (t\<lparr>g_prng := p\<rparr>) = sh_inv t" "sh_inv (t\<lparr>num_migrates := n\<rparr>) = sh_inv t"
  "sh_abs (t\<lparr>g_prng := p\<rparr>) = sh_abs t" "sh_abs (t\<lparr>num_migrates := n\<rparr>) = sh_abs t"
  "thresholds_ok (t\<lparr>g_prng := p\<rparr>) = thresholds_ok t" "thresholds_ok (t\<lparr>num_migrates := n\<rparr>) = thresholds_ok t"
  "dyn_frame t0 (t\<lparr>g_prng := p\<rparr>) = dyn_frame t0 t" "dyn_frame t0 (t\<lparr>num_migrates := n\<rparr>) = dyn_frame t0 t"
  by (simp_all add: sh_inv_def sh_abs_def thresholds_ok_def dyn_frame_def)

section \<open>Copying entries in any order\<close>

definition picked :: "'k \<Rightarrow> 'k list \<Rightarrow> 'v list \<Rightarrow> nat list \<Rightarrow> ('k \<times> 'v) list" where
  "picked emp ks vs order = filter (\<lambda>p. fst p \<noteq> emp) (map (\<lambda>i. (ks ! i, vs ! i)) order)"

lemma picked_perm:
  assumes "mset order = mset [0..<length ks]" "length vs = length ks"
  shows "mset (picked emp ks vs order) = mset (entries emp ks vs)"
proof -
  have "zip ks vs = map (\<lambda>i. (ks ! i, vs ! i)) [0..<length ks]"
    using assms(2) by (auto intro: nth_equalityI)
  then show ?thesis using assms(1) by (simp add: picked_def entries_def mset_filter)
qed

lemma copy_step_abs:
  assumes "distinct (map fst (es @ (k, v) # fs))"
  shows "map_of (es @ [(k, v)]) = (map_of es)(k \<mapsto> v)"
proof -
  have "map_of es k = None" using assms by (auto simp: map_of_eq_None_iff)
  then show ?thesis by (auto simp: fun_eq_iff map_add_def split: option.split)
qed

lemma copy_loop:
  fixes ins :: "('k, 'v) insert_fn"
  assumes ins: "\<And>k v t'. J t' \<Longrightarrow> k \<noteq> emp \<Longrightarrow> sh_abs t' k = sh_abs t k \<Longrightarrow>
      card (dom (sh_abs t')) < R \<or> sh_abs t' k \<noteq> None \<Longrightarrow>
      \<exists>t''. ins k v t' = Some t'' \<and> J t'' \<and> sh_abs t'' = (sh_abs t')(k \<mapsto> v)"
    and order: "mset order = mset [0..<length ks]" and vs: "length vs = length ks"
    and dups: "no_dups emp ks" and J: "J t"
    and room: "card (dom (sh_abs t ++ map_of (entries emp ks vs))) \<le> R"
  shows "\<exists>t'. fold_opt (copy_entry ins emp ks vs) order t = Some t' \<and> J t' \<and>
     sh_abs t' = sh_abs t ++ map_of (entries emp ks vs)"
proof -
  let ?E = "picked emp ks vs"
  let ?P = "\<lambda>ds t'. J t' \<and> sh_abs t' = sh_abs t ++ map_of (?E ds)"
  have d: "distinct (map fst (?E order))" and all: "map_of (?E order) = map_of (entries emp ks vs)"
    using map_of_mset_eq[OF picked_perm[OF order vs, symmetric]] dups no_dups_entries[of ks vs emp] vs by auto
  have "\<exists>t'. fold_opt (copy_entry ins emp ks vs) order t = Some t' \<and> ?P order t'"
  proof (rule fold_opt_invariant[of ?P])
    fix ds i rest t' assume split: "order = ds @ i # rest" and P: "?P ds t'"
    have "i \<in> set [0..<length ks]" using mset_eq_setD[OF order] split by auto
    then have i: "i < length ks" by simp
    show "\<exists>t''. copy_entry ins emp ks vs i t' = Some t'' \<and> ?P (ds @ [i]) t''"
    proof (cases "ks ! i = emp")
      case True
      then show ?thesis using P i by (simp add: copy_entry_def picked_def)
    next
      case False
      have E: "?E order = ?E ds @ (ks ! i, vs ! i) # ?E rest" "?E (ds @ [i]) = ?E ds @ [(ks ! i, vs ! i)]"
        using False split by (simp_all add: picked_def)
      have step: "map_of (?E (ds @ [i])) = (map_of (?E ds))(ks ! i \<mapsto> vs ! i)"
        using copy_step_abs[of "?E ds" "ks ! i" "vs ! i" "?E rest"] d E by simp
      have sub: "insert (ks ! i) (dom (sh_abs t')) \<subseteq> dom (sh_abs t ++ map_of (?E order))"
        using P E(1) by (auto simp: dom_map_of_conv_image_fst)
      have fin: "finite (dom (sh_abs t ++ map_of (?E order)))" by (simp add: sh_abs_def finite_dom_map_of)
      have "card (dom (sh_abs t')) < R \<or> sh_abs t' (ks ! i) \<noteq> None"
        using card_mono[OF fin sub] room all by (cases "ks ! i \<in> dom (sh_abs t')") (auto simp: sh_abs_def finite_dom_map_of)
      moreover have "map_of (?E ds) (ks ! i) = None" using d E(1) by (auto simp: map_of_eq_None_iff)
      then have "sh_abs t' (ks ! i) = sh_abs t (ks ! i)" using P by (simp add: map_add_def)
      ultimately obtain t'' where "ins (ks ! i) (vs ! i) t' = Some t''" "J t''" "sh_abs t'' = (sh_abs t')(ks ! i \<mapsto> vs ! i)"
        using ins[OF conjunct1[OF P] False, of "vs ! i"] by blast
      then show ?thesis using P i vs False step by (simp add: copy_entry_def)
    qed
  qed (use J in \<open>simp add: picked_def\<close>)
  then show ?thesis using all by simp
qed


section \<open>Migration\<close>

lemma dyn_insert_no_grow:
  "hsize t \<le> threshold_grow t \<Longrightarrow> dyn_insert (Suc d) k v t = hash_insert k v t"
  by (simp add: Grow_def)

text \<open>The table that the copy loop of \<open>Migrate\<close> starts from.\<close>

definition migrate_target :: "nat \<Rightarrow> ('k, 'v) smallhash_dyn \<Rightarrow> ('k, 'v) smallhash_dyn" where
  "migrate_target nc t = t\<lparr>capacity := nc, threshold_grow := 3 * nc div 4, threshold_shrink := nc div 4,
     keys := replicate nc (empty_key t), vals := replicate nc (default_value (tparams t)),
     bytes_allocated := (sizeof_key (tparams t) + sizeof_value (tparams t)) * nc, hsize := 0\<rparr>"

lemma migrate_alloc:
  assumes "0 < nc" "nc < 2 ^ 32" "0 < sizeof_key (tparams t)" "0 < sizeof_value (tparams t)"
  shows "Option.bind (AllocMemory (SetThresholds (t\<lparr>capacity := nc\<rparr>))) hash_clear = Some (migrate_target nc t)"
  using assms by (simp add: SetThresholds_eq AllocMemory_def hash_clear_eq migrate_target_def)

lemma migrate_target_inv:
  assumes "0 < nc" "nc < 2 ^ 32" "0 < sizeof_key (tparams t)" "0 < sizeof_value (tparams t)"
  shows "sh_inv (migrate_target nc t)" "sh_abs (migrate_target nc t) = Map.empty"
    "thresholds_ok (migrate_target nc t)" "capacity (migrate_target nc t) = nc" "hsize (migrate_target nc t) = 0"
    "dyn_frame t (migrate_target nc t)"
  using assms by (auto intro!: sh_invI simp: reach_inv_def sh_abs_def migrate_target_def thresholds_ok_def dyn_frame_def)

text \<open>The part of the state that the copy loop keeps.\<close>

definition migrating :: "nat \<Rightarrow> ('k, 'v) smallhash_dyn \<Rightarrow> ('k, 'v) smallhash_dyn \<Rightarrow> bool" where
  "migrating nc t t' \<longleftrightarrow> sh_inv t' \<and> capacity t' = nc \<and> thresholds_ok t' \<and> dyn_frame t t'"

lemma migrating_insert:
  assumes "5 \<le> nc" "migrating nc t t1" "k \<noteq> empty_key t" "card (dom (sh_abs t1)) < Suc (3 * nc div 4)"
  shows "\<exists>t2. dyn_insert (Suc d) k v t1 = Some t2 \<and> migrating nc t t2 \<and> sh_abs t2 = (sh_abs t1)(k \<mapsto> v)"
proof -
  have I: "sh_inv t1" "capacity t1 = nc" "threshold_grow t1 = 3 * nc div 4" "empty_key t1 = empty_key t"
    using assms(2) by (auto simp: migrating_def thresholds_ok_def dyn_frame_def)
  have size: "hsize t1 \<le> 3 * nc div 4" using assms(4) dom_sh_abs_card[OF I(1)] by simp
  then have "dyn_insert (Suc d) k v t1 = hash_insert k v t1"
    using I(3) by (simp add: dyn_insert_no_grow del: dyn_insert.simps)
  moreover have "Suc (hsize t1) < capacity t1" using assms(1) size I(2) by linarith
  ultimately obtain t2 where t2: "dyn_insert (Suc d) k v t1 = Some t2" "sh_inv t2"
      "sh_abs t2 = (sh_abs t1)(k \<mapsto> v)" "sh_frame t1 t2"
    using hash_insert_correct[OF I(1), of k v] I(4) assms(3) by auto
  then have "migrating nc t t2"
    using assms(2) thresholds_ok_frame[OF t2(4)] dyn_frame_frame[OF t2(4)] sh_frameD(2)[OF t2(4)]
    by (auto simp: migrating_def intro: dyn_frame_trans)
  with t2 show ?thesis by blast
qed

lemma migrate_loop:
  assumes inv: "sh_inv t" and nc: "5 \<le> nc" and size: "hsize t \<le> Suc (3 * nc div 4)"
    and order: "mset order = mset [0..<capacity t]"
    and t1: "migrating nc t t1" "sh_abs t1 = Map.empty"
  shows "\<exists>t'. fold_opt (copy_entry (dyn_insert (Suc d)) (empty_key t) (keys t) (vals t)) order t1 = Some t' \<and>
     migrating nc t t' \<and> sh_abs t' = sh_abs t"
proof -
  note I = sh_invD[OF inv]
  have "\<exists>t'. fold_opt (copy_entry (dyn_insert (Suc d)) (empty_key t) (keys t) (vals t)) order t1 = Some t' \<and>
     migrating nc t t' \<and> sh_abs t' = sh_abs t1 ++ map_of (entries (empty_key t) (keys t) (vals t))"
  proof (rule copy_loop[where R = "hsize t"])
    show "card (dom (sh_abs t1 ++ map_of (entries (empty_key t) (keys t) (vals t)))) \<le> hsize t"
      using dom_sh_abs_card[OF inv] t1(2) by (simp add: sh_abs_def)
  next
    fix k v t' assume "migrating nc t t'" "k \<noteq> empty_key t" "sh_abs t' k = sh_abs t1 k"
      "card (dom (sh_abs t')) < hsize t \<or> sh_abs t' k \<noteq> None"
    then show "\<exists>t''. dyn_insert (Suc d) k v t' = Some t'' \<and> migrating nc t t'' \<and> sh_abs t'' = (sh_abs t')(k \<mapsto> v)"
      using size t1(2) by (intro migrating_insert[OF nc]) auto
  qed (use I order t1 in simp_all)
  then show ?thesis using t1(2) by (auto simp: sh_abs_def)
qed

lemma Migrate_correct:
  assumes inv: "sh_inv t" and nc: "5 \<le> nc" "nc < 2 ^ 32" and size: "hsize t \<le> Suc (3 * nc div 4)"
  shows "\<exists>t'. Migrate (dyn_insert (Suc d)) nc t = Some t' \<and> migrating nc t t' \<and> sh_abs t' = sh_abs t \<and>
     hsize t' = hsize t"
proof -
  note I = sh_invD[OF inv]
  let ?loop = "\<lambda>order. fold_opt (copy_entry (dyn_insert (Suc d)) (empty_key t) (keys t) (vals t)) order"
  let ?m = "migrate_target nc t"
  note M = migrate_target_inv[of nc t]
  have start: "migrating nc t (?m\<lparr>g_prng := p\<rparr>)" "sh_abs (?m\<lparr>g_prng := p\<rparr>) = Map.empty" for p
    using M nc I(9,10) by (auto simp: migrating_def)
  have whole: "Option.bind (AllocMemory (SetThresholds (t\<lparr>capacity := nc\<rparr>))) hash_clear = Some ?m"
    by (rule migrate_alloc) (use nc I in auto)
  obtain p order where order: "mset order = mset [0..<capacity t]"
    and run: "(if nc < capacity t then do { (is, p) \<leftarrow> ShuffleIndices (capacity t) (g_prng ?m); ?loop is (?m\<lparr>g_prng := p\<rparr>) }
       else ?loop [0..<capacity t] ?m) = ?loop order (?m\<lparr>g_prng := p\<rparr>)"
  proof (cases "nc < capacity t")
    case True
    then show thesis using ShuffleIndices_perm[OF I(1), of "g_prng ?m"] I(2) that by fastforce
  next
    case False
    then show thesis using that[of "[0..<capacity t]" "g_prng ?m"] by simp
  qed
  obtain t3 where t3: "?loop order (?m\<lparr>g_prng := p\<rparr>) = Some t3" "migrating nc t t3" "sh_abs t3 = sh_abs t"
    using migrate_loop[OF inv nc(1) size order start] by blast
  have "hsize t3 = hsize t"
    using t3 dom_sh_abs_card[OF inv] dom_sh_abs_card[of t3] by (simp add: migrating_def)
  moreover have "Migrate (dyn_insert (Suc d)) nc t = (do {
     t3 \<leftarrow> ?loop order (?m\<lparr>g_prng := p\<rparr>); assert_that (hsize t3 = hsize t);
     Some (t3\<lparr>num_migrates := u32 (num_migrates t3 + 1)\<rparr>) })"
    using whole run unfolding Migrate_def Let_def by (cases "AllocMemory (SetThresholds (t\<lparr>capacity := nc\<rparr>))") simp_all
  moreover have "migrating nc t (t3\<lparr>num_migrates := x\<rparr>)" "sh_abs (t3\<lparr>num_migrates := x\<rparr>) = sh_abs t" for x
    using t3(2,3) by (auto simp: migrating_def)
  ultimately show ?thesis using t3(1) by simp
qed


section \<open>The operations\<close>

lemma dyn_invD:
  assumes "dyn_inv t"
  shows "sh_inv t" "thresholds_ok t" "5 \<le> initial_capacity t" "initial_capacity t \<le> capacity t"
    "hsize t \<le> Suc (threshold_grow t)" "hsize t \<le> 2 ^ 30" "threshold_grow t = 3 * capacity t div 4"
    "threshold_shrink t = capacity t div 4" "capacity t < 2 ^ 32"
  using assms sh_invD(2)[of t] by (auto simp: dyn_inv_def thresholds_ok_def)

lemma migrating_dyn_inv:
  assumes "dyn_inv t" "migrating nc t t'" "hsize t' = hsize t" "initial_capacity t \<le> nc" "hsize t \<le> Suc (3 * nc div 4)"
  shows "dyn_inv t'"
  using assms dyn_invD[OF assms(1)] by (auto simp: dyn_inv_def migrating_def thresholds_ok_def dyn_frame_def)

lemma Grow_correct:
  assumes inv: "dyn_inv t"
  shows "\<exists>t'. Grow (dyn_insert (Suc d)) t = Some t' \<and> dyn_inv t' \<and> sh_abs t' = sh_abs t \<and> dyn_frame t t' \<and>
     hsize t' = hsize t \<and> hsize t' \<le> threshold_grow t'"
proof (cases "hsize t > threshold_grow t")
  case True
  note I = dyn_invD[OF inv]
  let ?nc = "u32 (capacity t * 2)"
  have "capacity t < 2 ^ 31" using I(6,7) True by (simp; linarith)
  then have nc: "?nc = capacity t * 2" "?nc < 2 ^ 32" by (auto simp: u32_def)
  have size: "hsize t \<le> 3 * ?nc div 4" using I(3-5,7) nc(1) by linarith
  obtain t' where t': "Migrate (dyn_insert (Suc d)) ?nc t = Some t'" "migrating ?nc t t'" "sh_abs t' = sh_abs t" "hsize t' = hsize t"
    using Migrate_correct[OF I(1) _ nc(2)] size I(3,4) nc(1) by fastforce
  moreover have "dyn_inv t'" by (rule migrating_dyn_inv[OF inv t'(2,4)]) (use I(3,4) nc(1) size in auto)
  ultimately show ?thesis using True size by (auto simp: Grow_def migrating_def thresholds_ok_def)
qed (use inv in \<open>simp add: Grow_def\<close>)

lemma Shrink_correct:
  assumes inv: "dyn_inv t"
  shows "\<exists>t'. Shrink (dyn_insert (Suc d)) t = Some t' \<and> dyn_inv t' \<and> sh_abs t' = sh_abs t \<and> dyn_frame t t'"
proof (cases "hsize t < threshold_shrink t \<and> initial_capacity t \<le> capacity t div 2")
  case True
  note I = dyn_invD[OF inv]
  let ?nc = "capacity t div 2"
  have nc: "5 \<le> ?nc" "?nc < 2 ^ 32" using True I(3,9) by auto
  have size: "hsize t \<le> Suc (3 * ?nc div 4)" using True I(8) by linarith
  obtain t' where t': "Migrate (dyn_insert (Suc d)) ?nc t = Some t'" "migrating ?nc t t'" "sh_abs t' = sh_abs t" "hsize t' = hsize t"
    using Migrate_correct[OF I(1) nc size] by blast
  moreover have "dyn_inv t'" by (rule migrating_dyn_inv[OF inv t'(2,4)]) (use True size in auto)
  ultimately show ?thesis using True by (auto simp: Shrink_def migrating_def)
qed (use inv in \<open>auto simp: Shrink_def\<close>)

lemma dyn_Insert_eq: "dyn_Insert = dyn_insert (Suc 1)"
  by (intro ext) (simp only: dyn_Insert_def One_nat_def numeral_2_eq_2)

lemma dyn_Insert_correct:
  assumes inv: "dyn_inv t" and k: "k \<noteq> empty_key t" and room: "sh_abs t k \<noteq> None \<or> card (dom (sh_abs t)) < 2 ^ 30"
  shows "\<exists>t'. dyn_Insert k v t = Some t' \<and> dyn_inv t' \<and> sh_abs t' = (sh_abs t)(k \<mapsto> v) \<and> dyn_frame t t'"
proof -
  obtain t1 where t1: "Grow (dyn_insert (Suc 0)) t = Some t1" "dyn_inv t1" "sh_abs t1 = sh_abs t" "dyn_frame t t1"
      "hsize t1 \<le> threshold_grow t1"
    using Grow_correct[OF inv] by blast
  note I = dyn_invD[OF t1(2)]
  have "Suc (hsize t1) < capacity t1" using t1(5) I(3,4,7) by linarith
  moreover have k1: "k \<noteq> empty_key t1" using k t1(4) by (simp add: dyn_frame_def)
  ultimately obtain t2 where t2: "hash_insert k v t1 = Some t2" "sh_inv t2" "sh_abs t2 = (sh_abs t1)(k \<mapsto> v)"
      "sh_frame t1 t2" "hsize t2 = (if sh_abs t1 k = None then Suc (hsize t1) else hsize t1)"
    using hash_insert_correct[OF I(1) k1, of v] by auto
  have F: "thresholds_ok t2" "threshold_grow t2 = threshold_grow t1"
    using thresholds_ok_frame[OF t2(4)] threshold_grow_frame[OF t2(4)] I(2) by auto
  have "hsize t2 \<le> 2 ^ 30" using t2(5) I(6) room t1(3) dom_sh_abs_card[OF I(1)] by auto
  then have "dyn_inv t2"
    using t2 F I t1(5) sh_frameD(2,3)[OF t2(4)] unfolding dyn_inv_def by auto
  then show ?thesis
    using t1 t2 dyn_frame_trans[OF t1(4) dyn_frame_frame[OF t2(4)]] by (simp add: dyn_Insert_def numeral_2_eq_2)
qed

lemma dyn_Erase_correct:
  assumes inv: "dyn_inv t" and k: "k \<noteq> empty_key t"
  shows "\<exists>t'. dyn_Erase k t = Some (sh_abs t k \<noteq> None, t') \<and> dyn_inv t' \<and> sh_abs t' = (sh_abs t)(k := None) \<and> dyn_frame t t'"
proof -
  note I = dyn_invD[OF inv]
  obtain t1 where t1: "hash_erase k t = Some (sh_abs t k \<noteq> None, t1)" "sh_inv t1" "sh_abs t1 = (sh_abs t)(k := None)"
      "sh_frame t t1" "hsize t1 = (if sh_abs t k = None then hsize t else hsize t - 1)"
    using hash_erase_correct[OF I(1) k] by blast
  have "dyn_inv t1"
    using t1 thresholds_ok_frame[OF t1(4)] threshold_grow_frame[OF t1(4)] I sh_frameD(2,3)[OF t1(4)]
    unfolding dyn_inv_def by auto
  moreover from Shrink_correct[OF this, of 1] obtain t2 where "Shrink dyn_Insert t1 = Some t2" "dyn_inv t2"
      "sh_abs t2 = sh_abs t1" "dyn_frame t1 t2"
    unfolding dyn_Insert_eq by blast
  ultimately show ?thesis
    using t1 dyn_frame_frame[OF t1(4)] by (auto simp: dyn_Erase_def intro: dyn_frame_trans)
qed

lemma dyn_start:
  assumes "5 \<le> initial_capacity t" "initial_capacity t < 2 ^ 32" "0 < sizeof_key (tparams t)" "0 < sizeof_value (tparams t)"
  shows "dyn_inv (migrate_target (initial_capacity t) t)"
  using migrate_target_inv[of "initial_capacity t" t] assms by (auto simp: dyn_inv_def dyn_frame_def)

lemma dyn_Clear_correct:
  assumes inv: "dyn_inv t"
  shows "\<exists>t'. dyn_Clear t = Some t' \<and> dyn_inv t' \<and> sh_abs t' = Map.empty \<and> dyn_frame t t'"
proof -
  note I = dyn_invD[OF inv] and J = sh_invD[OF dyn_invD(1)[OF inv]]
  have "dyn_Clear t = Some (migrate_target (initial_capacity t) t)"
    using I(3,4,9) J(9,10)
    by (simp add: dyn_Clear_def ResetCapacity_def AllocMemory_def SetThresholds_eq hash_clear_eq migrate_target_def)
  then show ?thesis
    using dyn_start[of t] migrate_target_inv[of "initial_capacity t" t] I(3,4,9) J(9,10) by auto
qed

lemma dyn_Init_eq:
  assumes "tparams_ok tp" "0 < load_capacity n" "load_capacity n < 2 ^ 32"
  shows "dyn_Init tp n emp h p =
     Some (migrate_target (load_capacity n) ((dyn_new tp emp h p)\<lparr>initial_capacity := load_capacity n\<rparr>))"
proof -
  let ?c = "load_capacity n"
  let ?t = "(dyn_new tp emp h p)\<lparr>initial_capacity := ?c\<rparr>"
  have eq: "(dyn_new tp emp h p)\<lparr>capacity := ?c, initial_capacity := ?c\<rparr> = ?t\<lparr>capacity := ?c\<rparr>"
    "tparams ?t = tp"
    by (simp_all add: dyn_new_def hash_new_def smallhash.defs)
  show ?thesis
    using migrate_alloc[of ?c ?t] assms unfolding dyn_Init_def Let_def tparams_ok_def eq by simp
qed

lemma dyn_Init_correct:
  assumes "tparams_ok tp" "4 \<le> n" "n \<le> 2 ^ 31"
  shows "\<exists>t. dyn_Init tp n emp h p = Some t \<and> dyn_inv t \<and> sh_abs t = Map.empty \<and> empty_key t = emp"
proof -
  note L = load_capacity_bounds[OF assms(3)]
  let ?c = "load_capacity n"
  let ?t = "(dyn_new tp emp h p)\<lparr>initial_capacity := ?c\<rparr>"
  have c: "5 \<le> ?c" using L(1) assms(2) by linarith
  have tp: "tparams ?t = tp" "empty_key ?t = emp" "initial_capacity ?t = ?c"
    by (simp_all add: dyn_new_def hash_new_def smallhash.defs)
  show ?thesis
    using dyn_Init_eq[OF assms(1) _ L(2)] dyn_start[of ?t] migrate_target_inv[of ?c ?t] c L(2) assms(1) tp
    by (auto simp: tparams_ok_def dyn_frame_def)
qed

interpretation dyn: bounded_map dyn_inv sh_abs "\<lambda>t k. k \<noteq> empty_key t" "\<lambda>t. 2 ^ 30" hash_lookup dyn_Insert dyn_Erase dyn_Clear
proof unfold_locales
  fix t :: "('k, 'v) smallhash_dyn" and k v
  assume "dyn_inv t" "k \<noteq> empty_key t" "sh_abs t k \<noteq> None \<or> card (dom (sh_abs t)) < 2 ^ 30"
  from dyn_Insert_correct[OF this] show "\<exists>t'. dyn_Insert k v t = Some t' \<and> dyn_inv t' \<and> sh_abs t' = (sh_abs t)(k \<mapsto> v) \<and>
      2 ^ 30 = (2 ^ 30 :: nat) \<and> (\<lambda>k. k \<noteq> empty_key t') = (\<lambda>k. k \<noteq> empty_key t)"
    by (fastforce simp: dyn_frame_def)
next
  fix t :: "('k, 'v) smallhash_dyn" and k
  assume "dyn_inv t" "k \<noteq> empty_key t"
  from dyn_Erase_correct[OF this] show "\<exists>t'. dyn_Erase k t = Some (sh_abs t k \<noteq> None, t') \<and> dyn_inv t' \<and>
      sh_abs t' = (sh_abs t)(k := None) \<and> 2 ^ 30 = (2 ^ 30 :: nat) \<and> (\<lambda>k. k \<noteq> empty_key t') = (\<lambda>k. k \<noteq> empty_key t)"
    by (fastforce simp: dyn_frame_def)
next
  fix t :: "('k, 'v) smallhash_dyn" assume "dyn_inv t"
  from dyn_Clear_correct[OF this] show "\<exists>t'. dyn_Clear t = Some t' \<and> dyn_inv t' \<and> sh_abs t' = Map.empty \<and>
      2 ^ 30 = (2 ^ 30 :: nat) \<and> (\<lambda>k. k \<noteq> empty_key t') = (\<lambda>k. k \<noteq> empty_key t)"
    by (fastforce simp: dyn_frame_def)
qed (simp add: hash_lookup_correct dyn_invD(1))


section \<open>Properties\<close>

definition dyn_exec :: "('k, 'v) map_call \<Rightarrow> ('k, 'v) smallhash_dyn \<Rightarrow> ('k, 'v) smallhash_dyn option" where
  "dyn_exec c t = (case c of Put k v \<Rightarrow> dyn_Insert k v t | Del k \<Rightarrow> map_option snd (dyn_Erase k t) | Clr \<Rightarrow> dyn_Clear t)"

lemma dyn_exec_eq [simp]: "dyn.exec = dyn_exec"
  by (simp add: fun_eq_iff dyn.exec_def dyn_exec_def)

text \<open>
  C6.  \<open>SmallHashDynamic\<close> implements a finite map across all growing and shrinking: after \<open>Init\<close> with an
  expected size of at least four, every sequence of \<open>Insert\<close>, \<open>Erase\<close> and \<open>Clear\<close> with at most
  $2^{30}$ keys present runs to its end (all probing loops and all nested migrations end, the
  assertion in \<open>Migrate\<close> holds), and \<open>Lookup\<close> then agrees with the map built by the same updates,
  whatever the hash function and the state of the random number generator.
\<close>

theorem smallhash_dynamic_history:
  assumes "tparams_ok tp" "4 \<le> n" "n \<le> 2 ^ 31" "fits (2 ^ 30) (\<lambda>k. k \<noteq> emp) cs Map.empty"
  shows "\<exists>t t'. dyn_Init tp n emp h p = Some t \<and> fold_opt dyn_exec cs t = Some t' \<and>
     (\<forall>k. k \<noteq> emp \<longrightarrow> hash_lookup k t' = Some (fold map_step cs Map.empty k))"
proof -
  obtain t where t: "dyn_Init tp n emp h p = Some t" "dyn_inv t" "sh_abs t = Map.empty" "empty_key t = emp"
    using dyn_Init_correct[OF assms(1-3)] by blast
  then have "fits (2 ^ 30) (\<lambda>k. k \<noteq> empty_key t) cs (sh_abs t)" using assms(4) by simp
  from dyn.history_lookup[OF t(2) this] t show ?thesis by auto
qed

theorem smallhash_dynamic_history_witness:
  "\<exists>t t'. dyn_Init demo_params 4 0 of_nat Prng_new = Some t \<and>
     fold_opt dyn_exec [Put 1 10, Put 2 20, Put 3 30, Put 4 40, Put 5 50, Put 6 60, Del 3] t = Some t' \<and>
     hash_lookup 6 t' = Some (Some 60) \<and> hash_lookup 1 t' = Some (Some 10) \<and> hash_lookup 3 t' = Some None"
proof -
  have "fits (2 ^ 30) (\<lambda>k. k \<noteq> 0) [Put 1 10, Put 2 20, Put 3 30, Put 4 40, Put 5 50, Put 6 60, Del 3]
      (Map.empty :: nat \<rightharpoonup> nat)"
    by (simp add: card_insert_if)
  from smallhash_dynamic_history[OF demo_params_ok _ _ this, of 4 of_nat Prng_new] show ?thesis by fastforce
qed

text \<open>
  C31.  \<open>CopyFrom\<close>, that is the assignment operator between two tables with the same empty key, copies in a
  random order and yields the union in which the entries of the source take precedence: keys that
  only the target had are kept.  It is a copy exactly if the target's keys are all in the source.
\<close>

theorem CopyFrom_merges:
  assumes "dyn_inv t" "dyn_inv other" "empty_key other = empty_key t"
    "card (dom (sh_abs t ++ sh_abs other)) \<le> 2 ^ 30"
  shows "\<exists>t'. CopyFrom other t = Some t' \<and> dyn_inv t' \<and> sh_abs t' = sh_abs t ++ sh_abs other \<and>
     (sh_abs t' = sh_abs other \<longleftrightarrow> dom (sh_abs t) \<subseteq> dom (sh_abs other))"
proof -
  note I = sh_invD[OF dyn_invD(1)[OF assms(2)]]
  let ?J = "\<lambda>t'. dyn_inv t' \<and> empty_key t' = empty_key t"
  obtain s p where s: "ShuffleIndices (capacity other) (g_prng t) = Some (s, p)" "mset s = mset [0..<capacity other]"
    using ShuffleIndices_perm[of "capacity other" "g_prng t"] I(1,2) by auto
  have "\<exists>t'. fold_opt (copy_entry dyn_Insert (empty_key other) (keys other) (vals other)) s (t\<lparr>g_prng := p\<rparr>) = Some t' \<and>
      ?J t' \<and> sh_abs t' = sh_abs (t\<lparr>g_prng := p\<rparr>) ++ map_of (entries (empty_key other) (keys other) (vals other))"
  proof (rule copy_loop[where R = "2 ^ 30"])
    fix k v t' assume "?J t'" "k \<noteq> empty_key other" "card (dom (sh_abs t')) < 2 ^ 30 \<or> sh_abs t' k \<noteq> None"
    then show "\<exists>t''. dyn_Insert k v t' = Some t'' \<and> ?J t'' \<and> sh_abs t'' = (sh_abs t')(k \<mapsto> v)"
      using dyn_Insert_correct[of t' k v] assms(3) by (auto simp: dyn_frame_def)
  next
    show "?J (t\<lparr>g_prng := p\<rparr>)" using assms(1) by (simp add: dyn_inv_def)
  qed (use I s assms(4) in \<open>simp_all add: sh_abs_def\<close>)
  moreover have "sh_abs t ++ sh_abs other = sh_abs other \<longleftrightarrow> dom (sh_abs t) \<subseteq> dom (sh_abs other)"
    by (auto simp: fun_eq_iff map_add_def dom_def subset_iff split: option.split)
  moreover have "map_of (entries (empty_key other) (keys other) (vals other)) = sh_abs other" by (simp add: sh_abs_def)
  ultimately obtain t' where "CopyFrom other t = Some t'" "dyn_inv t'" "sh_abs t' = sh_abs t ++ sh_abs other"
    "sh_abs t ++ sh_abs other = sh_abs other \<longleftrightarrow> dom (sh_abs t) \<subseteq> dom (sh_abs other)"
    using s(1) by (auto simp: CopyFrom_def)
  then show ?thesis by metis
qed

theorem CopyFrom_merges_witness:
  "\<exists>(t :: (nat, nat) smallhash_dyn) other t'. sh_abs t = [1 \<mapsto> 10] \<and> sh_abs other = [2 \<mapsto> 20] \<and>
     CopyFrom other t = Some t' \<and> sh_abs t' = [1 \<mapsto> 10, 2 \<mapsto> 20]"
proof -
  obtain t0 :: "(nat, nat) smallhash_dyn" where t0: "dyn_inv t0" "sh_abs t0 = Map.empty" "empty_key t0 = 0"
    using dyn_Init_correct[OF demo_params_ok, of 4 0 of_nat Prng_new] by auto
  obtain t :: "(nat, nat) smallhash_dyn" where t: "dyn_inv t" "sh_abs t = [1 \<mapsto> 10]" "empty_key t = 0"
    using dyn_Insert_correct[OF t0(1), of 1 10] t0(2,3) by (auto simp: dyn_frame_def)
  obtain u :: "(nat, nat) smallhash_dyn" where u: "dyn_inv u" "sh_abs u = [2 \<mapsto> 20]" "empty_key u = 0"
    using dyn_Insert_correct[OF t0(1), of 2 20] t0(2,3) by (auto simp: dyn_frame_def)
  have "card (dom (sh_abs t ++ sh_abs u)) \<le> 2 ^ 30" using t(2) u(2) by (simp add: card_insert_if)
  from CopyFrom_merges[OF t(1) u(1) _ this] t(3) u(3)
  obtain t' where "CopyFrom u t = Some t'" "sh_abs t' = sh_abs t ++ sh_abs u" by auto
  then show ?thesis using t(2) u(2) by (intro exI[of _ t] exI[of _ u] exI[of _ t']) simp
qed

lemma full_after_store:
  assumes "b < length xs" "xs ! b = e" "k \<noteq> e" "Suc (length (filter (\<lambda>x. x \<noteq> e) xs)) = length xs"
  shows "e \<notin> set (xs[b := k])"
proof -
  have "count (mset xs) e = length (filter (\<lambda>x. x = e) xs)"
    by (induction xs) auto
  then have "count (mset xs) e = 1"
    using assms(4) sum_length_filter_compl[of "\<lambda>x. x = e" xs] by simp
  then have "count (mset (xs[b := k])) e = 0" using assms(1-3) by (simp add: mset_update)
  then show ?thesis by (simp add: count_eq_zero_iff)
qed

text \<open>Tables of capacity four, before they are full.\<close>

definition small_table :: "('k, 'v) smallhash_dyn \<Rightarrow> ('k \<rightharpoonup> 'v) \<Rightarrow> bool" where
  "small_table t m \<longleftrightarrow> sh_inv t \<and> thresholds_ok t \<and> capacity t = 4 \<and> sh_abs t = m"

lemma small_table_insert:
  assumes "small_table t m" "k \<noteq> empty_key t" "card (dom m) < 3"
  shows "\<exists>t'. dyn_Insert k v t = Some t' \<and> small_table t' (m(k \<mapsto> v)) \<and> empty_key t' = empty_key t"
proof -
  have S: "sh_inv t" "thresholds_ok t" "capacity t = 4" "sh_abs t = m" using assms(1) by (auto simp: small_table_def)
  have size: "hsize t < 3" using dom_sh_abs_card[OF S(1)] S(4) assms(3) by simp
  have run: "dyn_Insert k v t = hash_insert k v t"
    unfolding dyn_Insert_eq by (rule dyn_insert_no_grow) (use S(2,3) size in \<open>simp add: thresholds_ok_def\<close>)
  obtain t' where t': "hash_insert k v t = Some t'" "sh_inv t'" "sh_abs t' = (sh_abs t)(k \<mapsto> v)" "sh_frame t t'"
    using hash_insert_correct[OF S(1) assms(2), of v] size S(3) by auto
  then show ?thesis
    using run S sh_frameD(2,5)[OF t'(4)] thresholds_ok_frame[OF t'(4)] by (auto simp: small_table_def)
qed

text \<open>
  C36.  An expected size of at least four is needed for the dynamic table.  A dynamic table of capacity four, which is what
  \<open>Init\<close> allocates for an expected size of three, takes a fourth key without growing; it is then
  full, and the lookup of any key that is not in it never returns.
\<close>

theorem small_dynamic_table_diverges:
  assumes "sh_inv t" "thresholds_ok t" "capacity t = 4" "hsize t = 3" "k \<noteq> empty_key t" "sh_abs t k = None"
  shows "\<exists>t'. dyn_Insert k v t = Some t' \<and> hsize t' = capacity t' \<and>
     (\<forall>k'. k' \<noteq> empty_key t \<and> k' \<noteq> k \<and> sh_abs t k' = None \<longrightarrow> hash_lookup k' t' = None)"
proof -
  note I = sh_invD[OF assms(1)]
  obtain b t' where b: "DoInsert k v True t = Some (False, t')" "b < capacity t" "keys t' = (keys t)[b := k]"
      "keys t ! b = empty_key t" "sh_frame t t'" "hsize t' = hsize t"
    by (rule DoInsert_correct[OF assms(1,5), of v True]) (simp add: assms(6))
  let ?t = "t'\<lparr>hsize := 4\<rparr>"
  have run: "dyn_Insert k v t = Some ?t"
    using assms(2-4) b(1,6) dyn_insert_no_grow[of t 1]
    by (simp add: dyn_Insert_eq thresholds_ok_def hash_insert_def del: dyn_insert.simps)
  have "length (filter (\<lambda>x. x \<noteq> empty_key t) (keys t)) = 3" using assms(1,4) by (simp add: sh_inv_def)
  then have full: "empty_key t \<notin> set (keys ?t)"
    using full_after_store[of b "keys t" "empty_key t" k] b I(3) assms(3,5) by simp
  have "hash_lookup k' ?t = None" if "k' \<noteq> empty_key t" "k' \<noteq> k" "sh_abs t k' = None" for k'
  proof -
    have "k' \<notin> set (keys ?t)"
      using that sh_abs_None_iff[OF assms(1)] b(3) set_update_subset_insert[of "keys t" b k] by auto
    then have "DoLookup k' ?t = None"
      using full sh_frameD(2,5)[OF b(5)] probe_returns_iff[OF home_less[of ?t k'], of "keys ?t" "empty_key ?t" k' 0] b I(1,3)
      by (simp add: DoLookup_def ScaleHash_home del: not_None_eq)
    then show ?thesis by (simp add: hash_lookup_def)
  qed
  then show ?thesis using run sh_frameD(2)[OF b(5)] assms(3) by simp
qed

theorem small_dynamic_table_diverges_witness:
  "\<exists>t0 t t'. dyn_Init demo_params 3 0 of_nat Prng_new = Some t0 \<and>
     fold_opt dyn_exec [Put 1 10, Put 2 20, Put 3 30] t0 = Some t \<and>
     dyn_Insert 4 40 t = Some t' \<and> hash_lookup 5 t' = None"
proof -
  have lc: "load_capacity 3 = 4"
    by (simp add: load_capacity_def dbl_div_def dbl_of_nat_def dbl_round_def dbl_exp_def nbits.simps
        round_half_even_def dbl_trunc_def Let_def)
  let ?t = "(dyn_new demo_params 0 of_nat Prng_new)\<lparr>initial_capacity := 4\<rparr>"
  have "dyn_Init demo_params 3 0 of_nat Prng_new = Some (migrate_target 4 ?t)"
    using dyn_Init_eq[OF demo_params_ok, of 3 0 of_nat Prng_new] lc by simp
  moreover have "small_table (migrate_target 4 ?t) Map.empty" "empty_key (migrate_target 4 ?t) = 0"
    using migrate_target_inv[of 4 ?t] demo_params_ok
    by (simp_all add: small_table_def dyn_frame_def tparams_ok_def dyn_new_def hash_new_def smallhash.defs)
  ultimately obtain t0 where init: "dyn_Init demo_params 3 0 of_nat Prng_new = Some t0"
    and t0: "small_table t0 Map.empty" "empty_key t0 = 0" by blast
  obtain t1 where t1: "dyn_Insert 1 10 t0 = Some t1" "small_table t1 [1 \<mapsto> 10]" "empty_key t1 = 0"
    using small_table_insert[OF t0(1), of 1 10] t0(2) by auto
  obtain t2 where t2: "dyn_Insert 2 20 t1 = Some t2" "small_table t2 [1 \<mapsto> 10, 2 \<mapsto> 20]" "empty_key t2 = 0"
    using small_table_insert[OF t1(2), of 2 20] t1(3) by auto
  have "card (dom [1 \<mapsto> 10, 2 \<mapsto> (20::nat)] :: nat set) < 3" by (simp add: card_insert_if)
  then obtain t3 where t3: "dyn_Insert 3 30 t2 = Some t3" "small_table t3 [1 \<mapsto> 10, 2 \<mapsto> 20, 3 \<mapsto> 30]" "empty_key t3 = 0"
    using small_table_insert[OF t2(2), of 3 30] t2(3) by auto
  have S: "sh_inv t3" "thresholds_ok t3" "capacity t3 = 4" "sh_abs t3 = [1 \<mapsto> 10, 2 \<mapsto> 20, 3 \<mapsto> 30]"
    using t3(2) by (auto simp: small_table_def)
  have size: "hsize t3 = 3" using dom_sh_abs_card[OF S(1)] S(4) by (simp add: card_insert_if)
  have "\<exists>t'. dyn_Insert 4 40 t3 = Some t' \<and> hash_lookup 5 t' = None"
    using small_dynamic_table_diverges[OF S(1-3) size, of 4 40] t3(3) S(4) by auto
  moreover have "fold_opt dyn_exec [Put 1 10, Put 2 20, Put 3 30] t0 = Some t3"
    using t1(1) t2(1) t3(1) by (simp add: dyn_exec_def)
  ultimately show ?thesis using init by blast
qed

end
