(* ===== verification/StringUtil.thy ===== *)
theory StringUtil
  imports Prelude "HOL-Library.Sublist"
begin

text \<open>
  The string helpers of \<^verbatim>\<open>cvmfs/util/string.cc\<close>: printing and parsing of numbers, splitting and joining,
  the key-value format of manifests, trimming, replacing, and Base64.

  A \<open>std::string\<close> is a \<open>string\<close>; a \<open>char\<close> is an Isabelle character (a byte), read as a number by \<open>of_char\<close>.
  Base64 computes with the 32-bit positions of the code; elsewhere strings are shorter than $2^{32}$ bytes, as its
  \<open>unsigned\<close> positions assume.  Character
  classification is that of the C locale.  Loops that need not end are partial functions.
\<close>

unbundle bit_operations_syntax

section \<open>Characters and substrings\<close>

abbreviation newline :: char where
  "newline \<equiv> CHR 0x0A"

definition toupper :: "char \<Rightarrow> char" where
  "toupper c = (if 97 \<le> (of_char c :: nat) \<and> (of_char c :: nat) \<le> 122 then char_of ((of_char c :: nat) - 32) else c)"

definition tolower :: "char \<Rightarrow> char" where
  "tolower c = (if 65 \<le> (of_char c :: nat) \<and> (of_char c :: nat) \<le> 90 then char_of ((of_char c :: nat) + 32) else c)"

definition isspace :: "char \<Rightarrow> bool" where
  "isspace c = (c = CHR '' '' \<or> (9 \<le> (of_char c :: nat) \<and> (of_char c :: nat) \<le> 13))"

definition isdigit :: "char \<Rightarrow> bool" where
  "isdigit c = (48 \<le> (of_char c :: nat) \<and> (of_char c :: nat) \<le> 57)"

text \<open>\<open>std::string::substr\<close>, for a position inside the string, and \<open>std::string::find\<close>.\<close>

definition substr :: "string \<Rightarrow> nat \<Rightarrow> nat \<Rightarrow> string" where
  "substr s pos n = take n (drop pos s)"

function str_find :: "string \<Rightarrow> string \<Rightarrow> nat \<Rightarrow> nat option" where
  "str_find s needle pos = (if pos > length s then None
     else if prefix needle (drop pos s) then Some pos else str_find s needle (pos + 1))"
  by pat_completeness auto
termination by (relation "measure (\<lambda>(s, n, p). Suc (length s) - p)") auto

declare str_find.simps [simp del]

section \<open>Numbers\<close>

fun dec_digits :: "nat \<Rightarrow> string" where
  "dec_digits n = (if n < 10 then [char_of (48 + n)] else dec_digits (n div 10) @ [char_of (48 + n mod 10)])"

declare dec_digits.simps [simp del]

definition StringifyBool :: "bool \<Rightarrow> string" where
  "StringifyBool b = (if b then ''yes'' else ''no'')"

definition StringifyInt :: "int \<Rightarrow> string" where
  "StringifyInt v = (if v < 0 then CHR ''-'' # dec_digits (nat (- v)) else dec_digits (nat v))"

definition StringifyUint :: "nat \<Rightarrow> string" where
  "StringifyUint v = dec_digits v"

definition hex_char :: "nat \<Rightarrow> char" where
  "hex_char n = char_of (if n < 10 then 48 + n else 97 + (n - 10))"

definition StringifyByteAsHex :: "nat \<Rightarrow> string" where
  "StringifyByteAsHex v = [hex_char (v div 16), hex_char (v mod 16)]"

text \<open>
  The part that \<open>strtoll\<close>, \<open>strtoull\<close> and the conversions of \<open>sscanf\<close> share: white space, an optional sign
  and a run of digits.  The result is the sign, the value of the digits and the number of
  characters read, or \<open>None\<close> if there is no digit.
\<close>

definition digits_value :: "string \<Rightarrow> nat" where
  "digits_value ds = fold (\<lambda>c v. v * 10 + (of_char c - 48)) ds 0"

definition scan_number :: "string \<Rightarrow> (bool \<times> nat \<times> nat) option" where
  "scan_number s = (let
     spaces = takeWhile isspace s;
     s1 = drop (length spaces) s;
     sign = take 1 (takeWhile (\<lambda>c. c = CHR ''-'' \<or> c = CHR ''+'') s1);
     digits = takeWhile isdigit (drop (length sign) s1)
   in if digits = [] then None
      else Some (sign = ''-'', digits_value digits, length spaces + length sign + length digits))"

definition int64_max :: int where
  "int64_max = 2 ^ 63 - 1"

definition int64_min :: int where
  "int64_min = - (2 ^ 63)"

text \<open>\<open>strtoll\<close>: value, number of characters read, and whether \<open>errno\<close> is \<open>ERANGE\<close>.\<close>

definition strtoll :: "string \<Rightarrow> int \<times> nat \<times> bool" where
  "strtoll s = (case scan_number s of None \<Rightarrow> (0, 0, False)
     | Some (neg, v, n) \<Rightarrow> (let x = (if neg then - int v else int v)
         in if x > int64_max then (int64_max, n, True)
            else if x < int64_min then (int64_min, n, True) else (x, n, False)))"

text \<open>A failed conversion in \<open>String2Int64\<close> returns an uninitialised variable: \<open>None\<close>.\<close>

definition String2Int64 :: "string \<Rightarrow> int option" where
  "String2Int64 value = (if scan_number value = None then None else Some (fst (strtoll value)))"

definition String2Uint64 :: "string \<Rightarrow> nat" where
  "String2Uint64 value = (case scan_number value of None \<Rightarrow> 0
     | Some (neg, v, n) \<Rightarrow> if v \<ge> 2 ^ 64 then 2 ^ 64 - 1 else if neg then u64 (2 ^ 64 - v) else v)"

definition String2Uint64Parse :: "string \<Rightarrow> nat option" where
  "String2Uint64Parse value = (case strtoll value of (myval, endptr, erange) \<Rightarrow>
     if length value = 0 \<or> endptr \<noteq> length value \<or> myval < 0 then None
     else if erange then None else Some (nat myval))"

section \<open>Prefix, suffix, split and join\<close>

definition HasPrefix :: "string \<Rightarrow> string \<Rightarrow> bool \<Rightarrow> bool" where
  "HasPrefix str pre ignore_case = (if length pre > length str then False
     else list_all (\<lambda>i. if ignore_case then toupper (str ! i) = toupper (pre ! i) else str ! i = pre ! i)
            [0..<length pre])"

definition HasSuffix :: "string \<Rightarrow> string \<Rightarrow> bool \<Rightarrow> bool" where
  "HasSuffix str suf ignore_case = (if length suf > length str then False
     else list_all (\<lambda>(a, b). if ignore_case then tolower a = tolower b else a = b) (zip (rev suf) (rev str)))"

function split_loop :: "nat \<Rightarrow> string \<Rightarrow> char \<Rightarrow> nat \<Rightarrow> nat \<Rightarrow> nat \<Rightarrow> string list \<Rightarrow> string list" where
  "split_loop max_chunks str delim i marker chunks result =
     (if i < length str then
        if str ! i = delim then
          (let result' = result @ [substr str marker (i - marker)]; marker' = i + 1; chunks' = chunks + 1
           in if chunks' = max_chunks then result' @ [drop marker' str]
              else split_loop max_chunks str delim (i + 1) marker' chunks' result')
        else split_loop max_chunks str delim (i + 1) marker chunks result
      else result @ [drop marker str])"
  by pat_completeness auto
termination by (relation "measure (\<lambda>(mc, str, d, i, m, c, r). length str - i)") auto

declare split_loop.simps [simp del]

definition SplitStringBounded :: "nat \<Rightarrow> string \<Rightarrow> char \<Rightarrow> string list" where
  "SplitStringBounded max_chunks str delim =
     (if max_chunks = 1 then [str] else split_loop max_chunks str delim 0 0 1 [])"

definition SplitString :: "string \<Rightarrow> char \<Rightarrow> string list" where
  "SplitString str delim = SplitStringBounded 0 str delim"

partial_function (option) split_multi_loop :: "string \<Rightarrow> string \<Rightarrow> nat \<Rightarrow> string list \<Rightarrow> string list option" where
  "split_multi_loop str delim pos_start result =
     (case str_find str delim pos_start of None \<Rightarrow> Some (result @ [drop pos_start str])
      | Some pos_end \<Rightarrow>
          split_multi_loop str delim (pos_end + length delim) (result @ [substr str pos_start (pos_end - pos_start)]))"

definition SplitStringMultiChar :: "string \<Rightarrow> string \<Rightarrow> string list option" where
  "SplitStringMultiChar str delim = split_multi_loop str delim 0 []"

definition JoinStrings :: "string list \<Rightarrow> string \<Rightarrow> string" where
  "JoinStrings strings joint =
     (if length strings > 0 then fold (\<lambda>i result. result @ joint @ strings ! i) [1..<length strings] (strings ! 0)
      else [])"

section \<open>Lines\<close>

text \<open>A line of the key-value format; the key \<open>Z\<close> may occur several times.\<close>

definition keyval_line :: "string \<Rightarrow> (char \<rightharpoonup> string) \<Rightarrow> (char \<rightharpoonup> string)" where
  "keyval_line line content = (if line \<noteq> [] then
     (let tail = (if length line = 1 then [] else drop 1 line); k = line ! 0
      in if k \<noteq> CHR ''Z'' then content(k \<mapsto> tail)
         else (case content k of None \<Rightarrow> content(k \<mapsto> tail)
               | Some old \<Rightarrow> content(k \<mapsto> old @ ''|'' @ tail)))
     else content)"

fun keyval_loop :: "string \<Rightarrow> string \<Rightarrow> (char \<rightharpoonup> string) \<Rightarrow> (char \<rightharpoonup> string)" where
  "keyval_loop [] line content = content"
| "keyval_loop (c # buffer) line content =
     (if c = newline then
        if line = ''--'' then content else keyval_loop buffer [] (keyval_line line content)
      else keyval_loop buffer (line @ [c]) content)"

definition ParseKeyvalMem :: "string \<Rightarrow> (char \<rightharpoonup> string) \<Rightarrow> (char \<rightharpoonup> string)" where
  "ParseKeyvalMem buffer content = keyval_loop buffer [] content"

function line_end :: "string \<Rightarrow> nat \<Rightarrow> nat \<Rightarrow> nat" where
  "line_end text text_size pos =
     (if pos < text_size \<and> text ! pos \<noteq> newline then line_end text text_size (pos + 1) else pos)"
  by pat_completeness auto
termination by (relation "measure (\<lambda>(t, n, p). n - p)") auto

declare line_end.simps [simp del]

definition GetLineMem :: "string \<Rightarrow> nat \<Rightarrow> string" where
  "GetLineMem text text_size = take (line_end text text_size 0) text"

text \<open>\<open>tail_loop source n i\<close> is the loop of \<open>Tail\<close> with \<open>i\<close> characters still to look at.\<close>

fun tail_loop :: "string \<Rightarrow> nat \<Rightarrow> nat \<Rightarrow> string" where
  "tail_loop source num_lines 0 = source"
| "tail_loop source num_lines (Suc i) =
     (if source ! i = newline then
        if num_lines = 0 then drop (i + 1) source else tail_loop source (num_lines - 1) i
      else tail_loop source num_lines i)"

definition Tail :: "string \<Rightarrow> nat \<Rightarrow> string" where
  "Tail source num_lines = (if source = [] \<or> num_lines = 0 then [] else tail_loop source num_lines (length source))"

section \<open>Trimming and replacing\<close>

definition trim_char :: "bool \<Rightarrow> char \<Rightarrow> bool" where
  "trim_char trim_newline c = (c = CHR '' '' \<or> c = CHR 0x09 \<or> (trim_newline \<and> (c = newline \<or> c = CHR 0x0D)))"

function trim_start :: "bool \<Rightarrow> string \<Rightarrow> nat \<Rightarrow> nat" where
  "trim_start nl raw pos = (if pos < length raw \<and> trim_char nl (raw ! pos) then trim_start nl raw (pos + 1) else pos)"
  by pat_completeness auto
termination by (relation "measure (\<lambda>(b, s, p). length s - p)") auto

declare trim_start.simps [simp del]

text \<open>\<open>end_pos\<close> counts down; it is \<open>unsigned\<close>, and below zero it would wrap around.\<close>

fun trim_end :: "bool \<Rightarrow> string \<Rightarrow> nat \<Rightarrow> nat \<Rightarrow> nat option" where
  "trim_end nl raw start_pos end_pos =
     (if end_pos \<ge> start_pos then do {
        c \<leftarrow> array_get raw end_pos;
        if trim_char nl c then
          (case end_pos of 0 \<Rightarrow> None | Suc e \<Rightarrow> trim_end nl raw start_pos e)
        else Some end_pos
      } else Some end_pos)"

declare trim_end.simps [simp del]

definition Trim :: "string \<Rightarrow> bool \<Rightarrow> string option" where
  "Trim raw trim_newline = (if raw = [] then Some [] else do {
     let start_pos = trim_start trim_newline raw 0;
     end_pos \<leftarrow> trim_end trim_newline raw start_pos (length raw - 1);
     Some (substr raw start_pos (end_pos + 1 - start_pos))
   })"

partial_function (option) trim_leading :: "string \<Rightarrow> string \<Rightarrow> string option" where
  "trim_leading toTrim trimmed =
     (if HasPrefix trimmed toTrim True \<and> length trimmed > length toTrim
      then trim_leading toTrim (drop (length toTrim) trimmed) else Some trimmed)"

partial_function (option) trim_trailing :: "string \<Rightarrow> string \<Rightarrow> string option" where
  "trim_trailing toTrim trimmed =
     (if HasSuffix trimmed toTrim True \<and> length trimmed > length toTrim
      then trim_trailing toTrim (take (length trimmed - length toTrim) trimmed) else Some trimmed)"

definition TrimString :: "string \<Rightarrow> string \<Rightarrow> bool \<Rightarrow> bool \<Rightarrow> string option" where
  "TrimString path toTrim leading trailing = (if path \<noteq> toTrim then do {
     t1 \<leftarrow> (if leading then trim_leading toTrim path else Some path);
     (if trailing then trim_trailing toTrim t1 else Some t1)
   } else Some path)"

definition ToUpper :: "string \<Rightarrow> string" where
  "ToUpper mixed_case = map toupper mixed_case"

partial_function (option) replace_loop :: "string \<Rightarrow> string \<Rightarrow> string \<Rightarrow> nat \<Rightarrow> string option" where
  "replace_loop needle replace_by result pos =
     (case str_find result needle pos of None \<Rightarrow> Some result
      | Some p \<Rightarrow> replace_loop needle replace_by (take p result @ replace_by @ drop (p + length needle) result) p)"

definition ReplaceAll :: "string \<Rightarrow> string \<Rightarrow> string \<Rightarrow> string option" where
  "ReplaceAll haystack needle replace_by =
     (if needle = [] then Some haystack else replace_loop needle replace_by haystack 0)"

section \<open>Base64 encoding\<close>

definition b64_table :: string where
  "b64_table = ''ABCDEFGHIJKLMNOPQRSTUVWXYZabcdefghijklmnopqrstuvwxyz0123456789+/''"

definition db64_table :: "int list" where
  "db64_table =
    [- 1, - 1, - 1, - 1, - 1, - 1, - 1, - 1, - 1, - 1, - 1, - 1, - 1, - 1, - 1, - 1, - 1, - 1, - 1, - 1, - 1, - 1, - 1, - 1,
     - 1, - 1, - 1, - 1, - 1, - 1, - 1, - 1, - 1, - 1, - 1, - 1, - 1, - 1, - 1, - 1, - 1, - 1, - 1, 62, - 1, 62, - 1, 63,
     52, 53, 54, 55, 56, 57, 58, 59, 60, 61, - 1, - 1, - 1, 0, - 1, - 1, - 1, 0, 1, 2, 3, 4, 5, 6,
     7, 8, 9, 10, 11, 12, 13, 14, 15, 16, 17, 18, 19, 20, 21, 22, 23, 24, 25, - 1, - 1, - 1, - 1, 63,
     - 1, 26, 27, 28, 29, 30, 31, 32, 33, 34, 35, 36, 37, 38, 39, 40, 41, 42, 43, 44, 45, 46, 47, 48,
     49, 50, 51, - 1, - 1, - 1, - 1, - 1, - 1, - 1, - 1, - 1, - 1, - 1, - 1, - 1, - 1, - 1, - 1, - 1, - 1, - 1, - 1, - 1,
     - 1, - 1, - 1, - 1, - 1, - 1, - 1, - 1, - 1, - 1, - 1, - 1, - 1, - 1, - 1, - 1, - 1, - 1, - 1, - 1, - 1, - 1, - 1, - 1,
     - 1, - 1, - 1, - 1, - 1, - 1, - 1, - 1, - 1, - 1, - 1, - 1, - 1, - 1, - 1, - 1, - 1, - 1, - 1, - 1, - 1, - 1, - 1, - 1,
     - 1, - 1, - 1, - 1, - 1, - 1, - 1, - 1, - 1, - 1, - 1, - 1, - 1, - 1, - 1, - 1, - 1, - 1, - 1, - 1, - 1, - 1, - 1, - 1,
     - 1, - 1, - 1, - 1, - 1, - 1, - 1, - 1, - 1, - 1, - 1, - 1, - 1, - 1, - 1, - 1, - 1, - 1, - 1, - 1, - 1, - 1, - 1, - 1,
     - 1, - 1, - 1, - 1, - 1, - 1, - 1, - 1, - 1, - 1, - 1, - 1, - 1, - 1, - 1, - 1]"

text \<open>A block of three bytes, as numbers.\<close>

definition Base64Block :: "nat \<times> nat \<times> nat \<Rightarrow> string" where
  "Base64Block input = (case input of (i0, i1, i2) \<Rightarrow>
     [b64_table ! drop_bit 2 (i0 AND 0xFD),
      b64_table ! (push_bit 4 (i0 AND 0x03) OR drop_bit 4 (i1 AND 0xF0)),
      b64_table ! (push_bit 2 (i1 AND 0x0F) OR drop_bit 6 (i2 AND 0xD0)),
      b64_table ! (i2 AND 0x3F)])"

text \<open>The loop over whole blocks and the padded last block; \<open>pos\<close> and \<open>length\<close> are \<open>unsigned\<close>.\<close>

partial_function (option) base64_loop :: "string \<Rightarrow> nat \<Rightarrow> nat \<Rightarrow> string \<Rightarrow> (nat \<times> string) option" where
  "base64_loop data_ptr len pos result =
     (if u32 (pos + 2) < len then
        Option.bind (array_get data_ptr pos) (\<lambda>i0.
        Option.bind (array_get data_ptr (pos + 1)) (\<lambda>i1.
        Option.bind (array_get data_ptr (pos + 2)) (\<lambda>i2.
          base64_loop data_ptr len (u32 (pos + 3)) (result @ Base64Block (of_char i0, of_char i1, of_char i2)))))
      else Some (pos, result))"

definition base64_tail :: "string \<Rightarrow> nat \<Rightarrow> nat \<Rightarrow> string \<Rightarrow> string option" where
  "base64_tail data_ptr len pos result = (if len mod 3 \<noteq> 0 then do {
     i0 \<leftarrow> array_get data_ptr pos;
     i1 \<leftarrow> (if len mod 3 = 2 then array_get data_ptr (u32 (pos + 1)) else Some (char_of (0::nat)));
     let encoded_block = Base64Block (of_char i0, of_char i1, 0);
     Some (result @ take 2 encoded_block @ [if len mod 3 = 2 then encoded_block ! 2 else CHR ''=''] @ ''='')
   } else Some result)"

definition Base64 :: "string \<Rightarrow> string option" where
  "Base64 data = do {
     let len = u32 (length data);
     (pos, result) \<leftarrow> base64_loop data len 0 [];
     base64_tail data len pos result
   }"

definition url_char :: "char \<Rightarrow> char" where
  "url_char c = (if c = CHR ''+'' then CHR ''-'' else if c = CHR ''/'' then CHR ''_'' else c)"

definition Base64Url :: "string \<Rightarrow> string option" where
  "Base64Url data = do {
     base64 \<leftarrow> Base64 data;
     let l = u32 (length base64);
     Some (map url_char (take l base64) @ drop l base64)
   }"

definition Debase64Block :: "string \<Rightarrow> string option" where
  "Debase64Block input = do {
     let dec = map (\<lambda>c. db64_table ! of_char c) input;
     if list_ex (\<lambda>d. d < 0) dec then None
     else (let d = map nat dec in
       Some [char_of (push_bit 2 (d ! 0) OR drop_bit 4 (d ! 1)),
             char_of (push_bit 4 (d ! 1 AND 0x0F) OR drop_bit 2 (d ! 2)),
             char_of (push_bit 6 (d ! 2 AND 0x03) OR d ! 3)])
   }"

fun debase64_loop :: "string \<Rightarrow> string option" where
  "debase64_loop (a # b # c # d # rest) = do {
     block \<leftarrow> Debase64Block [a, b, c, d];
     decoded \<leftarrow> debase64_loop rest;
     Some (block @ decoded)
   }"
| "debase64_loop _ = Some []"

definition Debase64 :: "string \<Rightarrow> string option" where
  "Debase64 data = (let len = u32 (length data) in
     if len = 0 then Some [] else if len mod 4 \<noteq> 0 then None else do {
     decoded \<leftarrow> debase64_loop (take len data);
     let d1 = (if data ! (len - 1) = CHR ''='' then butlast decoded else decoded);
     let d2 = (if data ! (len - 2) = CHR ''='' then butlast d1 else d1);
     Some d2
   })"

section \<open>Base64 is lossless\<close>

text \<open>The encoding as a function on the list of bytes.\<close>

fun base64_blocks :: "string \<Rightarrow> string" where
  "base64_blocks (a # b # c # rest) = Base64Block (of_char a, of_char b, of_char c) @ base64_blocks rest"
| "base64_blocks [a, b] = take 3 (Base64Block (of_char a, of_char b, 0)) @ ''=''"
| "base64_blocks [a] = take 2 (Base64Block (of_char a, 0, 0)) @ ''==''"
| "base64_blocks [] = []"

lemma or_add: "(x::nat) < 2 ^ n \<Longrightarrow> push_bit n y OR x = y * 2 ^ n + x"
proof -
  assume x: "x < 2 ^ n"
  have "\<not> bit (push_bit n y) m \<or> \<not> bit x m" for m
  proof (cases "n \<le> m")
    case True
    then have "x < 2 ^ m" using x less_le_trans power_increasing[OF True, of "2::nat"] by fastforce
    then show ?thesis by (simp add: bit_iff_odd)
  next
    case False
    then show ?thesis by (simp add: bit_push_bit_iff)
  qed
  then show ?thesis using disjunctive_add[of "push_bit n y" x] by (simp add: push_bit_eq_mult)
qed

lemma and_masks:
  "(x::nat) AND 0x03 = x mod 4" "x AND 0x0F = x mod 16" "x AND 0x3F = x mod 64"
  using take_bit_eq_mask[of 2 x] take_bit_eq_mask[of 4 x] take_bit_eq_mask[of 6 x]
  by (simp_all add: mask_eq_exp_minus_1 take_bit_eq_mod)

lemma and_high:
  "drop_bit 2 ((x::nat) AND 0xFD) = x div 4 mod 64" "drop_bit 4 (x AND 0xF0) = x div 16 mod 16"
  "drop_bit 6 (x AND 0xD0) = x div 64 mod 4"
  by (simp_all add: drop_bit_and and_masks) (simp_all add: drop_bit_eq_div)

lemma b64_codes: "map (\<lambda>c. db64_table ! of_char c) b64_table = map int [0..<64]"
  by (simp add: b64_table_def db64_table_def upt_rec)

lemma b64_length [simp]: "length b64_table = 64"
  by (simp add: b64_table_def)

lemma b64_decode: "i < 64 \<Longrightarrow> db64_table ! of_char (b64_table ! i) = int i"
  using arg_cong[OF b64_codes, of "\<lambda>xs. xs ! i"] by simp

lemma b64_not_pad: "i < 64 \<Longrightarrow> b64_table ! i \<noteq> CHR ''=''"
proof -
  have "CHR ''='' \<notin> set b64_table" by (simp add: b64_table_def)
  then show "i < 64 \<Longrightarrow> ?thesis" using nth_mem[of i b64_table] by (metis b64_length)
qed

lemma pad_decode: "db64_table ! 61 = 0"
  by (simp add: db64_table_def)

lemma Debase64Block_eq:
  assumes "map (\<lambda>c. db64_table ! of_char c) input = [int x0, int x1, int x2, int x3]" "x1 < 64" "x2 < 64" "x3 < 64"
  shows "Debase64Block input =
     Some [char_of (x0 * 4 + x1 div 16), char_of (x1 mod 16 * 16 + x2 div 4), char_of (x2 mod 4 * 64 + x3)]"
proof -
  have "push_bit 2 x0 OR x1 div 16 = x0 * 4 + x1 div 16"
    "push_bit 4 (x1 mod 16) OR x2 div 4 = x1 mod 16 * 16 + x2 div 4"
    "push_bit 6 (x2 mod 4) OR x3 = x2 mod 4 * 64 + x3"
    using or_add[of "x1 div 16" 2 x0] or_add[of "x2 div 4" 4 "x1 mod 16"] or_add[of x3 6 "x2 mod 4"] assms(2-4) by auto
  then show ?thesis using assms(1) by (simp add: Debase64Block_def Let_def and_masks drop_bit_eq_div)
qed

lemma Base64Block_eq:
  "Base64Block (a, b, c) = map ((!) b64_table)
     [a div 4 mod 64, a mod 4 * 16 + b div 16 mod 16, b mod 16 * 4 + c div 64 mod 4, c mod 64]"
  using or_add[of "b div 16 mod 16" 4 "a mod 4"] or_add[of "c div 64 mod 4" 2 "b mod 16"]
  unfolding Base64Block_def prod.case and_high and_masks by simp

lemma split_field: "(y::nat) < n \<Longrightarrow> (x * n + y) div n = x" "y < n \<Longrightarrow> (x * n + y) mod n = y"
  by (simp_all add: div_mult_self3)

lemma block_bytes:
  fixes a b c :: nat
  assumes "a < 256" "b < 256" "c < 256"
  shows "a div 4 mod 64 * 4 + (a mod 4 * 16 + b div 16 mod 16) div 16 = a"
    "(a mod 4 * 16 + b div 16 mod 16) mod 16 * 16 + (b mod 16 * 4 + c div 64 mod 4) div 4 = b"
    "(b mod 16 * 4 + c div 64 mod 4) mod 4 * 64 + c mod 64 = c"
proof -
  have "a div 4 < 64" "b div 16 < 16" "c div 64 < 4" using assms by simp_all
  then show "a div 4 mod 64 * 4 + (a mod 4 * 16 + b div 16 mod 16) div 16 = a"
    "(a mod 4 * 16 + b div 16 mod 16) mod 16 * 16 + (b mod 16 * 4 + c div 64 mod 4) div 4 = b"
    "(b mod 16 * 4 + c div 64 mod 4) mod 4 * 64 + c mod 64 = c"
    by (simp_all only: split_field mod_less div_mult_mod_eq)
qed

lemma block_indices: "a mod 4 * 16 + b div 16 mod 16 < (64::nat)" "b mod 16 * 4 + c div 64 mod 4 < (64::nat)"
proof -
  have "a mod 4 < 4" "b div 16 mod 16 < 16" "b mod 16 < 16" "c div 64 mod 4 < 4" by simp_all
  then show "a mod 4 * 16 + b div 16 mod 16 < 64" "b mod 16 * 4 + c div 64 mod 4 < 64" by linarith+
qed

lemma Debase64_Base64Block:
  fixes a b c :: char
  assumes "map (\<lambda>c. db64_table ! of_char c) input = map (\<lambda>c. db64_table ! of_char c) (Base64Block (of_char a, of_char b, of_char c))"
  shows "Debase64Block input = Some [a, b, c]"
proof -
  note codes = assms[unfolded Base64Block_eq]
  have "Debase64Block input = Some [char_of (of_char a :: nat), char_of (of_char b :: nat), char_of (of_char c :: nat)]"
    using Debase64Block_eq[OF codes[simplified b64_decode block_indices list.map]] block_indices
      block_bytes[of "of_char a" "of_char b" "of_char c"] by (simp add: b64_decode)
  then show ?thesis by simp
qed

text \<open>The encoded text is a sequence of blocks of four; the last one shows the length modulo three.\<close>

lemma Base64Block_length [simp]: "length (Base64Block x) = 4"
  by (cases x) (simp add: Base64Block_def)

lemma block4: "length xs = 4 \<Longrightarrow> \<exists>a b c d. xs = [a, b, c, d]"
  by (auto simp: numeral_eq_Suc length_Suc_conv)

lemma debase64_loop_block:
  "length xs = 4 \<Longrightarrow> debase64_loop (xs @ rest) = do { block \<leftarrow> Debase64Block xs; decoded \<leftarrow> debase64_loop rest; Some (block @ decoded) }"
  using block4[of xs] by auto

lemma pad_codes:
  "map (\<lambda>c. db64_table ! of_char c) (take 3 (Base64Block (a, b, 0)) @ ''='') =
   map (\<lambda>c. db64_table ! of_char c) (Base64Block (a, b, 0))"
  "map (\<lambda>c. db64_table ! of_char c) (take 2 (Base64Block (a, 0, 0)) @ ''=='') =
   map (\<lambda>c. db64_table ! of_char c) (Base64Block (a, 0, 0))"
  using b64_decode[of 0] by (simp_all add: Base64Block_eq pad_decode)

definition b64_pad :: "'a list \<Rightarrow> nat" where
  "b64_pad s = (if length s mod 3 = 0 then 0 else 3 - length s mod 3)"

lemma debase64_loop_blocks: "debase64_loop (base64_blocks s) = Some (s @ replicate (b64_pad s) (char_of (0::nat)))"
proof (induction s rule: base64_blocks.induct)
  case (1 a b c rest)
  have "b64_pad (a # b # c # rest) = b64_pad rest" by (simp add: b64_pad_def mod_Suc)
  then show ?case using 1 Debase64_Base64Block[OF refl] by (simp add: debase64_loop_block)
next
  case (2 a b)
  have "Debase64Block (take 3 (Base64Block (of_char a, of_char b, 0)) @ ''='') = Some [a, b, char_of (0::nat)]"
    by (rule Debase64_Base64Block) (simp add: pad_codes(1) del: map_append)
  then show ?case using debase64_loop_block[of "base64_blocks [a, b]" "[]"] by (simp add: b64_pad_def)
next
  case (3 a)
  have "Debase64Block (take 2 (Base64Block (of_char a, 0, 0)) @ ''=='') = Some [a, char_of (0::nat), char_of (0::nat)]"
    by (rule Debase64_Base64Block) (simp add: pad_codes(2) del: map_append)
  then show ?case using debase64_loop_block[of "base64_blocks [a]" "[]"] by (simp add: b64_pad_def numeral_2_eq_2)
next
  case 4
  then show ?case by (simp add: b64_pad_def)
qed

lemma base64_blocks_length: "length (base64_blocks s) = 4 * ((length s + 2) div 3)"
proof (induction s rule: base64_blocks.induct)
  case (1 a b c rest)
  have "(length rest + 3 + 2) div 3 = Suc ((length rest + 2) div 3)" by presburger
  then show ?case using 1 by simp
qed auto

lemma base64_blocks_last:
  assumes "s \<noteq> []"
  shows "base64_blocks s ! (length (base64_blocks s) - 1) = CHR ''='' \<longleftrightarrow> length s mod 3 \<noteq> 0"
    "base64_blocks s ! (length (base64_blocks s) - 2) = CHR ''='' \<longleftrightarrow> length s mod 3 = 1"
proof -
  have "s \<noteq> [] \<Longrightarrow> \<exists>xs a b. base64_blocks s = xs @ [a, b] \<and> (b = CHR ''='' \<longleftrightarrow> length s mod 3 \<noteq> 0) \<and> (a = CHR ''='' \<longleftrightarrow> length s mod 3 = 1)"
  proof (induction s rule: base64_blocks.induct)
    case (1 a b c rest)
    show ?case
    proof (cases "rest = []")
      case True
      then show ?thesis
        using b64_not_pad[of "of_char c mod 64"] b64_not_pad[OF block_indices(2), of "of_char b" "of_char c"]
        by (simp add: Base64Block_eq)
    next
      case False
      then obtain xs y z where "base64_blocks rest = xs @ [y, z]" "z = CHR ''='' \<longleftrightarrow> length rest mod 3 \<noteq> 0"
        "y = CHR ''='' \<longleftrightarrow> length rest mod 3 = 1"
        using 1 by blast
      moreover have "length (a # b # c # rest) mod 3 = length rest mod 3" by simp
      ultimately show ?thesis
        by (intro exI[of _ "Base64Block (of_char a, of_char b, of_char c) @ xs"] exI[of _ y] exI[of _ z]) simp
    qed
  next
    case (2 a b)
    then show ?case
      using b64_not_pad[OF block_indices(2), of "of_char b" 0] by (simp add: Base64Block_eq)
  qed (simp_all add: Base64Block_eq)
  then obtain xs a b where "base64_blocks s = xs @ [a, b]" "b = CHR ''='' \<longleftrightarrow> length s mod 3 \<noteq> 0" "a = CHR ''='' \<longleftrightarrow> length s mod 3 = 1"
    using assms by blast
  then show "base64_blocks s ! (length (base64_blocks s) - 1) = CHR ''='' \<longleftrightarrow> length s mod 3 \<noteq> 0"
    "base64_blocks s ! (length (base64_blocks s) - 2) = CHR ''='' \<longleftrightarrow> length s mod 3 = 1"
    by (simp_all add: nth_append)
qed

lemma Debase64_blocks:
  assumes bound: "length (base64_blocks s) < 2 ^ 32"
  shows "Debase64 (base64_blocks s) = Some s"
proof (cases "s = []")
  case False
  then have "0 < (length s + 2) div 3" by (cases s) auto
  then have len: "length (base64_blocks s) \<noteq> 0" "length (base64_blocks s) mod 4 = 0" by (simp_all add: base64_blocks_length)
  have u: "u32 (length (base64_blocks s)) = length (base64_blocks s)" using bound by (simp add: u32_def)
  have "length s mod 3 < 3" by simp
  then consider "length s mod 3 = 0" | "length s mod 3 = 1" | "length s mod 3 = 2" by linarith
  then show ?thesis
    using len debase64_loop_blocks[of s] base64_blocks_last[OF False]
    by cases (simp_all add: Debase64_def u b64_pad_def butlast_append numeral_2_eq_2)
qed (simp add: Debase64_def u32_def)

lemma url_char_simps: "db64_table ! of_char (url_char c) = db64_table ! of_char c" "url_char c = CHR ''='' \<longleftrightarrow> c = CHR ''=''"
  by (auto simp: url_char_def db64_table_def)

lemma debase64_loop_url: "debase64_loop (map url_char s) = debase64_loop s"
  by (induction s rule: debase64_loop.induct) (simp_all add: Debase64Block_def url_char_simps)

lemma Debase64_url: "Debase64 (map url_char s) = Debase64 s"
proof (cases "u32 (length s) = 0")
  case False
  have "u32 (length s) \<le> length s" by (simp add: u32_def)
  then have "map url_char s ! (u32 (length s) - 1) = url_char (s ! (u32 (length s) - 1))"
    "map url_char s ! (u32 (length s) - 2) = url_char (s ! (u32 (length s) - 2))" using False by simp_all
  then show ?thesis by (simp add: Debase64_def debase64_loop_url url_char_simps take_map Let_def)
qed (simp add: Debase64_def)

text \<open>Below the wrap of \<open>pos + 2\<close> the code computes this encoding.\<close>

lemma base64_run:
  assumes "length (us @ rest) < 2 ^ 32 - 2" "length us mod 3 = 0"
  shows "Option.bind (base64_loop (us @ rest) (length (us @ rest)) (length us) result)
      (\<lambda>(pos, r). base64_tail (us @ rest) (length (us @ rest)) pos r) = Some (result @ base64_blocks rest)"
  using assms
proof (induction rest arbitrary: us result rule: base64_blocks.induct)
  case (1 a b c rest)
  let ?d = "us @ a # b # c # rest" and ?res = "result @ Base64Block (of_char a, of_char b, of_char c)"
  have e: "(us @ [a, b, c]) @ rest = ?d" "length (us @ [a, b, c]) = length us + 3" "length (us @ [a, b, c]) mod 3 = 0"
    using "1.prems"(2) by simp_all
  have IH: "Option.bind (base64_loop ?d (length ?d) (length us + 3) ?res) (\<lambda>(pos, r). base64_tail ?d (length ?d) pos r) =
    Some (?res @ base64_blocks rest)"
    using "1.IH"[of "us @ [a, b, c]" ?res] "1.prems"(1) unfolding e(1,2) using e(3) unfolding e(2) by blast
  have g: "array_get ?d (length us) = Some a" "array_get ?d (length us + 1) = Some b" "array_get ?d (length us + 2) = Some c"
    "u32 (length us + 2) = length us + 2" "u32 (length us + 3) = length us + 3" "length us + 2 < length ?d"
    using "1.prems"(1) by (simp_all add: array_get_def nth_append u32_def)
  have "base64_loop ?d (length ?d) (length us) result = base64_loop ?d (length ?d) (length us + 3) ?res"
    by (subst base64_loop.simps) (simp only: g if_True Option.bind.bind_lunit)
  then show ?case using IH by simp
next
  case (2 a b)
  have "(length us + 2) mod 3 = 2" using "2.prems"(2) by presburger
  then show ?case using "2.prems"(1)
    by (subst base64_loop.simps) (simp add: base64_tail_def array_get_def u32_def nth_append Base64Block_def)
next
  case (3 a)
  have "(length us + 1) mod 3 = 1" using "3.prems"(2) by presburger
  then show ?case using "3.prems"(1)
    by (subst base64_loop.simps) (simp add: base64_tail_def array_get_def u32_def nth_append Base64Block_def)
next
  case 4
  then show ?case by (subst base64_loop.simps) (simp add: base64_tail_def u32_def)
qed

lemma Base64_eq: "length data < 2 ^ 32 - 2 \<Longrightarrow> Base64 data = Some (base64_blocks data)"
  using base64_run[of "[]" data "[]"] by (simp add: Base64_def u32_def)

section \<open>Splitting and joining\<close>

lemma join_fold: "fold (\<lambda>i r. r @ j @ xs ! i) [k..<n] r = r @ fold (\<lambda>i r. r @ j @ xs ! i) [k..<n] []"
proof (induction "n - k" arbitrary: k r)
  case (Suc m)
  then have k: "[k..<n] = k # [Suc k..<n]" by (simp add: upt_rec)
  have "m = n - Suc k" using Suc.hyps(2) by simp
  note IH = Suc.hyps(1)[OF this]
  show ?case unfolding k fold.simps comp_def
    by (subst IH, subst (2) IH) simp
qed simp

lemma JoinStrings_simps [simp]:
  "JoinStrings [] j = []" "JoinStrings [x] j = x"
  "JoinStrings (x # y # ys) j = x @ j @ JoinStrings (y # ys) j"
proof -
  have "fold (\<lambda>i r. r @ j @ (x # y # ys) ! i) [Suc 0..<Suc (Suc (length ys))] x =
      x @ fold (\<lambda>i r. r @ j @ (x # y # ys) ! i) (map Suc [0..<Suc (length ys)]) []"
    by (subst join_fold) (simp only: map_Suc_upt)
  also have "\<dots> = x @ fold (\<lambda>i r. r @ j @ (y # ys) ! i) [0..<Suc (length ys)] []"
    by (simp add: fold_map comp_def)
  also have "\<dots> = x @ j @ fold (\<lambda>i r. r @ j @ (y # ys) ! i) [Suc 0..<Suc (length ys)] y"
    by (subst upt_rec) (simp, subst join_fold, subst (2) join_fold, simp)
  finally show "JoinStrings (x # y # ys) j = x @ j @ JoinStrings (y # ys) j"
    by (simp add: JoinStrings_def)
qed (simp_all add: JoinStrings_def)

lemma JoinStrings_Cons: "ys \<noteq> [] \<Longrightarrow> JoinStrings (x # ys) j = x @ j @ JoinStrings ys j"
  by (cases ys) simp_all

text \<open>What the splitting loop returns for the rest of the string, from the marker on.\<close>

definition split_ok :: "nat \<Rightarrow> char \<Rightarrow> nat \<Rightarrow> string \<Rightarrow> string list \<Rightarrow> bool" where
  "split_ok max_chunks d chunks s ys \<longleftrightarrow> ys \<noteq> [] \<and> JoinStrings ys [d] = s \<and>
     (\<forall>y \<in> set (butlast ys). d \<notin> set y) \<and>
     (max_chunks \<noteq> 0 \<longrightarrow> chunks + length ys \<le> Suc max_chunks) \<and>
     (d \<in> set (last ys) \<longrightarrow> max_chunks \<noteq> 0 \<and> chunks + length ys = Suc max_chunks)"

lemma split_loop_spec:
  assumes "m \<le> i" "i \<le> length s" "d \<notin> set (take (i - m) (drop m s))" "1 \<le> c" "mc = 0 \<or> c < mc"
  shows "\<exists>ys. split_loop mc s d i m c r = r @ ys \<and> split_ok mc d c (drop m s) ys"
  using assms
proof (induction mc s d i m c r rule: split_loop.induct)
  case (1 mc s d i m c r)
  show ?case
  proof (cases "i < length s")
    case False
    then have "i = length s" using "1.prems"(2) by simp
    then have "d \<notin> set (drop m s)" using "1.prems"(1,3) by simp
    then show ?thesis using False "1.prems" by (subst split_loop.simps) (auto simp: split_ok_def)
  next
    case i: True
    show ?thesis
    proof (cases "s ! i = d")
      case False
      have "take (Suc i - m) (drop m s) = take (i - m) (drop m s) @ [s ! i]"
        using i "1.prems"(1) by (simp add: Suc_diff_le take_Suc_conv_app_nth)
      then have "d \<notin> set (take (i + 1 - m) (drop m s))" using "1.prems"(3) False by simp
      then show ?thesis using "1.IH"(2)[OF i False] "1.prems" i False
        by (subst split_loop.simps) simp
    next
      case d: True
      let ?ch = "substr s m (i - m)"
      have parts: "drop m s = ?ch @ d # drop (i + 1) s"
        using i d "1.prems"(1) id_take_nth_drop[of "i - m" "drop m s"] by (simp add: substr_def)
      have ch: "d \<notin> set ?ch" using "1.prems"(3) by (simp add: substr_def)
      have extend: "split_ok mc d c (drop m s) (?ch # ys)" if "split_ok mc d (c + 1) (drop (i + 1) s) ys" for ys
        using that ch parts by (auto simp: split_ok_def JoinStrings_Cons)
      show ?thesis
      proof (cases "c + 1 = mc")
        case True
        have "split_ok mc d (c + 1) (drop (i + 1) s) [drop (i + 1) s]" using True by (auto simp: split_ok_def)
        from extend[OF this] show ?thesis using i d True by (subst split_loop.simps) auto
      next
        case False
        have "c + 1 < mc \<or> mc = 0" using False "1.prems"(5) by auto
        then obtain ys where "split_loop mc s d (i + 1) (i + 1) (c + 1) (r @ [?ch]) = (r @ [?ch]) @ ys"
            "split_ok mc d (c + 1) (drop (i + 1) s) ys"
          using "1.IH"(1)[OF i d refl refl refl False] i by auto
        then show ?thesis using extend i d False by (subst split_loop.simps) (auto simp: Let_def)
      qed
    qed
  qed
qed

lemma SplitStringBounded_spec:
  "split_ok mc d 1 s (SplitStringBounded mc s d)"
proof (cases "mc = 1")
  case True
  then show ?thesis by (auto simp: SplitStringBounded_def split_ok_def)
next
  case False
  then have "mc = 0 \<or> 1 < mc" by linarith
  then show ?thesis using split_loop_spec[of 0 0 s d 1 mc "[]"] False by (auto simp: SplitStringBounded_def)
qed

lemma delim_append_eq: "x @ d # xs = y @ d # ys \<Longrightarrow> d \<notin> set x \<Longrightarrow> d \<notin> set y \<Longrightarrow> x = y \<and> xs = ys"
proof (induction x arbitrary: y)
  case Nil
  then show ?case by (cases y) auto
next
  case (Cons a x)
  then show ?case by (cases y) auto
qed

lemma JoinStrings_inj:
  assumes "xs \<noteq> []" "ys \<noteq> []" "\<forall>x \<in> set xs. d \<notin> set x" "\<forall>y \<in> set ys. d \<notin> set y" "JoinStrings xs [d] = JoinStrings ys [d]"
  shows "xs = ys"
  using assms
proof (induction xs arbitrary: ys)
  case (Cons x xs)
  then obtain y ys' where ys: "ys = y # ys'" by (cases ys) auto
  have "JoinStrings (z # zs) [d] = (if zs = [] then z else z @ d # JoinStrings zs [d])" for z zs
    by (simp add: JoinStrings_Cons)
  then have eq: "(if xs = [] then x else x @ d # JoinStrings xs [d]) = (if ys' = [] then y else y @ d # JoinStrings ys' [d])"
    using Cons.prems(5) ys by simp
  have x: "d \<notin> set x" and y: "d \<notin> set y" using Cons.prems(3,4) ys by auto
  show ?case
  proof (cases "xs = [] \<or> ys' = []")
    case True
    then show ?thesis using eq x y ys by (auto split: if_splits)
  next
    case False
    then have "x = y \<and> JoinStrings xs [d] = JoinStrings ys' [d]" using eq delim_append_eq[OF _ x y] by simp
    then show ?thesis using Cons.IH[of ys'] Cons.prems(3,4) False ys by auto
  qed
qed simp

section \<open>Printing and parsing numbers\<close>

lemma SplitString_free:
  "y \<in> set (SplitString s d) \<Longrightarrow> d \<notin> set y"
proof -
  let ?ys = "SplitString s d"
  have ys: "?ys \<noteq> []" "\<forall>y \<in> set (butlast ?ys). d \<notin> set y" "d \<notin> set (last ?ys)"
    using SplitStringBounded_spec[of 0 d s] by (auto simp: split_ok_def SplitString_def)
  then show "y \<in> set ?ys \<Longrightarrow> d \<notin> set y" by (metis append_butlast_last_id rotate1.simps(2) set_ConsD set_rotate1)
qed

lemma SplitString_join: "JoinStrings (SplitString s d) [d] = s"
  using SplitStringBounded_spec[of 0 d s] by (simp add: split_ok_def SplitString_def)

lemma SplitString_JoinStrings:
  assumes "xs \<noteq> []" "\<forall>x \<in> set xs. d \<notin> set x"
  shows "SplitString (JoinStrings xs [d]) d = xs"
proof -
  let ?ys = "SplitString (JoinStrings xs [d]) d"
  have "?ys \<noteq> []" using SplitStringBounded_spec[of 0 d "JoinStrings xs [d]"] by (auto simp: split_ok_def SplitString_def)
  from JoinStrings_inj[OF this assms(1) _ assms(2) SplitString_join] SplitString_free show ?thesis by blast
qed

lemma SplitString_Nil: "SplitString [] d = [[]]"
  by (simp add: SplitString_def SplitStringBounded_def split_loop.simps)

lemma digit_char: "d < 10 \<Longrightarrow> isdigit (char_of (48 + d))" "d < 10 \<Longrightarrow> (of_char (char_of (48 + d)) :: nat) = 48 + d"
  by (simp_all add: isdigit_def of_char_of)

lemma dec_digits_digits: "\<forall>c \<in> set (dec_digits n). isdigit c"
proof (induction n rule: dec_digits.induct)
  case (1 n)
  then show ?case using digit_char(1)[of n] digit_char(1)[of "n mod 10"]
    by (subst dec_digits.simps) auto
qed

lemma dec_digits_nonempty [simp]: "dec_digits n \<noteq> []"
  by (subst dec_digits.simps) simp

lemma digits_value_snoc: "digits_value (ds @ [c]) = digits_value ds * 10 + (of_char c - 48)"
  by (simp add: digits_value_def)

lemma digits_value_dec [simp]: "digits_value (dec_digits n) = n"
proof (induction n rule: dec_digits.induct)
  case (1 n)
  show ?case
  proof (cases "n < 10")
    case True
    then show ?thesis using digit_char(2)[of n] by (subst dec_digits.simps) (simp add: digits_value_def)
  next
    case False
    then show ?thesis using 1 digit_char(2)[of "n mod 10"] by (subst dec_digits.simps) (simp add: digits_value_snoc)
  qed
qed

lemma digit_not_space: "isdigit c \<Longrightarrow> \<not> isspace c \<and> c \<noteq> CHR ''-'' \<and> c \<noteq> CHR ''+''"
  by (auto simp: isdigit_def isspace_def)

lemma scan_digits:
  assumes "ds \<noteq> []" "\<forall>c \<in> set ds. isdigit c"
  shows "scan_number ds = Some (False, digits_value ds, length ds)"
    "scan_number (CHR ''-'' # ds) = Some (True, digits_value ds, Suc (length ds))"
proof -
  obtain c cs where ds: "ds = c # cs" using assms(1) by (cases ds) auto
  then have c: "\<not> isspace c" "c \<noteq> CHR ''-''" "c \<noteq> CHR ''+''" using assms(2) digit_not_space[of c] by auto
  have all: "takeWhile isdigit ds = ds" using assms(2) by simp
  show "scan_number ds = Some (False, digits_value ds, length ds)"
    using c all ds by (simp add: scan_number_def)
  show "scan_number (CHR ''-'' # ds) = Some (True, digits_value ds, Suc (length ds))"
    using assms(1) by (simp add: scan_number_def isspace_def Let_def all)
qed

lemmas scan_dec = scan_digits[OF dec_digits_nonempty dec_digits_digits, simplified]

lemma String2Int64_StringifyInt:
  "int64_min \<le> v \<Longrightarrow> v \<le> int64_max \<Longrightarrow> String2Int64 (StringifyInt v) = Some v"
  by (auto simp: String2Int64_def StringifyInt_def scan_dec strtoll_def Let_def)

lemma String2Uint64_StringifyUint: "n < 2 ^ 64 \<Longrightarrow> String2Uint64 (StringifyUint n) = n"
  by (simp add: String2Uint64_def StringifyUint_def scan_dec)

lemma String2Uint64Parse_StringifyUint:
  "String2Uint64Parse (StringifyUint n) = (if n < 2 ^ 63 then Some n else None)"
proof -
  have "length (dec_digits n) \<noteq> 0" by simp
  then show ?thesis
    by (auto simp: String2Uint64Parse_def StringifyUint_def scan_dec strtoll_def Let_def int64_max_def int64_min_def)
qed

lemma sign_prefix:
  "s = take 1 (takeWhile (\<lambda>c. c = CHR ''-'' \<or> c = CHR ''+'') s) @ drop (length (take 1 (takeWhile (\<lambda>c. c = CHR ''-'' \<or> c = CHR ''+'') s))) s"
  "take 1 (takeWhile (\<lambda>c. c = CHR ''-'' \<or> c = CHR ''+'') s) \<in> {[], ''-'', ''+''}"
  by (cases s; simp)+

lemma scan_number_SomeD:
  assumes "scan_number s = Some (neg, v, n)"
  obtains sp sg ds rest where "s = sp @ sg @ ds @ rest" "\<forall>c \<in> set sp. isspace c" "sg \<in> {[], ''-'', ''+''}"
    "\<forall>c \<in> set ds. isdigit c" "ds \<noteq> []" "neg = (sg = ''-'')" "v = digits_value ds"
    "n = length sp + length sg + length ds"
proof -
  define sp where "sp = takeWhile isspace s"
  define s1 where "s1 = drop (length sp) s"
  define sg where "sg = take 1 (takeWhile (\<lambda>c. c = CHR ''-'' \<or> c = CHR ''+'') s1)"
  define dr where "dr = drop (length sg) s1"
  define ds where "ds = takeWhile isdigit dr"
  have "scan_number s = (if ds = [] then None else Some (sg = ''-'', digits_value ds, length sp + length sg + length ds))"
    unfolding scan_number_def Let_def ds_def dr_def sg_def s1_def sp_def by (rule refl)
  then have r: "ds \<noteq> []" "neg = (sg = ''-'')" "v = digits_value ds" "n = length sp + length sg + length ds"
    using assms by (auto split: if_splits)
  have s1: "s = sp @ s1" by (simp add: sp_def s1_def dropWhile_eq_drop[symmetric])
  have sg: "s1 = sg @ dr" "sg \<in> {[], ''-'', ''+''}"
    unfolding dr_def sg_def by (rule sign_prefix)+
  have dr: "dr = ds @ dropWhile isdigit dr" by (simp add: ds_def)
  have s: "s = sp @ sg @ ds @ dropWhile isdigit dr"
    unfolding s1 sg(1) by (subst dr) (rule refl)
  have sets: "\<forall>c \<in> set sp. isspace c" "\<forall>c \<in> set ds. isdigit c"
    unfolding sp_def ds_def by (blast dest: set_takeWhileD)+
  show thesis by (rule that[OF s sets(1) sg(2) sets(2) r])
qed

lemma String2Uint64Parse_SomeD:
  assumes "String2Uint64Parse s = Some n"
  shows "n < 2 ^ 63 \<and> (\<exists>sp sg ds. s = sp @ sg @ ds \<and> (\<forall>c \<in> set sp. isspace c) \<and> sg \<in> {[], ''-'', ''+''} \<and>
     (\<forall>c \<in> set ds. isdigit c) \<and> ds \<noteq> [] \<and> n = digits_value ds \<and> (sg = ''-'' \<longrightarrow> n = 0))"
proof -
  obtain neg v k where scan: "scan_number s = Some (neg, v, k)"
    using assms by (auto simp: String2Uint64Parse_def strtoll_def split: option.splits if_splits)
  then have r: "k = length s" "int v \<le> int64_max" "neg \<longrightarrow> v = 0" "n = v"
    using assms by (auto simp: String2Uint64Parse_def strtoll_def Let_def split: if_splits)
  from scan obtain sp sg ds rest where S: "s = sp @ sg @ ds @ rest" "\<forall>c \<in> set sp. isspace c" "sg \<in> {[], ''-'', ''+''}"
    "\<forall>c \<in> set ds. isdigit c" "ds \<noteq> []" "neg = (sg = ''-'')" "v = digits_value ds" "k = length sp + length sg + length ds"
    by (rule scan_number_SomeD)
  then have "rest = []" using r(1) by simp
  then have "s = sp @ sg @ ds" using S(1) by simp
  moreover have "n < 2 ^ 63" using r(2,4) by (simp add: int64_max_def)
  ultimately show ?thesis using S r(3,4) by blast
qed

section \<open>Lines\<close>

definition unlines :: "string list \<Rightarrow> string" where
  "unlines ls = concat (map (\<lambda>l. l @ [newline]) ls)"

lemma unlines_simps [simp]: "unlines [] = []" "unlines (l # ls) = l @ newline # unlines ls"
  "unlines (ls @ ms) = unlines ls @ unlines ms"
  by (simp_all add: unlines_def)

lemma keyval_loop_line:
  "newline \<notin> set l \<Longrightarrow> keyval_loop (l @ newline # rest) acc c =
     (if acc @ l = ''--'' then c else keyval_loop rest [] (keyval_line (acc @ l) c))"
  by (induction l arbitrary: acc) auto

lemma keyval_loop_no_newline: "newline \<notin> set l \<Longrightarrow> keyval_loop l acc c = c"
  by (induction l arbitrary: acc) auto

lemma ParseKeyvalMem_lines:
  assumes "\<forall>l \<in> set ls. newline \<notin> set l" "newline \<notin> set rest"
  shows "ParseKeyvalMem (unlines ls @ rest) c = fold keyval_line (takeWhile (\<lambda>l. l \<noteq> ''--'') ls) c"
  unfolding ParseKeyvalMem_def using assms(1)
proof (induction ls arbitrary: c)
  case Nil
  then show ?case using assms(2) by (simp add: keyval_loop_no_newline)
next
  case (Cons l ls)
  then show ?case by (simp add: keyval_loop_line)
qed

lemma line_end_spec:
  "pos \<le> n \<Longrightarrow> n \<le> length buf \<Longrightarrow> line_end buf n pos = pos + length (takeWhile (\<lambda>c. c \<noteq> newline) (take (n - pos) (drop pos buf)))"
proof (induction buf n pos rule: line_end.induct)
  case (1 buf n pos)
  show ?case
  proof (cases "pos < n")
    case True
    then have "take (n - pos) (drop pos buf) = buf ! pos # take (n - Suc pos) (drop (Suc pos) buf)"
      using "1.prems"(2) by (simp add: Cons_nth_drop_Suc[symmetric] take_Cons' Suc_diff_Suc)
    then show ?thesis using 1 True by (subst line_end.simps) auto
  next
    case False
    then show ?thesis using "1.prems" by (subst line_end.simps) simp
  qed
qed

lemma GetLineMem_spec:
  "n \<le> length buf \<Longrightarrow> GetLineMem buf n = takeWhile (\<lambda>c. c \<noteq> newline) (take n buf)"
  using line_end_spec[of 0 n buf] takeWhile_eq_take[of "\<lambda>c. c \<noteq> newline" "take n buf"]
  by (simp add: GetLineMem_def) (metis length_takeWhile_le length_take min.absorb2 min.bounded_iff take_take)

text \<open>\<open>Tail\<close> on a text of complete lines.\<close>

lemma tail_loop_skip:
  assumes "newline \<notin> set l" "s = pre @ l @ post"
  shows "tail_loop s n (length pre + length l) = tail_loop s n (length pre)"
  using assms
proof (induction l arbitrary: post rule: rev_induct)
  case (snoc c l)
  have "s ! (length pre + length l) = c" using snoc.prems(2) by (simp add: nth_append)
  then show ?case using snoc.IH[of "c # post"] snoc.prems by auto
qed simp

lemma tail_loop_line:
  assumes "newline \<notin> set l"
  shows "tail_loop (pre @ newline # l @ post) n (length pre + Suc (length l)) =
     (if n = 0 then l @ post else tail_loop (pre @ newline # l @ post) (n - 1) (length pre))"
  using tail_loop_skip[of l "pre @ newline # l @ post" "pre @ [newline]" post n] assms
  by (simp add: nth_append)

lemma tail_loop_lines:
  assumes "\<forall>l \<in> set (ls @ [k]). newline \<notin> set l" "s = unlines ls @ k @ post"
  shows "tail_loop s n (length (unlines ls @ k)) = unlines (drop (length ls - n) ls) @ k @ post"
  using assms
proof (induction ls arbitrary: k n post rule: rev_induct)
  case Nil
  then show ?case using tail_loop_skip[of k s "[]" post n] by simp
next
  case (snoc l ls)
  have s: "s = (unlines ls @ l) @ newline # k @ post" using snoc.prems(2) by simp
  have k: "newline \<notin> set k" using snoc.prems(1) by simp
  have len: "length (unlines (ls @ [l]) @ k) = length (unlines ls @ l) + Suc (length k)" by simp
  have "tail_loop s n (length (unlines (ls @ [l]) @ k)) = (if n = 0 then k @ post else tail_loop s (n - 1) (length (unlines ls @ l)))"
    unfolding len s by (rule tail_loop_line[OF k])
  also have "\<dots> = unlines (drop (length (ls @ [l]) - n) (ls @ [l])) @ k @ post"
    using snoc.IH[of l "newline # k @ post" "n - 1"] snoc.prems s by (cases n) auto
  finally show ?case .
qed

lemma Tail_lines:
  assumes "\<forall>l \<in> set ls. newline \<notin> set l"
  shows "Tail (unlines ls) n = unlines (drop (length ls - n) ls)"
proof (cases "ls = [] \<or> n = 0")
  case False
  then have "unlines ls \<noteq> []" by (cases ls) auto
  then show ?thesis using tail_loop_lines[of ls "[]" "unlines ls" "[]" n] assms False by (simp add: Tail_def)
qed (auto simp: Tail_def)

section \<open>Trimming\<close>

definition strip :: "(char \<Rightarrow> bool) \<Rightarrow> string \<Rightarrow> string" where
  "strip P s = rev (dropWhile P (rev (dropWhile P s)))"

lemma trim_start_spec: "pos \<le> length raw \<Longrightarrow> drop (trim_start nl raw pos) raw = dropWhile (trim_char nl) (drop pos raw) \<and>
    pos \<le> trim_start nl raw pos \<and> trim_start nl raw pos \<le> length raw"
proof (induction nl raw pos rule: trim_start.induct)
  case (1 nl raw pos)
  show ?case
  proof (cases "pos < length raw")
    case True
    then have "drop pos raw = raw ! pos # drop (Suc pos) raw" by (simp add: Cons_nth_drop_Suc)
    then show ?thesis using 1 True by (subst (1 2 3) trim_start.simps) auto
  next
    case False
    then show ?thesis using "1.prems" by (subst (1 2 3) trim_start.simps) auto
  qed
qed

lemma trim_end_append: "e < length raw \<Longrightarrow> trim_end nl (raw @ zs) st e = trim_end nl raw st e"
proof (induction nl raw st e rule: trim_end.induct)
  case (1 nl raw st e)
  then show ?case
    by (subst (1 2) trim_end.simps) (auto simp: nth_append split: nat.split)
qed

lemma trim_end_spec:
  assumes "raw = pre @ m @ x # post" "\<not> trim_char nl x" "\<forall>c \<in> set post. trim_char nl c"
  shows "trim_end nl raw (length pre) (length pre + length m + length post) = Some (length pre + length m)"
  using assms
proof (induction post arbitrary: raw rule: rev_induct)
  case Nil
  then have "array_get raw (length pre + length m) = Some x" by (simp add: nth_append)
  then show ?case using Nil by (subst trim_end.simps) simp
next
  case (snoc c post)
  let ?e = "length pre + length m + length post"
  have "array_get raw (Suc ?e) = Some c" using snoc.prems(1) by (simp add: nth_append)
  then have "trim_end nl raw (length pre) (Suc ?e) = trim_end nl raw (length pre) ?e"
    using snoc.prems(3) by (subst trim_end.simps) simp
  moreover have "trim_end nl raw (length pre) ?e = trim_end nl (pre @ m @ x # post) (length pre) ?e"
    using trim_end_append[of ?e "pre @ m @ x # post" nl "[c]" "length pre"] snoc.prems(1) by simp
  ultimately show ?case using snoc.IH[OF refl] snoc.prems(2,3) by simp
qed

lemma Trim_strip: "Trim raw nl = Some (strip (trim_char nl) raw)"
proof (cases "raw = []")
  case False
  let ?P = "trim_char nl" and ?k = "trim_start nl raw 0"
  have k: "drop ?k raw = dropWhile ?P raw" "?k \<le> length raw" using trim_start_spec[of 0 raw nl] by simp_all
  show ?thesis
  proof (cases "dropWhile ?P raw = []")
    case True
    then have "drop ?k raw = []" using k(1) by (simp only:)
    then have "?k = length raw" using k(2) by simp
    moreover have "trim_end nl raw (length raw) (length raw - 1) = Some (length raw - 1)"
      using False by (subst trim_end.simps) (cases raw, simp_all)
    ultimately show ?thesis using True False
      by (auto simp: Trim_def Let_def substr_def strip_def dest: set_dropWhileD)
  next
    case nonblank: False
    obtain m x post where mid: "dropWhile ?P raw = m @ x # post" "\<not> ?P x" "\<forall>c \<in> set post. ?P c"
      using split_list_last_prop[of "dropWhile ?P raw" "\<lambda>c. \<not> ?P c"] hd_dropWhile[OF nonblank] nonblank
      by (metis list.set_sel(1))
    let ?pre = "take ?k raw"
    have raw: "raw = ?pre @ m @ x # post" using mid(1) k(1) append_take_drop_id[of ?k raw] by simp
    have len: "length ?pre = ?k" using k(2) by simp
    have "length raw - 1 = length ?pre + length m + length post" using arg_cong[OF raw, of length] by simp
    then have "trim_end nl raw ?k (length raw - 1) = Some (?k + length m)"
      using trim_end_spec[OF raw mid(2,3)] len by simp
    then have "Trim raw nl = Some (m @ [x])"
      using False k(1) mid(1) by (simp add: Trim_def Let_def substr_def)
    moreover have "strip ?P raw = m @ [x]"
      using mid by (simp add: strip_def dropWhile_append)
    ultimately show ?thesis by simp
  qed
qed (simp add: Trim_def strip_def)

section \<open>Searching and replacing\<close>

lemma str_find_SomeD:
  "str_find s n pos = Some p \<Longrightarrow> pos \<le> p \<and> p \<le> length s \<and> prefix n (drop p s) \<and> (\<forall>i. pos \<le> i \<and> i < p \<longrightarrow> \<not> prefix n (drop i s))"
proof (induction s n pos rule: str_find.induct)
  case (1 s n pos)
  show ?case
  proof (cases "pos > length s \<or> prefix n (drop pos s)")
    case True
    then show ?thesis using "1.prems" by (subst (asm) str_find.simps) (auto split: if_splits)
  next
    case False
    then have "str_find s n (pos + 1) = Some p" using "1.prems" by (subst (asm) str_find.simps) auto
    then show ?thesis using "1.IH" False by (metis One_nat_def Suc_leI add.right_neutral add_Suc_right le_eq_less_or_eq less_Suc_eq_le not_less)
  qed
qed

lemma str_find_None: "str_find s n pos = None \<longleftrightarrow> (\<forall>i. pos \<le> i \<and> i \<le> length s \<longrightarrow> \<not> prefix n (drop i s))"
proof (induction s n pos rule: str_find.induct)
  case (1 s n pos)
  show ?case
  proof (cases "pos > length s \<or> prefix n (drop pos s)")
    case True
    then show ?thesis by (subst str_find.simps) auto
  next
    case False
    then have "str_find s n pos = str_find s n (pos + 1)" by (subst str_find.simps) simp
    moreover have "(pos \<le> i \<and> i \<le> length s \<longrightarrow> \<not> prefix n (drop i s)) \<longleftrightarrow> (pos + 1 \<le> i \<and> i \<le> length s \<longrightarrow> \<not> prefix n (drop i s))" for i
      using False by (cases "i = pos") auto
    ultimately show ?thesis using "1.IH" False by simp
  qed
qed

lemma str_find_SomeI:
  assumes "pos \<le> p" "p \<le> length s" "prefix n (drop p s)" "\<forall>i. pos \<le> i \<and> i < p \<longrightarrow> \<not> prefix n (drop i s)"
  shows "str_find s n pos = Some p"
proof -
  have "str_find s n pos \<noteq> None" using assms str_find_None by blast
  then obtain q where q: "str_find s n pos = Some q" by auto
  from str_find_SomeD[OF q] assms have "q = p" by (metis linorder_neqE_nat)
  with q show ?thesis by simp
qed

function replace_ref :: "string \<Rightarrow> string \<Rightarrow> string \<Rightarrow> string" where
  "replace_ref needle by' s = (if needle = [] \<or> s = [] then s
     else if prefix needle s then by' @ replace_ref needle by' (drop (length needle) s)
     else hd s # replace_ref needle by' (tl s))"
  by pat_completeness auto
termination by (relation "measure (\<lambda>(n, b, s). length s)") auto

declare replace_ref.simps [simp del]

lemma replace_ref_skip:
  assumes "needle \<noteq> []" "\<forall>i < k. \<not> prefix needle (drop i s)" "k \<le> length s"
  shows "replace_ref needle b s = take k s @ replace_ref needle b (drop k s)"
  using assms(2,3)
proof (induction k arbitrary: s)
  case (Suc k)
  then obtain c cs where s: "s = c # cs" by (cases s) auto
  have "\<forall>i < k. \<not> prefix needle (drop i cs)" using Suc.prems(1) s by fastforce
  then have "replace_ref needle b cs = take k cs @ replace_ref needle b (drop k cs)" using Suc s by simp
  moreover have "\<not> prefix needle s" using Suc.prems(1) by fastforce
  ultimately show ?case using s assms(1) by (subst replace_ref.simps) simp
qed simp

lemma replace_ref_no_match:
  assumes "needle \<noteq> []" "\<forall>i \<le> length s. \<not> prefix needle (drop i s)"
  shows "replace_ref needle b s = s"
  using replace_ref_skip[of needle "length s" s b] assms by (simp add: replace_ref.simps)

lemma no_match_inside:
  assumes "needle \<noteq> []" "hd needle \<notin> set mid" "i < length mid"
  shows "\<not> prefix needle (drop i (mid @ s))"
proof
  assume p: "prefix needle (drop i (mid @ s))"
  obtain a as where "needle = a # as" using assms(1) by (cases needle) auto
  moreover have "drop i (mid @ s) = mid ! i # drop (Suc i) (mid @ s)"
    using Cons_nth_drop_Suc[of i "mid @ s"] assms(3) by (simp add: nth_append)
  ultimately show False using p assms(2,3) by auto
qed

lemma replace_loop_ref:
  assumes needle: "needle \<noteq> []" "hd needle \<notin> set b"
  shows "hd needle \<notin> set mid \<Longrightarrow>
    replace_loop needle b (pre @ mid @ s) (length pre) = Some (pre @ mid @ replace_ref needle b s)"
proof (induction "length s" arbitrary: pre mid s rule: less_induct)
  case less
  let ?r = "pre @ mid @ s" and ?m = "length pre + length mid"
  have shift: "drop (?m + i) ?r = drop i s" for i by simp
  have inside: "\<not> prefix needle (drop i ?r)" if "length pre \<le> i" "i < ?m" for i
    using no_match_inside[OF needle(1) less.prems, of "i - length pre" s] that by simp
  show ?case
  proof (cases "str_find s needle 0")
    case None
    then have no: "\<forall>i \<le> length s. \<not> prefix needle (drop i s)" by (simp add: str_find_None)
    have "\<not> prefix needle (drop i ?r)" if "length pre \<le> i" "i \<le> length ?r" for i
      using inside[of i] no shift[of "i - ?m"] that by (cases "i < ?m") auto
    then have "str_find ?r needle (length pre) = None" by (simp add: str_find_None)
    then show ?thesis using replace_ref_no_match[OF needle(1) no] by (subst replace_loop.simps) simp
  next
    case (Some k)
    have k: "k \<le> length s" "prefix needle (drop k s)" "\<forall>i < k. \<not> prefix needle (drop i s)"
      using str_find_SomeD[OF Some] by auto
    obtain rest where rest: "drop k s = needle @ rest" using k(2) by (auto simp: prefix_def)
    have "\<not> prefix needle (drop i ?r)" if "length pre \<le> i" "i < ?m + k" for i
      using inside[of i] k(3) shift[of "i - ?m"] that by (cases "i < ?m") auto
    then have found: "str_find ?r needle (length pre) = Some (?m + k)"
      using k(1,2) by (intro str_find_SomeI) (simp_all add: shift)
    let ?pre = "pre @ mid @ take k s"
    have len: "length ?pre = ?m + k" using k(1) by simp
    have r': "take (?m + k) ?r @ b @ drop (?m + k + length needle) ?r = ?pre @ b @ rest"
      using rest k(1) by simp (metis append_eq_conv_conj add.commute drop_drop)
    have "length rest < length s" using arg_cong[OF rest, of length] needle(1) by (cases needle) auto
    then have "replace_loop needle b (?pre @ b @ rest) (length ?pre) = Some (?pre @ b @ replace_ref needle b rest)"
      using less.hyps[of rest b ?pre] needle(2) by simp
    moreover have "replace_ref needle b s = take k s @ b @ replace_ref needle b rest"
      using replace_ref_skip[OF needle(1) k(3,1)] rest needle(1) replace_ref.simps[of needle b "needle @ rest"] by simp
    ultimately show ?thesis
      using found r' len by (subst replace_loop.simps) (simp add: add.assoc)
  qed
qed


lemma replace_loop_stuck:
  assumes "replace_loop needle b s pos = Some r"
  shows "sublist needle b \<longrightarrow> \<not> (\<exists>i. pos \<le> i \<and> i \<le> length s \<and> prefix needle (drop i s))"
proof (rule replace_loop.raw_induct[where P = "\<lambda>needle b s pos r. sublist needle b \<longrightarrow>
      \<not> (\<exists>i. pos \<le> i \<and> i \<le> length s \<and> prefix needle (drop i s))", OF _ assms])
  fix rl :: "string \<Rightarrow> string \<Rightarrow> string \<Rightarrow> nat \<Rightarrow> string option" and needle b s pos r
  assume IH: "\<And>needle b s pos r. rl needle b s pos = Some r \<Longrightarrow> sublist needle b \<longrightarrow>
      \<not> (\<exists>i. pos \<le> i \<and> i \<le> length s \<and> prefix needle (drop i s))"
    and run: "(case str_find s needle pos of None \<Rightarrow> Some s
      | Some p \<Rightarrow> rl needle b (take p s @ b @ drop (p + length needle) s) p) = Some r"
  show "sublist needle b \<longrightarrow> \<not> (\<exists>i. pos \<le> i \<and> i \<le> length s \<and> prefix needle (drop i s))"
  proof (cases "str_find s needle pos")
    case None
    then show ?thesis by (auto simp: str_find_None)
  next
    case (Some p)
    have "\<not> sublist needle b"
    proof
      assume sub: "sublist needle b"
      then obtain u v where b: "b = u @ needle @ v" by (auto simp: sublist_def)
      let ?s = "take p s @ b @ drop (p + length needle) s"
      have p: "p \<le> length s" using str_find_SomeD[OF Some] by simp
      have "drop (p + length u) ?s = needle @ v @ drop (p + length needle) s" using b p by simp
      then have "\<exists>i. p \<le> i \<and> i \<le> length ?s \<and> prefix needle (drop i ?s)"
        using b p by (intro exI[of _ "p + length u"]) auto
      moreover have "rl needle b ?s p = Some r" using run Some by simp
      ultimately show False using IH sub by blast
    qed
    then show ?thesis by blast
  qed
qed

section \<open>Trimming a string and splitting at a string\<close>

lemma HasPrefix_Nil [simp]: "HasPrefix s [] ic" "HasSuffix s [] ic"
  by (simp_all add: HasPrefix_def HasSuffix_def)

lemma trim_leading_returns: "t \<noteq> [] \<Longrightarrow> \<exists>r. trim_leading t s = Some r \<and> suffix r s \<and> \<not> (HasPrefix r t True \<and> length t < length r)"
proof (induction "length s" arbitrary: s rule: less_induct)
  case less
  show ?case
  proof (cases "HasPrefix s t True \<and> length t < length s")
    case True
    then have "length (drop (length t) s) < length s" using less.prems by (cases t) auto
    from less.hyps[OF this less.prems] show ?thesis
      using True by (subst trim_leading.simps) (auto intro: suffix_order.trans suffix_drop)
  next
    case False
    then show ?thesis by (subst trim_leading.simps) auto
  qed
qed

lemma trim_trailing_returns: "t \<noteq> [] \<Longrightarrow> \<exists>r. trim_trailing t s = Some r \<and> prefix r s \<and> \<not> (HasSuffix r t True \<and> length t < length r)"
proof (induction "length s" arbitrary: s rule: less_induct)
  case less
  show ?case
  proof (cases "HasSuffix s t True \<and> length t < length s")
    case True
    then have "length (take (length s - length t) s) < length s" using less.prems by (cases t) auto
    from less.hyps[OF this less.prems] show ?thesis
      using True by (subst trim_trailing.simps) (auto intro: prefix_order.trans take_is_prefix)
  next
    case False
    then show ?thesis by (subst trim_trailing.simps) auto
  qed
qed

lemma trim_stuck: "s \<noteq> [] \<Longrightarrow> trim_leading [] s = None" "s \<noteq> [] \<Longrightarrow> trim_trailing [] s = None"
proof -
  have "t = [] \<longrightarrow> s = []" if run: "trim_leading t s = Some r" for t s r
    by (rule trim_leading.raw_induct[where P = "\<lambda>t s r. t = [] \<longrightarrow> s = []", OF _ run]) (auto split: if_splits)
  then show "s \<noteq> [] \<Longrightarrow> trim_leading [] s = None" by fastforce
  have "t = [] \<longrightarrow> s = []" if run: "trim_trailing t s = Some r" for t s r
    by (rule trim_trailing.raw_induct[where P = "\<lambda>t s r. t = [] \<longrightarrow> s = []", OF _ run]) (auto split: if_splits)
  then show "s \<noteq> [] \<Longrightarrow> trim_trailing [] s = None" by fastforce
qed

lemma split_multi_loop_join:
  assumes "delim \<noteq> []" "pos \<le> length s"
  shows "\<exists>ys. split_multi_loop s delim pos res = Some (res @ ys) \<and> ys \<noteq> [] \<and> JoinStrings ys delim = drop pos s \<and>
     (\<forall>y \<in> set ys. \<not> sublist delim y)"
  using assms(2)
proof (induction "length s - pos" arbitrary: pos res rule: less_induct)
  case less
  show ?case
  proof (cases "str_find s delim pos")
    case None
    then have no: "\<forall>i. pos \<le> i \<and> i \<le> length s \<longrightarrow> \<not> prefix delim (drop i s)" by (simp add: str_find_None)
    have "\<not> sublist delim (drop pos s)"
    proof
      assume "sublist delim (drop pos s)"
      then obtain u v where uv: "drop pos s = u @ delim @ v" by (auto simp: sublist_def)
      then have "drop (pos + length u) s = delim @ v" by (metis add.commute append_eq_conv_conj drop_drop)
      moreover have "pos + length u \<le> length s" using arg_cong[OF uv, of length] less.prems by simp
      ultimately show False using no[rule_format, of "pos + length u"] by simp
    qed
    then show ?thesis using None by (subst split_multi_loop.simps) auto
  next
    case (Some p)
    have p: "pos \<le> p" "p \<le> length s" "prefix delim (drop p s)" "\<forall>i. pos \<le> i \<and> i < p \<longrightarrow> \<not> prefix delim (drop i s)"
      using str_find_SomeD[OF Some] by auto
    obtain rest where rest: "drop p s = delim @ rest" using p(3) by (auto simp: prefix_def)
    have lenp: "p + length delim \<le> length s" using arg_cong[OF rest, of length] p(2) by simp
    have rest': "rest = drop (p + length delim) s" using rest by (metis add.commute append_eq_conv_conj drop_drop)
    let ?ch = "substr s pos (p - pos)"
    have parts: "drop pos s = ?ch @ delim @ rest"
      using p(1) rest append_take_drop_id[of "p - pos" "drop pos s"] by (simp add: substr_def)
    have ch: "\<not> sublist delim ?ch"
    proof
      assume "sublist delim ?ch"
      then obtain u v where uv: "?ch = u @ delim @ v" by (auto simp: sublist_def)
      have "length u < p - pos" using arg_cong[OF uv, of length] assms(1) p(1,2) by (cases delim) (auto simp: substr_def)
      moreover have "drop (pos + length u) s = delim @ v @ delim @ rest"
        using parts uv by (metis add.commute append.assoc append_eq_conv_conj drop_drop)
      ultimately show False using p(4)[rule_format, of "pos + length u"] by (simp; linarith)
    qed
    have "length s - (p + length delim) < length s - pos" using assms(1) p(1) lenp by (cases delim) auto
    from less.hyps[OF this lenp, of "res @ [?ch]"]
    obtain ys where ys: "split_multi_loop s delim (p + length delim) (res @ [?ch]) = Some ((res @ [?ch]) @ ys)" "ys \<noteq> []"
      "JoinStrings ys delim = rest" "\<forall>y \<in> set ys. \<not> sublist delim y" using rest' by auto
    then show ?thesis using Some parts ch
      by (subst split_multi_loop.simps) (auto simp: JoinStrings_Cons intro!: exI[of _ "?ch # ys"])
  qed
qed

section \<open>Properties\<close>

text \<open>
  C24.  Base64 round trip: \<open>Base64\<close> and \<open>Base64Url\<close> encode every byte string whose text is shorter than \<open>2 ^ 32\<close> bytes (the
  positions are 32-bit numbers), and decoding either text gives the bytes back.
\<close>

theorem Base64_round_trip:
  assumes "4 * ((length data + 2) div 3) < 2 ^ 32"
  shows "\<exists>text_std text_url. Base64 data = Some text_std \<and> Debase64 text_std = Some data \<and>
    Base64Url data = Some text_url \<and> Debase64 text_url = Some data"
proof -
  have "length data < 2 ^ 32 - 2" using assms by simp
  then have b: "Base64 data = Some (base64_blocks data)" by (rule Base64_eq)
  have l: "length (base64_blocks data) < 2 ^ 32" using assms by (simp add: base64_blocks_length)
  then have "Base64Url data = Some (map url_char (base64_blocks data))" using b by (simp add: Base64Url_def u32_def)
  then show ?thesis using b Debase64_blocks[OF l] by (simp add: Debase64_url)
qed

theorem Base64_round_trip_witness:
  "\<exists>text_std text_url. Base64 ''cvmfs'' = Some text_std \<and> Debase64 text_std = Some ''cvmfs'' \<and>
    Base64Url ''cvmfs'' = Some text_url \<and> Debase64 text_url = Some ''cvmfs''"
  using Base64_round_trip[of "''cvmfs''"] by simp

text \<open>
  C25.  Splitting and joining are inverse: joining the chunks of \<open>SplitStringBounded\<close> gives the string
  back, there are at most \<open>max_chunks\<close> chunks (if it is not zero) and only the last one of a full set
  can contain the delimiter; and splitting the join of chunks without delimiter gives the chunks.
\<close>

theorem split_join_round_trip:
  assumes "xs \<noteq> []" "\<forall>x \<in> set xs. d \<notin> set x"
  shows "SplitString (JoinStrings xs [d]) d = xs \<and>
     (let ys = SplitStringBounded max_chunks s d in
        JoinStrings ys [d] = s \<and> (max_chunks \<noteq> 0 \<longrightarrow> length ys \<le> max_chunks) \<and>
        (\<forall>y \<in> set (butlast ys). d \<notin> set y) \<and> (d \<in> set (last ys) \<longrightarrow> length ys = max_chunks))"
  using SplitString_JoinStrings[OF assms] SplitStringBounded_spec[of max_chunks d s] by (auto simp: split_ok_def Let_def)

theorem split_join_round_trip_witness:
  "SplitString (JoinStrings [''ab'', [], ''c''] [CHR '':'']) (CHR '':'') = [''ab'', [], ''c''] \<and>
   JoinStrings (SplitStringBounded 2 ''a:b:c'' (CHR '':'')) [CHR '':''] = ''a:b:c''"
  using split_join_round_trip[of "[''ab'', [], ''c'']" "CHR '':''" 2 "''a:b:c''"] by (simp add: Let_def)

text \<open>
  Printed numbers are read back: \<open>String2Int64\<close> inverts \<open>StringifyInt\<close> on 64-bit signed integers,
  \<open>String2Uint64\<close> inverts \<open>StringifyUint\<close> on 64-bit unsigned integers, and \<open>String2Uint64Parse\<close>, which
  goes through \<open>strtoll\<close>, accepts a printed number exactly if it is below $2^{63}$.
\<close>

theorem number_round_trip:
  assumes "int64_min \<le> v" "v \<le> int64_max" "n < 2 ^ 64"
  shows "String2Int64 (StringifyInt v) = Some v \<and> String2Uint64 (StringifyUint n) = n \<and>
     String2Uint64Parse (StringifyUint n) = (if n < 2 ^ 63 then Some n else None)"
  using String2Int64_StringifyInt[OF assms(1,2)] String2Uint64_StringifyUint[OF assms(3)]
    String2Uint64Parse_StringifyUint[of n] by simp

theorem number_round_trip_witness:
  "String2Int64 (StringifyInt (- 42)) = Some (- 42) \<and> String2Uint64 (StringifyUint (2 ^ 63)) = 2 ^ 63 \<and>
   String2Uint64Parse (StringifyUint (2 ^ 63)) = None"
  using number_round_trip[of "- 42" "2 ^ 63"] by (simp add: int64_min_def int64_max_def)

text \<open>
  \<open>String2Uint64Parse\<close> is strict: what it accepts is white space, at most one sign and digits up to
  the end of the string; the result is the value of the digits, it is below $2^{63}$, and a minus
  sign is accepted only in front of zero.
\<close>

theorem String2Uint64Parse_strict:
  assumes "String2Uint64Parse s = Some n"
  shows "n < 2 ^ 63 \<and> (\<exists>sp sg ds. s = sp @ sg @ ds \<and> (\<forall>c \<in> set sp. isspace c) \<and> sg \<in> {[], ''-'', ''+''} \<and>
     (\<forall>c \<in> set ds. isdigit c) \<and> ds \<noteq> [] \<and> n = digits_value ds \<and> (sg = ''-'' \<longrightarrow> n = 0))"
  by (rule String2Uint64Parse_SomeD[OF assms])

theorem String2Uint64Parse_strict_witness:
  "String2Uint64Parse ''12'' = Some 12 \<and> (12::nat) < 2 ^ 63"
proof -
  have "String2Uint64Parse ''12'' = Some 12"
    by (simp add: String2Uint64Parse_def strtoll_def scan_number_def isspace_def isdigit_def digits_value_def Let_def
        int64_max_def int64_min_def)
  with String2Uint64Parse_strict[OF this] show ?thesis by blast
qed

text \<open>
  C26.  \<open>ParseKeyvalMem\<close> reads complete lines: on a text of lines it applies the line rule to the lines
  before the first \<open>--\<close>, in order, and ignores everything after it as well as an unfinished last line.
\<close>

theorem ParseKeyvalMem_reads_lines:
  assumes "\<forall>l \<in> set ls. newline \<notin> set l" "newline \<notin> set unfinished"
  shows "ParseKeyvalMem (unlines ls @ unfinished) content = fold keyval_line (takeWhile (\<lambda>l. l \<noteq> ''--'') ls) content"
  by (rule ParseKeyvalMem_lines[OF assms])

theorem ParseKeyvalMem_reads_lines_witness:
  "ParseKeyvalMem (unlines [''Cabc'', ''Zx'', ''Zy'', ''--'', ''B1''] @ ''S2'') Map.empty =
   [CHR ''C'' \<mapsto> ''abc'', CHR ''Z'' \<mapsto> ''x|y'']"
  using ParseKeyvalMem_reads_lines[of "[''Cabc'', ''Zx'', ''Zy'', ''--'', ''B1'']" "''S2''" Map.empty]
  by (simp add: keyval_line_def Let_def)

text \<open>
  \<open>Trim\<close> removes exactly the leading and trailing white space; the countdown of its unsigned end
  position never wraps around.
\<close>

theorem Trim_strips: "Trim raw trim_newline = Some (strip (trim_char trim_newline) raw)"
  by (rule Trim_strip)

text \<open>
  C33.  \<open>TrimString\<close> fails to return exactly if it is asked to trim the empty string off one or both ends of
  a non-empty path: then its loop never ends.
\<close>

theorem TrimString_returns_iff:
  "TrimString path toTrim leading trailing = None \<longleftrightarrow> toTrim = [] \<and> path \<noteq> [] \<and> (leading \<or> trailing)"
proof (cases "toTrim = []")
  case True
  then show ?thesis using trim_stuck[of path] by (cases leading; cases trailing; cases "path = []") (simp_all add: TrimString_def)
next
  case False
  obtain t1 where t1: "trim_leading toTrim path = Some t1" using trim_leading_returns[OF False] by blast
  have "\<exists>r. trim_trailing toTrim s = Some r" for s using trim_trailing_returns[OF False] by blast
  then show ?thesis using t1 False by (cases leading; cases trailing) (auto simp: TrimString_def)
qed

text \<open>
  C32.  \<open>ReplaceAll\<close>, when the first character of the needle does not occur in the replacement, returns
  the text in which the occurrences of the needle, from left to right, are replaced.
\<close>

theorem ReplaceAll_replaces:
  assumes "needle \<noteq> []" "hd needle \<notin> set replace_by"
  shows "ReplaceAll haystack needle replace_by = Some (replace_ref needle replace_by haystack)"
  using replace_loop_ref[OF assms, of "[]" "[]" haystack] assms(1) by (simp add: ReplaceAll_def)

theorem ReplaceAll_replaces_witness:
  "ReplaceAll ''a@x@@x@b'' ''@x@'' ''yz'' = Some ''ayzyzb''"
  using ReplaceAll_replaces[of "''@x@''" "''yz''" "''a@x@@x@b''"] by (simp add: replace_ref.simps)

text \<open>
  C37.  \<open>ReplaceAll\<close> does not skip what it has inserted: if the replacement contains the needle and the
  needle occurs in the text, the loop never ends.
\<close>

theorem ReplaceAll_diverges:
  assumes "needle \<noteq> []" "sublist needle replace_by" "sublist needle haystack"
  shows "ReplaceAll haystack needle replace_by = None"
proof (rule ccontr)
  assume "ReplaceAll haystack needle replace_by \<noteq> None"
  then obtain r where run: "replace_loop needle replace_by haystack 0 = Some r"
    using assms(1) by (auto simp: ReplaceAll_def)
  obtain u v where "haystack = u @ needle @ v" using assms(3) by (auto simp: sublist_def)
  then have "length u \<le> length haystack \<and> prefix needle (drop (length u) haystack)" by simp
  then show False using replace_loop_stuck[OF run] assms(2) by blast
qed

theorem ReplaceAll_diverges_witness: "ReplaceAll ''a/b'' ''/'' ''//'' = None"
  using ReplaceAll_diverges[of "''/''" "''//''" "''a/b''"] by (simp add: sublist_code)

end
