(* ===== verification/Bytes.thy ===== *)
theory Bytes
  imports Prelude
begin

text \<open>
  Raw memory: an area of bytes with checked reads and writes of ranges, and the little-endian
  representation of integers in it.
\<close>

section \<open>Ranges of bytes\<close>

definition mem_read :: "'b list \<Rightarrow> nat \<Rightarrow> nat \<Rightarrow> 'b list option" where
  "mem_read mem p n = (if p + n \<le> length mem then Some (take n (drop p mem)) else None)"

definition mem_write :: "'b list \<Rightarrow> nat \<Rightarrow> 'b list \<Rightarrow> 'b list option" where
  "mem_write mem p bs = (if p + length bs \<le> length mem then Some (take p mem @ bs @ drop (p + length bs) mem) else None)"

lemma mem_read_at: "p = length xs \<Longrightarrow> n = length ys \<Longrightarrow> mem_read (xs @ ys @ zs) p n = Some ys"
  by (simp add: mem_read_def)

lemma mem_write_at: "p = length xs \<Longrightarrow> length ys' = length ys \<Longrightarrow> mem_write (xs @ ys @ zs) p ys' = Some (xs @ ys' @ zs)"
  by (simp add: mem_write_def)

lemma mem_write_length: "mem_write mem p bs = Some mem' \<Longrightarrow> length mem' = length mem"
  by (auto simp: mem_write_def split: if_splits)

lemma mem_read_length: "mem_read mem p n = Some bs \<Longrightarrow> length bs = n"
  by (auto simp: mem_read_def split: if_splits)

lemma mem_read_prefix:
  assumes "mem_read mem p n = Some (xs @ ys)"
  shows "mem_read mem p (length xs) = Some xs"
proof -
  have "take n (drop p mem) = xs @ ys" "p + n \<le> length mem" using assms by (auto simp: mem_read_def split: if_splits)
  moreover from this have "length (xs @ ys) = n" by (metis diff_diff_left length_drop length_take min.absorb2 nat_add_left_cancel_le le_diff_conv2 add_leD1 add.commute)
  ultimately show ?thesis
    by (simp add: mem_read_def) (metis append_eq_conv_conj le_add1 min.absorb1 take_take)
qed

lemma mem_split: "p + n \<le> length mem \<Longrightarrow> \<exists>xs ys zs. mem = xs @ ys @ zs \<and> length xs = p \<and> length ys = n"
  by (rule exI[of _ "take p mem"], rule exI[of _ "take n (drop p mem)"], rule exI[of _ "drop (p + n) mem"])
    (simp add: add.commute flip: drop_drop)

section \<open>Little-endian integers\<close>

fun le_bytes :: "nat \<Rightarrow> nat \<Rightarrow> nat list" where
  "le_bytes 0 n = []"
| "le_bytes (Suc k) n = n mod 256 # le_bytes k (n div 256)"

fun le_value :: "nat list \<Rightarrow> nat" where
  "le_value [] = 0"
| "le_value (b # bs) = b + 256 * le_value bs"

lemma le_value_bytes: "n < 256 ^ k \<Longrightarrow> le_value (le_bytes k n) = n"
  by (induction k arbitrary: n) (auto simp: less_mult_imp_div_less mult.commute)

lemma le_bytes_length [simp]: "length (le_bytes k n) = k"
  by (induction k arbitrary: n) auto

text \<open>Signed 64-bit values, in two's complement.\<close>

definition s64 :: "nat \<Rightarrow> int" where
  "s64 n = (if n < 2 ^ 63 then int n else int n - 2 ^ 64)"

definition enc_s64 :: "int \<Rightarrow> nat list" where
  "enc_s64 x = le_bytes 8 (nat (x mod 2 ^ 64))"

definition dec_s64 :: "nat list \<Rightarrow> int" where
  "dec_s64 bs = s64 (le_value bs)"

lemma enc_s64_length [simp]: "length (enc_s64 x) = 8"
  by (simp add: enc_s64_def)

lemma dec_enc_s64: "- (2 ^ 63) \<le> x \<Longrightarrow> x < 2 ^ 63 \<Longrightarrow> dec_s64 (enc_s64 x) = x"
proof -
  assume x: "- (2 ^ 63) \<le> x" "x < 2 ^ 63"
  have m: "nat (x mod 2 ^ 64) < 256 ^ 8" by (simp add: nat_less_iff)
  have "x mod 2 ^ 64 = (if x < 0 then x + 2 ^ 64 else x)"
    using x mod_pos_pos_trivial[of "x + 2 ^ 64" "2 ^ 64"] by auto
  then show ?thesis using x m by (auto simp: dec_s64_def enc_s64_def le_value_bytes s64_def)
qed

end
