(* ===== verification/Shash.thy ===== *)
theory Shash
  imports StringUtil Prng Bytes
begin

text \<open>
  Content hashes: \<^verbatim>\<open>cvmfs/crypto/hash.h\<close> and the text conversions, HMAC and digest casts of
  \<^verbatim>\<open>cvmfs/crypto/hash.cc\<close>.

  The bytes of a digest are numbers below 256.  The record keeps the bytes that the algorithm uses
  (\<open>kDigestSizes\<close>); the unused tail of the buffer of an \<open>Any\<close> is never read.  The hash functions come
  from the Nettle library: \<open>Hmac\<close> takes them as an argument.  Multi-byte integers are little endian.
\<close>

section \<open>Algorithms and digests\<close>

datatype Algorithms = kMd5 | kSha1 | kRmd160 | kShake128 | kAny

definition alg_index :: "Algorithms \<Rightarrow> nat" where
  "alg_index a = (case a of kMd5 \<Rightarrow> 0 | kSha1 \<Rightarrow> 1 | kRmd160 \<Rightarrow> 2 | kShake128 \<Rightarrow> 3 | kAny \<Rightarrow> 4)"

definition kDigestSizes :: "nat list" where
  "kDigestSizes = [16, 20, 20, 20, 20]"

definition kAlgorithmIds :: "string list" where
  "kAlgorithmIds = [[], [], ''-rmd160'', ''-shake128'', []]"

definition kAlgorithmIdSizes :: "nat list" where
  "kAlgorithmIdSizes = [0, 0, 7, 9, 0]"

definition kBlockSizes :: "nat list" where
  "kBlockSizes = [64, 64, 64, 168]"

abbreviation digest_size :: "Algorithms \<Rightarrow> nat" where
  "digest_size a \<equiv> kDigestSizes ! alg_index a"

abbreviation algo_id_size :: "Algorithms \<Rightarrow> nat" where
  "algo_id_size a \<equiv> kAlgorithmIdSizes ! alg_index a"

abbreviation algo_id :: "Algorithms \<Rightarrow> string" where
  "algo_id a \<equiv> kAlgorithmIds ! alg_index a"

abbreviation kSuffixNone :: char where
  "kSuffixNone \<equiv> CHR 0x00"

record digest =
  bytes :: "nat list"
  algorithm :: Algorithms
  suffix :: char

definition HasSuffix_digest :: "digest \<Rightarrow> bool" where
  "HasSuffix_digest d = (suffix d \<noteq> kSuffixNone)"

definition Any_new :: "Algorithms \<Rightarrow> char \<Rightarrow> digest" where
  "Any_new a s = \<lparr>bytes = replicate (digest_size a) 0, algorithm = a, suffix = s\<rparr>"

section \<open>Printing\<close>

definition ToHex :: "nat \<Rightarrow> char" where
  "ToHex c = char_of (c + (if c \<le> 9 then 48 else 97 - 10))"

definition hash_length :: "digest \<Rightarrow> nat" where
  "hash_length d = 2 * digest_size (algorithm d)"

definition hex_length :: "digest \<Rightarrow> nat" where
  "hex_length d = hash_length d + algo_id_size (algorithm d)"

definition GetHashChar :: "digest \<Rightarrow> nat \<Rightarrow> char" where
  "GetHashChar d position =
     ToHex (if position mod 2 = 0 then bytes d ! (position div 2) div 16 else bytes d ! (position div 2) mod 16)"

definition hex_at :: "digest \<Rightarrow> nat \<Rightarrow> char" where
  "hex_at d position = (if position < hash_length d then GetHashChar d position
     else algo_id (algorithm d) ! (position - hash_length d))"

definition ToString :: "digest \<Rightarrow> bool \<Rightarrow> string" where
  "ToString d with_suffix = map (hex_at d) [0..<hex_length d] @
     (if with_suffix \<and> HasSuffix_digest d then [suffix d] else [])"

definition ToStringWithSuffix :: "digest \<Rightarrow> string" where
  "ToStringWithSuffix d = ToString d True"

text \<open>The colon-separated upper case form; the result string is allocated first and then filled.\<close>

definition ToFingerprint :: "digest \<Rightarrow> bool \<Rightarrow> string option" where
  "ToFingerprint d with_suffix = do {
     let use_suffix = with_suffix \<and> HasSuffix_digest d;
     let string_length = hex_length d + digest_size (algorithm d) - 1 + (if use_suffix then 1 else 0);
     let chars = concat (map (\<lambda>hex_i. toupper (hex_at d hex_i) #
           (if hex_i < 2 * digest_size (algorithm d) - 1 \<and> hex_i mod 2 = 1 then '':'' else [])) [0..<hex_length d]);
     assert_that (length chars \<le> string_length);
     let result = chars @ replicate (string_length - length chars) (CHR 0x00);
     Some (if use_suffix then result[string_length - 1 := suffix d] else result)
   }"

definition MakePathExplicit :: "digest \<Rightarrow> nat \<Rightarrow> nat \<Rightarrow> char \<Rightarrow> string option" where
  "MakePathExplicit d dir_levels digits_per_level hash_suffix = do {
     let use_suffix = (hash_suffix \<noteq> kSuffixNone);
     let string_length = hex_length d + dir_levels + (if use_suffix then 1 else 0);
     assert_that (digits_per_level > 0);
     let result = concat (map (\<lambda>i. (if i > 0 \<and> i mod digits_per_level = 0 \<and> i div digits_per_level \<le> dir_levels
           then ''/'' else []) @ [hex_at d i]) [0..<hex_length d]) @ (if use_suffix then [hash_suffix] else []);
     assert_that (length result = string_length);
     Some result
   }"

definition MakePath :: "digest \<Rightarrow> string option" where
  "MakePath d = MakePathExplicit d 1 2 (suffix d)"

definition MakePathWithoutSuffix :: "digest \<Rightarrow> string option" where
  "MakePathWithoutSuffix d = MakePathExplicit d 1 2 kSuffixNone"

definition MakeAlternativePath :: "digest \<Rightarrow> string" where
  "MakeAlternativePath d = ''.cvmfsalt-'' @ ToStringWithSuffix d"

section \<open>Parsing\<close>

text \<open>A \<open>char\<close> is signed: comparisons and arithmetic see the bytes from 128 on as negative numbers.\<close>

definition schar :: "char \<Rightarrow> int" where
  "schar c = (let n = (of_char c :: nat) in if n < 128 then int n else int n - 256)"

definition hex_digit :: "char \<Rightarrow> int" where
  "hex_digit c = (if schar c \<le> 57 then schar c - 48 else schar c - 97 + 10)"

definition Any_hex :: "Algorithms \<Rightarrow> string \<Rightarrow> char \<Rightarrow> digest option" where
  "Any_hex a str s = do {
     let char_size = 2 * digest_size a;
     assert_that (length str \<ge> char_size);
     Some \<lparr>bytes = map (\<lambda>i. nat ((hex_digit (str ! (2 * i)) * 16 + hex_digit (str ! (2 * i + 1))) mod 256)) [0..<digest_size a],
           algorithm = a, suffix = s\<rparr>
   }"

fun hex_scan :: "string \<Rightarrow> nat \<Rightarrow> nat option" where
  "hex_scan [] i = Some i"
| "hex_scan (c # cs) i = (if c = CHR ''-'' then Some i
     else if schar c < 48 \<or> schar c > 102 \<or> (schar c > 57 \<and> schar c < 97) then None
     else hex_scan cs (i + 1))"

text \<open>\<open>IsValid\<close>: the hash part is scanned, then the algorithm identifiers of that length are compared.\<close>

function id_scan :: "string \<Rightarrow> Algorithms \<Rightarrow> nat \<Rightarrow> nat \<Rightarrow> nat" where
  "id_scan str a hex_len i =
     (if i < length str \<and> i - hex_len < algo_id_size a then
        if str ! i \<noteq> algo_id a ! (i - hex_len) then i else id_scan str a hex_len (i + 1)
      else i)"
  by pat_completeness auto
termination by (relation "measure (\<lambda>(s, a, h, i). length s - i)") auto

declare id_scan.simps [simp del]

definition IsValid_hex :: "string \<Rightarrow> bool" where
  "IsValid_hex str = (if length str = 0 then False else (case hex_scan str 0 of None \<Rightarrow> False
     | Some i \<Rightarrow> list_ex (\<lambda>a. i = 2 * digest_size a \<and> id_scan str a (2 * digest_size a) i = length str \<and>
           length str = 2 * digest_size a + algo_id_size a) [kMd5, kSha1, kRmd160, kShake128]))"

definition ParseHashAlgorithm :: "string \<Rightarrow> Algorithms" where
  "ParseHashAlgorithm algorithm_option = (if algorithm_option = ''sha1'' then kSha1
     else if algorithm_option = ''rmd160'' then kRmd160
     else if algorithm_option = ''shake128'' then kShake128 else kAny)"

text \<open>One \<open>if\<close> statement of \<open>MkFromHexPtr\<close>; a later one overwrites the result of an earlier one.\<close>

definition take_hex :: "bool \<Rightarrow> Algorithms \<Rightarrow> string \<Rightarrow> char \<Rightarrow> digest \<Rightarrow> digest option" where
  "take_hex cond a str s result = (if cond then Any_hex a str s else Some result)"

definition MkFromHexPtr :: "string \<Rightarrow> char \<Rightarrow> digest option" where
  "MkFromHexPtr str s = do {
     r1 \<leftarrow> take_hex (length str = 2 * digest_size kMd5) kMd5 str kSuffixNone (Any_new kAny kSuffixNone);
     r2 \<leftarrow> take_hex (length str = 2 * digest_size kSha1) kSha1 str kSuffixNone r1;
     r3 \<leftarrow> take_hex (length str = 2 * digest_size kRmd160 + algo_id_size kRmd160) kRmd160 str kSuffixNone r2;
     r4 \<leftarrow> take_hex (length str = 2 * digest_size kShake128 + algo_id_size kShake128) kShake128 str kSuffixNone r3;
     Some (r4\<lparr>suffix := s\<rparr>)
   }"

definition take_suffixed_hex :: "Algorithms \<Rightarrow> string \<Rightarrow> digest \<Rightarrow> digest option" where
  "take_suffixed_hex a str result = (let n = 2 * digest_size a + algo_id_size a in
     if length str = n \<or> length str = n + 1
     then Any_hex a str (if length str = n + 1 then last str else kSuffixNone) else Some result)"

definition MkFromSuffixedHexPtr :: "string \<Rightarrow> digest option" where
  "MkFromSuffixedHexPtr str = do {
     r1 \<leftarrow> take_suffixed_hex kMd5 str (Any_new kAny kSuffixNone);
     r2 \<leftarrow> take_suffixed_hex kSha1 str r1;
     r3 \<leftarrow> take_suffixed_hex kRmd160 str r2;
     take_suffixed_hex kShake128 str r3
   }"

section \<open>Comparison\<close>

definition IsNull :: "digest \<Rightarrow> bool" where
  "IsNull d = list_all (\<lambda>i. bytes d ! i = 0) [0..<digest_size (algorithm d)]"

definition digest_eq :: "digest \<Rightarrow> digest \<Rightarrow> bool" where
  "digest_eq d e = (if algorithm d \<noteq> algorithm e then False
     else list_all (\<lambda>i. bytes d ! i = bytes e ! i) [0..<digest_size (algorithm d)])"

fun lt_loop :: "nat list \<Rightarrow> nat list \<Rightarrow> nat list \<Rightarrow> bool" where
  "lt_loop xs ys [] = False"
| "lt_loop xs ys (i # is) = (if xs ! i > ys ! i then False else if xs ! i < ys ! i then True else lt_loop xs ys is)"

definition digest_lt :: "digest \<Rightarrow> digest \<Rightarrow> bool" where
  "digest_lt d e = (if algorithm d \<noteq> algorithm e then alg_index (algorithm d) < alg_index (algorithm e)
     else lt_loop (bytes d) (bytes e) [0..<digest_size (algorithm d)])"

fun gt_loop :: "nat list \<Rightarrow> nat list \<Rightarrow> nat list \<Rightarrow> bool" where
  "gt_loop xs ys [] = False"
| "gt_loop xs ys (i # is) = (if xs ! i < ys ! i then False else if xs ! i > ys ! i then True else gt_loop xs ys is)"

definition digest_gt :: "digest \<Rightarrow> digest \<Rightarrow> bool" where
  "digest_gt d e = (if algorithm d \<noteq> algorithm e then alg_index (algorithm d) > alg_index (algorithm e)
     else gt_loop (bytes d) (bytes e) [0..<digest_size (algorithm d)])"

definition Partial32 :: "digest \<Rightarrow> nat" where
  "Partial32 d = bytes d ! 0 * 2 ^ 24 + bytes d ! 1 * 2 ^ 16 + bytes d ! 2 * 2 ^ 8 + bytes d ! 3"

fun randomize_loop :: "nat \<Rightarrow> prng \<Rightarrow> nat list \<times> prng" where
  "randomize_loop 0 p = ([], p)"
| "randomize_loop (Suc n) p = (case Next 256 p of (b, p1) \<Rightarrow> case randomize_loop n p1 of (bs, p2) \<Rightarrow> (b # bs, p2))"

definition Randomize :: "digest \<Rightarrow> prng \<Rightarrow> digest \<times> prng" where
  "Randomize d p = (case randomize_loop (digest_size (algorithm d)) p of (bs, p') \<Rightarrow> (d\<lparr>bytes := bs\<rparr>, p'))"

section \<open>Short digests, MD5 as two integers\<close>

definition short_digest_size :: nat where
  "short_digest_size = 20 div 4"

definition Short_ToString :: "digest \<Rightarrow> bool \<Rightarrow> string option" where
  "Short_ToString d with_suffix = do {
     let hex_size = 2 * short_digest_size + algo_id_size (algorithm d);
     assert_that (hex_size \<le> hex_length d);
     Some (map (hex_at d) [0..<hex_size] @ (if with_suffix \<and> HasSuffix_digest d then [suffix d] else []))
   }"

definition Collide :: "digest \<Rightarrow> digest \<Rightarrow> bool" where
  "Collide s other = (if algorithm s \<noteq> algorithm other then False
     else list_all (\<lambda>i. bytes s ! i = bytes other ! i) [0..<short_digest_size])"

definition Md5_of_pair :: "nat \<Rightarrow> nat \<Rightarrow> digest" where
  "Md5_of_pair lo hi = \<lparr>bytes = le_bytes 8 lo @ le_bytes 8 hi, algorithm = kMd5, suffix = kSuffixNone\<rparr>"

definition ToIntPair :: "digest \<Rightarrow> nat \<times> nat" where
  "ToIntPair d = (le_value (take 8 (bytes d)), le_value (take 8 (drop 8 (bytes d))))"

definition CastToMd5 :: "digest \<Rightarrow> digest option" where
  "CastToMd5 d = do {
     assert_that (algorithm d = kMd5);
     Some \<lparr>bytes = take (digest_size kMd5) (bytes d), algorithm = kMd5, suffix = kSuffixNone\<rparr>
   }"

section \<open>HMAC\<close>

text \<open>\<open>H a m\<close> is the digest, under algorithm \<open>a\<close>, of the concatenation of all updates \<open>m\<close>.\<close>

type_synonym hash_fn = "Algorithms \<Rightarrow> nat list \<Rightarrow> nat list"

definition HashMem :: "hash_fn \<Rightarrow> nat list \<Rightarrow> digest \<Rightarrow> digest" where
  "HashMem H buffer d = d\<lparr>bytes := H (algorithm d) buffer\<rparr>"

definition key_block :: "nat \<Rightarrow> (nat list \<Rightarrow> nat list) \<Rightarrow> nat list \<Rightarrow> nat list" where
  "key_block block_size h key = (let k = (if length key > block_size then h key else key)
     in k @ replicate (block_size - length k) 0)"

definition Hmac :: "hash_fn \<Rightarrow> nat list \<Rightarrow> nat list \<Rightarrow> digest \<Rightarrow> digest option" where
  "Hmac H key buffer any_digest = do {
     let a = algorithm any_digest;
     assert_that (a \<noteq> kAny);
     let kb = key_block (kBlockSizes ! alg_index a) (H a) key;
     let hash_inner = H a (map (\<lambda>b. b XOR 0x36) kb @ buffer);
     Some (any_digest\<lparr>bytes := H a (map (\<lambda>b. b XOR 0x5c) kb @ hash_inner)\<rparr>)
   }"

definition HexFromSha256 :: "nat list \<Rightarrow> string" where
  "HexFromSha256 dg = concat (map (\<lambda>b. [ToHex (b div 16), ToHex (b mod 16)]) dg)"

definition Hmac256 :: "(nat list \<Rightarrow> nat list) \<Rightarrow> nat list \<Rightarrow> nat list \<Rightarrow> bool \<Rightarrow> string" where
  "Hmac256 sha256 key content raw_output = (let
     kb = key_block 64 sha256 key;
     digest_inner = sha256 (map (\<lambda>b. b XOR 0x36) kb @ content);
     dg = sha256 (map (\<lambda>b. b XOR 0x5c) kb @ digest_inner)
   in if raw_output then map char_of dg else HexFromSha256 dg)"

section \<open>Hexadecimal digits\<close>

definition hexc :: "char \<Rightarrow> bool" where
  "hexc c \<longleftrightarrow> (48 \<le> schar c \<and> schar c \<le> 57) \<or> (97 \<le> schar c \<and> schar c \<le> 102)"

lemma ToHex_digit:
  assumes "n < 16"
  shows "hex_digit (ToHex n) = int n" "hexc (ToHex n)"
proof -
  have "list_all (\<lambda>n. hex_digit (ToHex n) = int n \<and> hexc (ToHex n)) [0..<16]"
    by (simp add: upt_rec ToHex_def hex_digit_def schar_def hexc_def of_char_of Let_def)
  then show "hex_digit (ToHex n) = int n" "hexc (ToHex n)"
    using assms by (simp_all add: list_all_iff)
qed

lemma hexc_value:
  assumes "hexc c"
  shows "0 \<le> hex_digit c" "hex_digit c < 16" "ToHex (nat (hex_digit c)) = c" "c \<noteq> CHR ''-''"
proof -
  define n where "n = (of_char c :: nat)"
  have c: "c = char_of n" by (simp add: n_def)
  have n: "n < 256" by (simp add: n_def)
  have s: "schar c = int n" "n < 128" using assms n by (auto simp: hexc_def schar_def n_def[symmetric] Let_def split: if_splits)
  have r: "(48 \<le> n \<and> n \<le> 57) \<or> (97 \<le> n \<and> n \<le> 102)" using assms s by (auto simp: hexc_def)
  then show "0 \<le> hex_digit c" "hex_digit c < 16" using s by (auto simp: hex_digit_def)
  have "nat (hex_digit c) = (if n \<le> 57 then n - 48 else n - 87)" using s r by (auto simp: hex_digit_def)
  then show "ToHex (nat (hex_digit c)) = c" using r by (auto simp: ToHex_def c)
  show "c \<noteq> CHR ''-''" using r by (auto simp: n_def)
qed

section \<open>Sizes\<close>

lemma size_simps [simp]:
  "digest_size kMd5 = 16" "digest_size kSha1 = 20" "digest_size kRmd160 = 20" "digest_size kShake128 = 20" "digest_size kAny = 20"
  "algo_id_size kMd5 = 0" "algo_id_size kSha1 = 0" "algo_id_size kRmd160 = 7" "algo_id_size kShake128 = 9" "algo_id_size kAny = 0"
  by (simp_all add: kDigestSizes_def kAlgorithmIdSizes_def alg_index_def)

lemma algo_id_length [simp]: "length (algo_id a) = algo_id_size a"
  by (cases a) (simp_all add: kAlgorithmIds_def kAlgorithmIdSizes_def alg_index_def)

lemma algo_id_dash: "algo_id a \<noteq> [] \<Longrightarrow> hd (algo_id a) = CHR ''-''"
  by (cases a) (simp_all add: kAlgorithmIds_def alg_index_def)

definition digest_ok :: "digest \<Rightarrow> bool" where
  "digest_ok d \<longleftrightarrow> length (bytes d) = digest_size (algorithm d) \<and> (\<forall>b \<in> set (bytes d). b < 256)"

lemma digest_ok_nth: "digest_ok d \<Longrightarrow> i < digest_size (algorithm d) \<Longrightarrow> bytes d ! i < 256"
  by (simp add: digest_ok_def)

section \<open>The printed form\<close>

lemma ToString_length [simp]: "length (ToString d False) = hex_length d"
  by (simp add: ToString_def)

lemma ToString_nth: "i < hex_length d \<Longrightarrow> ToString d False ! i = hex_at d i"
  by (simp add: ToString_def)

lemma ToString_hash_nth:
  assumes "digest_ok d" "i < digest_size (algorithm d)"
  shows "ToString d False ! (2 * i) = ToHex (bytes d ! i div 16)" "ToString d False ! (2 * i + 1) = ToHex (bytes d ! i mod 16)"
  using assms(2) by (simp_all add: ToString_nth hex_length_def hash_length_def hex_at_def GetHashChar_def)

definition hash_part :: "digest \<Rightarrow> string" where
  "hash_part d = map (GetHashChar d) [0..<hash_length d]"

lemma ToString_parts: "ToString d False = hash_part d @ algo_id (algorithm d)"
proof (rule nth_equalityI)
  show "length (ToString d False) = length (hash_part d @ algo_id (algorithm d))"
    by (simp add: hash_part_def hex_length_def)
  fix i assume "i < length (ToString d False)"
  then show "ToString d False ! i = (hash_part d @ algo_id (algorithm d)) ! i"
    by (simp add: ToString_nth hash_part_def hex_at_def nth_append)
qed

lemma hash_part_hexc:
  assumes "digest_ok d" "c \<in> set (hash_part d)"
  shows "hexc c"
proof -
  obtain i where i: "i < hash_length d" "c = GetHashChar d i" using assms(2) by (auto simp: hash_part_def)
  then have "bytes d ! (i div 2) < 256" using digest_ok_nth[OF assms(1)] by (simp add: hash_length_def)
  then show ?thesis using i(2) ToHex_digit(2) by (auto simp: GetHashChar_def)
qed

section \<open>Reading a digest\<close>

lemma Any_hex_ToString:
  assumes "digest_ok d" "\<And>i. i < hash_length d \<Longrightarrow> str ! i = ToString d False ! i" "hash_length d \<le> length str"
  shows "Any_hex (algorithm d) str s = Some (d\<lparr>suffix := s\<rparr>)"
proof -
  let ?f = "\<lambda>i. nat ((hex_digit (str ! (2 * i)) * 16 + hex_digit (str ! (2 * i + 1))) mod 256)"
  have "?f i = bytes d ! i" if i: "i < digest_size (algorithm d)" for i
  proof -
    have b: "bytes d ! i < 256" by (rule digest_ok_nth[OF assms(1) i])
    then have "hex_digit (str ! (2 * i)) = int (bytes d ! i div 16)" "hex_digit (str ! (2 * i + 1)) = int (bytes d ! i mod 16)"
      using assms(2)[of "2 * i"] assms(2)[of "2 * i + 1"] ToString_hash_nth[OF assms(1) i] i ToHex_digit(1)
      by (simp_all add: hash_length_def)
    then have "hex_digit (str ! (2 * i)) * 16 + hex_digit (str ! (2 * i + 1)) = int (bytes d ! i)"
      by (metis div_mult_mod_eq of_nat_add of_nat_mult of_nat_numeral)
    then show ?thesis using b by simp
  qed
  then have "map ?f [0..<digest_size (algorithm d)] = bytes d"
    using assms(1) by (intro nth_equalityI) (simp_all add: digest_ok_def)
  then show ?thesis using assms(3) by (simp add: Any_hex_def Let_def hash_length_def)
qed

lemma hex_scan_append:
  assumes "\<forall>c \<in> set xs. hexc c"
  shows "hex_scan (xs @ ys) i = hex_scan ys (i + length xs)"
  using assms
proof (induction xs arbitrary: i)
  case (Cons x xs)
  then have "hexc x" by simp
  then have "x \<noteq> CHR ''-''" "\<not> (schar x < 48 \<or> schar x > 102 \<or> (schar x > 57 \<and> schar x < 97))"
    using hexc_value(4) by (auto simp: hexc_def)
  then show ?case using Cons by auto
qed simp

lemma hex_scan_SomeD:
  "hex_scan str i = Some k \<Longrightarrow> \<exists>n. k = i + n \<and> n \<le> length str \<and> (\<forall>c \<in> set (take n str). hexc c)"
proof (induction str i rule: hex_scan.induct)
  case (2 c cs i)
  show ?case
  proof (cases "c = CHR ''-''")
    case False
    then have c: "\<not> (schar c < 48 \<or> schar c > 102 \<or> (schar c > 57 \<and> schar c < 97))" "hex_scan cs (i + 1) = Some k"
      using 2(2) by (auto split: if_splits)
    then obtain n where "k = i + 1 + n" "n \<le> length cs" "\<forall>c \<in> set (take n cs). hexc c" using 2(1)[OF False] by blast
    moreover have "hexc c" using c(1) by (auto simp: hexc_def)
    ultimately show ?thesis by (intro exI[of _ "Suc n"]) simp
  qed (use 2 in simp)
qed simp

lemma id_scan_full:
  assumes "hl \<le> i" "i \<le> length str" "length str = hl + algo_id_size a" "\<forall>j. i \<le> j \<and> j < length str \<longrightarrow> str ! j = algo_id a ! (j - hl)"
  shows "id_scan str a hl i = length str"
  using assms
proof (induction str a hl i rule: id_scan.induct)
  case (1 str a hl i)
  show ?case
  proof (cases "i < length str")
    case True
    then show ?thesis using 1 by (subst id_scan.simps) auto
  next
    case False
    then show ?thesis using "1.prems" by (subst id_scan.simps) simp
  qed
qed

lemma id_scan_fullD:
  assumes "hl \<le> i" "id_scan str a hl i = length str"
  shows "\<forall>j. i \<le> j \<and> j < length str \<and> j < hl + algo_id_size a \<longrightarrow> str ! j = algo_id a ! (j - hl)"
  using assms
proof (induction str a hl i rule: id_scan.induct)
  case (1 str a hl i)
  show ?case
  proof (cases "i < length str \<and> i - hl < algo_id_size a")
    case True
    then have eq: "str ! i = algo_id a ! (i - hl)" and run: "id_scan str a hl (i + 1) = length str"
      using "1.prems"(2) by (subst (asm) id_scan.simps, auto split: if_splits)+
    have "\<forall>j. i + 1 \<le> j \<and> j < length str \<and> j < hl + algo_id_size a \<longrightarrow> str ! j = algo_id a ! (j - hl)"
      using "1.IH"[OF True] eq run "1.prems"(1) by simp
    then show ?thesis using eq by (metis Suc_eq_plus1 Suc_leI le_neq_implies_less)
  next
    case False
    then show ?thesis using "1.prems"(1) by auto
  qed
qed

lemma IsValid_ToString:
  assumes "digest_ok d" "algorithm d \<noteq> kAny"
  shows "IsValid_hex (ToString d False)"
proof -
  let ?a = "algorithm d" and ?s = "ToString d False"
  have hp: "length (hash_part d) = 2 * digest_size ?a" by (simp add: hash_part_def hash_length_def)
  have "hex_scan ?s 0 = hex_scan (algo_id ?a) (2 * digest_size ?a)"
    using hex_scan_append[of "hash_part d" "algo_id ?a" 0] hash_part_hexc[OF assms(1)] hp by (simp add: ToString_parts)
  also have "\<dots> = Some (2 * digest_size ?a)"
    using algo_id_dash[of ?a] by (cases "algo_id ?a") auto
  finally have scan: "hex_scan ?s 0 = Some (2 * digest_size ?a)" .
  have len: "length ?s = 2 * digest_size ?a + algo_id_size ?a" by (simp add: hex_length_def hash_length_def)
  have "id_scan ?s ?a (2 * digest_size ?a) (2 * digest_size ?a) = length ?s"
    by (rule id_scan_full) (use len hp in \<open>auto simp: ToString_parts nth_append\<close>)
  moreover have "?a \<in> set [kMd5, kSha1, kRmd160, kShake128]" using assms(2) by (cases ?a) auto
  moreover have "length ?s \<noteq> 0" unfolding len by (cases ?a) simp_all
  ultimately show ?thesis using scan len by (simp only: IsValid_hex_def if_False option.case list_ex_iff) blast
qed

lemma MkFromHexPtr_alg:
  assumes "length str = 2 * digest_size a + algo_id_size a" "a \<noteq> kAny"
  shows "MkFromHexPtr str s = map_option (\<lambda>d. d\<lparr>suffix := s\<rparr>) (Any_hex a str kSuffixNone)"
  using assms by (cases a; cases "Any_hex a str kSuffixNone") (simp_all add: MkFromHexPtr_def take_hex_def)

lemma MkFromSuffixedHexPtr_alg:
  assumes "length str = 2 * digest_size a + algo_id_size a + k" "k \<le> 1" "a \<noteq> kAny"
  shows "MkFromSuffixedHexPtr str = Any_hex a str (if k = 1 then last str else kSuffixNone)"
proof -
  have "k = 0 \<or> k = 1" using assms(2) by auto
  then show ?thesis using assms(1,3)
    by (cases a; cases "Any_hex a str (if k = 1 then last str else kSuffixNone)")
      (auto simp: MkFromSuffixedHexPtr_def take_suffixed_hex_def Let_def)
qed

lemma MkFromHexPtr_ToString:
  assumes "digest_ok d" "algorithm d \<noteq> kAny"
  shows "MkFromHexPtr (ToString d False) s = Some (d\<lparr>suffix := s\<rparr>)"
  using MkFromHexPtr_alg[of "ToString d False" "algorithm d" s] assms Any_hex_ToString[OF assms(1), of "ToString d False"]
  by (simp add: hex_length_def hash_length_def)

lemma MkFromSuffixedHexPtr_ToString:
  assumes "digest_ok d" "algorithm d \<noteq> kAny"
  shows "MkFromSuffixedHexPtr (ToStringWithSuffix d) = Some d"
proof -
  let ?str = "ToStringWithSuffix d" and ?k = "if HasSuffix_digest d then 1 else (0::nat)"
  have str: "?str = ToString d False @ (if HasSuffix_digest d then [suffix d] else [])"
    by (simp add: ToStringWithSuffix_def ToString_def)
  have len: "length ?str = 2 * digest_size (algorithm d) + algo_id_size (algorithm d) + ?k"
    unfolding str by (simp add: hex_length_def hash_length_def)
  have "Any_hex (algorithm d) ?str s = Some (d\<lparr>suffix := s\<rparr>)" for s
    by (rule Any_hex_ToString[OF assms(1)]) (auto simp: str nth_append hash_length_def hex_length_def)
  moreover have "(if ?k = 1 then last ?str else kSuffixNone) = suffix d"
    by (simp add: str HasSuffix_digest_def)
  ultimately show ?thesis using MkFromSuffixedHexPtr_alg[OF len _ assms(2)] by simp
qed

lemma IsValid_hexD:
  assumes "IsValid_hex str"
  obtains a where "a \<noteq> kAny" "length str = 2 * digest_size a + algo_id_size a"
    "\<forall>i < 2 * digest_size a. hexc (str ! i)" "\<forall>i < algo_id_size a. str ! (2 * digest_size a + i) = algo_id a ! i"
proof -
  have ne: "(length str = 0) = False" using assms by (cases "length str = 0") (simp_all add: IsValid_hex_def)
  have "hex_scan str 0 = None \<Longrightarrow> False" using assms ne by (simp add: IsValid_hex_def)
  then obtain i where i: "hex_scan str 0 = Some i" by blast
  have "\<exists>a \<in> set [kMd5, kSha1, kRmd160, kShake128]. i = 2 * digest_size a \<and>
      id_scan str a (2 * digest_size a) i = length str \<and> length str = 2 * digest_size a + algo_id_size a"
    using assms unfolding IsValid_hex_def ne i list_ex_iff by (simp only: if_False option.case)
  then obtain a where a: "a \<in> set [kMd5, kSha1, kRmd160, kShake128]" "hex_scan str 0 = Some (2 * digest_size a)"
    "id_scan str a (2 * digest_size a) (2 * digest_size a) = length str" "length str = 2 * digest_size a + algo_id_size a"
    using i by blast
  have "\<forall>c \<in> set (take (2 * digest_size a) str). hexc c" using hex_scan_SomeD[OF a(2)] by auto
  then have "hexc (str ! i)" if "i < 2 * digest_size a" for i
    using that a(4) nth_mem[of i "take (2 * digest_size a) str"] by simp
  moreover have "str ! (2 * digest_size a + i) = algo_id a ! i" if "i < algo_id_size a" for i
    using id_scan_fullD[OF le_refl a(3)] a(4) that by simp
  moreover have "a \<noteq> kAny" using a(1) by auto
  ultimately show thesis using that[of a] a(4) by blast
qed

lemma ToString_Any_hex:
  assumes len: "length str = 2 * digest_size a + algo_id_size a" and hex: "\<forall>i < 2 * digest_size a. hexc (str ! i)"
    and ident: "\<forall>i < algo_id_size a. str ! (2 * digest_size a + i) = algo_id a ! i"
  shows "\<exists>d. Any_hex a str s = Some d \<and> digest_ok d \<and> algorithm d = a \<and> suffix d = s \<and> ToString d False = str"
proof -
  let ?f = "\<lambda>i. nat ((hex_digit (str ! (2 * i)) * 16 + hex_digit (str ! (2 * i + 1))) mod 256)"
  let ?d = "\<lparr>bytes = map ?f [0..<digest_size a], algorithm = a, suffix = s\<rparr>"
  have f: "int (?f i) = hex_digit (str ! (2 * i)) * 16 + hex_digit (str ! (2 * i + 1))"
     "?f i div 16 = nat (hex_digit (str ! (2 * i)))" "?f i mod 16 = nat (hex_digit (str ! (2 * i + 1)))"
    if "i < digest_size a" for i
  proof -
    have h: "hexc (str ! (2 * i))" "hexc (str ! (2 * i + 1))" using hex that by auto
    note b = hexc_value(1,2)[OF h(1)] hexc_value(1,2)[OF h(2)]
    show eq: "int (?f i) = hex_digit (str ! (2 * i)) * 16 + hex_digit (str ! (2 * i + 1))" using b by simp
    have "int (?f i div 16) = hex_digit (str ! (2 * i))" "int (?f i mod 16) = hex_digit (str ! (2 * i + 1))"
      unfolding zdiv_int zmod_int eq using b by simp_all
    then show "?f i div 16 = nat (hex_digit (str ! (2 * i)))" "?f i mod 16 = nat (hex_digit (str ! (2 * i + 1)))" by (metis nat_int)+
  qed
  have "ToString ?d False ! i = str ! i" if i: "i < length str" for i
  proof (cases "i < 2 * digest_size a")
    case True
    then have j: "i div 2 < digest_size a" and hx: "hexc (str ! i)" using hex by auto
    have "GetHashChar ?d i = ToHex (nat (hex_digit (str ! i)))"
    proof (cases "even i")
      case True
      then show ?thesis using f(2)[OF j] j by (simp add: GetHashChar_def)
    next
      case False
      then have "2 * (i div 2) + 1 = i" by simp
      then show ?thesis using f(3)[OF j] j False by (simp add: GetHashChar_def odd_iff_mod_2_eq_one)
    qed
    then show ?thesis using hexc_value(3)[OF hx] True i len
      by (simp add: ToString_nth hex_length_def hash_length_def hex_at_def)
  next
    case False
    then show ?thesis using ident[rule_format, of "i - 2 * digest_size a"] i len
      by (simp add: ToString_nth hex_length_def hash_length_def hex_at_def)
  qed
  then have "ToString ?d False = str" by (intro nth_equalityI) (simp_all add: len hex_length_def hash_length_def)
  moreover have "digest_ok ?d" by (auto simp: digest_ok_def nat_less_iff)
  moreover have "Any_hex a str s = Some ?d" using len by (simp add: Any_hex_def Let_def)
  ultimately show ?thesis by (intro exI[of _ ?d]) simp
qed

section \<open>Paths\<close>

lemma length_path_slashes:
  assumes "0 < q"
  shows "length (concat (map (\<lambda>i. (if i > 0 \<and> i mod q = 0 \<and> i div q \<le> l then ''/'' else []) @ [f i]) [0..<n])) =
     n + card {i. 0 < i \<and> i < n \<and> i mod q = 0 \<and> i div q \<le> l}"
proof (induction n)
  case (Suc n)
  let ?S = "\<lambda>n. {i. 0 < i \<and> i < n \<and> i mod q = 0 \<and> i div q \<le> l}"
  have "?S (Suc n) = (if 0 < n \<and> n mod q = 0 \<and> n div q \<le> l then insert n (?S n) else ?S n)"
    by (auto simp: less_Suc_eq)
  moreover have "finite (?S n)" by (rule finite_subset[of _ "{..<n}"]) auto
  ultimately show ?case using Suc by simp
qed simp

lemma slash_positions:
  fixes q n l :: nat
  assumes "0 < q"
  shows "{i. 0 < i \<and> i < n \<and> i mod q = 0 \<and> i div q \<le> l} = (\<lambda>k. k * q) ` {k. 0 < k \<and> k \<le> l \<and> k * q < n}"
proof (intro set_eqI iffI)
  fix x assume "x \<in> {i. 0 < i \<and> i < n \<and> i mod q = 0 \<and> i div q \<le> l}"
  then have x: "0 < x" "x < n" "x mod q = 0" "x div q \<le> l" by auto
  then have eq: "x div q * q = x" using div_mult_mod_eq[of x q] by simp
  have "q dvd x" using x(3) by (simp add: dvd_eq_mod_eq_0)
  then have "0 < x div q" using dvd_imp_le[of q x] x(1) assms by (simp add: div_greater_zero_iff)
  then show "x \<in> (\<lambda>k. k * q) ` {k. 0 < k \<and> k \<le> l \<and> k * q < n}"
    by (intro image_eqI[of _ _ "x div q"]) (simp_all add: eq x)
next
  fix x assume "x \<in> (\<lambda>k. k * q) ` {k. 0 < k \<and> k \<le> l \<and> k * q < n}"
  then obtain k where "x = k * q" "0 < k" "k \<le> l" "k * q < n" by blast
  then show "x \<in> {i. 0 < i \<and> i < n \<and> i mod q = 0 \<and> i div q \<le> l}" using assms by simp
qed

lemma card_slashes:
  fixes q n l :: nat
  assumes "0 < q"
  shows "card {i. 0 < i \<and> i < n \<and> i mod q = 0 \<and> i div q \<le> l} = l \<longleftrightarrow> l * q < n \<or> l = 0"
proof -
  let ?K = "{k. 0 < k \<and> k \<le> l \<and> k * q < n}"
  have inj: "inj_on (\<lambda>k. k * q) ?K" using assms by (auto simp: inj_on_def)
  have fin: "finite {0<..l}" by simp
  have sub: "?K \<subseteq> {0<..l}" by auto
  have "card ?K = l \<longleftrightarrow> ?K = {0<..l}"
  proof
    show "card ?K = l \<Longrightarrow> ?K = {0<..l}" using card_subset_eq[OF fin sub] by simp
    show "?K = {0<..l} \<Longrightarrow> card ?K = l" by simp
  qed
  also have "\<dots> \<longleftrightarrow> l * q < n \<or> l = 0"
  proof
    assume "?K = {0<..l}"
    then have "l \<in> ?K \<or> l = 0" by (cases "l = 0") simp_all
    then show "l * q < n \<or> l = 0" by blast
  next
    assume "l * q < n \<or> l = 0"
    then have "k * q < n" if "0 < k" "k \<le> l" for k
      using that le_less_trans[OF mult_le_mono1[OF that(2)]] by (cases "l = 0") simp_all
    then show "?K = {0<..l}" by auto
  qed
  finally show ?thesis unfolding slash_positions[OF assms] card_image[OF inj] .
qed

lemma MakePathExplicit_iff:
  "MakePathExplicit d l q s \<noteq> None \<longleftrightarrow> 0 < q \<and> (l * q < hex_length d \<or> l = 0)"
proof (cases "0 < q")
  case True
  then show ?thesis
    using length_path_slashes[OF True, of l "hex_at d" "hex_length d"] card_slashes[OF True, of "hex_length d" l]
    by (simp add: MakePathExplicit_def Let_def assert_that_def)
qed (simp add: MakePathExplicit_def Let_def assert_that_def)

lemma hex_length_ge: "32 \<le> hex_length d"
  by (cases "algorithm d") (simp_all add: hex_length_def hash_length_def)

lemma MakePathExplicit_1_2:
  "MakePathExplicit d 1 2 s =
     Some (take 2 (ToString d False) @ ''/'' @ drop 2 (ToString d False) @ (if s \<noteq> kSuffixNone then [s] else []))"
proof -
  let ?n = "hex_length d"
  let ?g = "\<lambda>i. (if i > 0 \<and> i mod 2 = 0 \<and> i div 2 \<le> 1 then ''/'' else []) @ [hex_at d i]"
  have up: "[0..<?n] = [0, 1, 2] @ [3..<?n]"
    using hex_length_ge[of d] by (simp add: upt_conv_Cons numeral_2_eq_2 numeral_3_eq_3)
  have no: "\<not> (i mod 2 = 0 \<and> i div 2 \<le> 1)" if "3 \<le> i" for i :: nat using that by presburger
  have "map ?g [3..<?n] = map (\<lambda>i. [hex_at d i]) [3..<?n]" by (rule map_cong) (use no in auto)
  then have rest: "concat (map ?g [3..<?n]) = map (hex_at d) [3..<?n]" by (simp only: concat_map_singleton)
  have whole: "concat (map ?g [0..<?n]) = take 2 (ToString d False) @ ''/'' @ drop 2 (ToString d False)"
    unfolding up map_append concat_append rest by (simp add: ToString_def up)
  have "length (take 2 (ToString d False)) + length (drop 2 (ToString d False)) = ?n" using hex_length_ge[of d] by simp
  then show ?thesis unfolding MakePathExplicit_def Let_def whole by simp
qed

text \<open>The general layout, one directory level at a time.\<close>

definition path_char :: "nat \<Rightarrow> nat \<Rightarrow> (nat \<Rightarrow> char) \<Rightarrow> nat \<Rightarrow> string" where
  "path_char l q h i = (if i > 0 \<and> i mod q = 0 \<and> i div q \<le> l then ''/'' else []) @ [h i]"

lemma path_piece:
  assumes "0 < q" "j \<le> l" "j * q < m" "\<And>i. j * q < i \<Longrightarrow> i < m \<Longrightarrow> \<not> (i mod q = 0 \<and> i div q \<le> l)"
  shows "concat (map (path_char l q h) [j * q..<m]) = (if j = 0 then [] else ''/'') @ map h [j * q..<m]"
proof -
  have "map (path_char l q h) [Suc (j * q)..<m] = map (\<lambda>i. [h i]) [Suc (j * q)..<m]"
    by (rule map_cong) (use assms(4) in \<open>auto simp: path_char_def\<close>)
  then have "concat (map (path_char l q h) [Suc (j * q)..<m]) = map h [Suc (j * q)..<m]" by (simp only: concat_map_singleton)
  then show ?thesis using assms(1-3) by (simp add: upt_conv_Cons path_char_def)
qed

lemma path_levels:
  assumes "0 < q" "k \<le> l"
  shows "concat (map (path_char l q f) [0..<k * q]) @ (if k = 0 then [] else ''/'') =
    concat (map (\<lambda>j. map f [j * q..<Suc j * q] @ ''/'') [0..<k])"
  using assms(2)
proof (induction k)
  case (Suc k)
  have "\<not> (i mod q = 0 \<and> i div q \<le> l)" if "k * q < i" "i < Suc k * q" for i
  proof -
    have "i div q = k" using that assms(1) by (intro div_nat_eqI) (simp_all add: mult.commute)
    then show ?thesis using that(1) by (metis add.right_neutral div_mult_mod_eq less_irrefl)
  qed
  then have "concat (map (path_char l q f) [k * q..<Suc k * q]) = (if k = 0 then [] else ''/'') @ map f [k * q..<Suc k * q]"
    using Suc.prems assms(1) by (intro path_piece) simp_all
  moreover have "[0..<Suc k * q] = [0..<k * q] @ [k * q..<Suc k * q]" using upt_add_eq_append[of 0 "k * q" q] by (simp add: add.commute)
  ultimately show ?case using Suc.IH Suc.prems by simp
qed simp

lemma MakePathExplicit_layout:
  assumes "0 < q" "l * q < hex_length d \<or> l = 0"
  shows "MakePathExplicit d l q s = Some (concat (map (\<lambda>j. take q (drop (j * q) (ToString d False)) @ ''/'') [0..<l]) @
    drop (l * q) (ToString d False) @ (if s \<noteq> kSuffixNone then [s] else []))"
proof -
  let ?n = "hex_length d" let ?h = "hex_at d" let ?g = "path_char l q ?h"
  have n: "l * q < ?n" using assms(2) hex_length_ge[of d] by auto
  have cut: "map ?h [a..<b] = take (b - a) (drop a (ToString d False))" if "b \<le> ?n" for a b
    using that by (cases "a \<le> b") (simp_all add: ToString_def drop_map take_map take_upt)
  have "\<not> (i mod q = 0 \<and> i div q \<le> l)" if "l * q < i" for i
    using that by (metis add.right_neutral div_mult_mod_eq leD mult_le_mono1)
  then have "concat (map ?g [l * q..<?n]) = (if l = 0 then [] else ''/'') @ map ?h [l * q..<?n]" using assms(1) n by (intro path_piece) simp_all
  moreover have "[0..<?n] = [0..<l * q] @ [l * q..<?n]" using upt_add_eq_append[of 0 "l * q" "?n - l * q"] n by simp
  moreover have piece: "map ?h [j * q..<Suc j * q] = take q (drop (j * q) (ToString d False))" if "j < l" for j
  proof -
    have "Suc j * q \<le> ?n" using that n mult_le_mono1[of "Suc j" l q] by simp
    from cut[OF this, of "j * q"] show ?thesis by simp
  qed
  moreover have "concat (map ?g [0..<l * q]) @ (if l = 0 then [] else ''/'') = concat (map (\<lambda>j. take q (drop (j * q) (ToString d False)) @ ''/'') [0..<l])"
    unfolding path_levels[OF assms(1) order_refl]
    by (intro arg_cong[where f = concat] map_cong refl) (simp only: piece set_upt atLeastLessThan_iff)
  ultimately have "concat (map ?g [0..<?n]) = concat (map (\<lambda>j. take q (drop (j * q) (ToString d False)) @ ''/'') [0..<l]) @ drop (l * q) (ToString d False)"
    using cut[of ?n "l * q"] by simp
  moreover obtain r where "MakePathExplicit d l q s = Some r" using MakePathExplicit_iff[of d l q s] assms by auto
  ultimately show ?thesis unfolding MakePathExplicit_def Let_def path_char_def by (auto simp: assert_that_def split: if_splits)
qed

section \<open>Order, fingerprints, casts, HMAC\<close>

lemma gt_loop_lt: "gt_loop xs ys is = lt_loop ys xs is"
  by (induction "is") auto

lemma lt_loop_cases:
  "(lt_loop xs ys is \<and> \<not> lt_loop ys xs is \<and> \<not> (\<forall>i \<in> set is. xs ! i = ys ! i)) \<or>
   (\<not> lt_loop xs ys is \<and> lt_loop ys xs is \<and> \<not> (\<forall>i \<in> set is. xs ! i = ys ! i)) \<or>
   (\<not> lt_loop xs ys is \<and> \<not> lt_loop ys xs is \<and> (\<forall>i \<in> set is. xs ! i = ys ! i))"
  by (induction "is") auto

lemma lt_loop_trans: "lt_loop xs ys is \<Longrightarrow> lt_loop ys zs is \<Longrightarrow> lt_loop xs zs is"
  by (induction "is") (auto split: if_splits)

lemma alg_index_inj: "alg_index a = alg_index b \<longleftrightarrow> a = b"
  by (cases a; cases b) (simp_all add: alg_index_def)

lemma digest_lt_trans: "digest_lt d e \<Longrightarrow> digest_lt e f \<Longrightarrow> digest_lt d f"
  using lt_loop_trans[of "bytes d" "bytes e"]
  by (auto simp: digest_lt_def alg_index_inj[symmetric] split: if_splits)

lemma digest_trichotomy:
  "(digest_lt d e \<and> \<not> digest_eq d e \<and> \<not> digest_lt e d) \<or> (\<not> digest_lt d e \<and> digest_eq d e \<and> \<not> digest_lt e d) \<or>
   (\<not> digest_lt d e \<and> \<not> digest_eq d e \<and> digest_lt e d)"
proof (cases "algorithm d = algorithm e")
  case True
  then show ?thesis
    using lt_loop_cases[of "bytes d" "bytes e" "[0..<digest_size (algorithm d)]"]
    by (auto simp: digest_lt_def digest_eq_def list_all_iff)
next
  case False
  then have "alg_index (algorithm d) \<noteq> alg_index (algorithm e)" by (simp add: alg_index_inj)
  then show ?thesis using False by (auto simp: digest_lt_def digest_eq_def)
qed

lemma digest_eq_iff:
  assumes "digest_ok d" "digest_ok e"
  shows "digest_eq d e \<longleftrightarrow> algorithm d = algorithm e \<and> bytes d = bytes e"
  using assms by (auto simp: digest_eq_def digest_ok_def list_all_iff list_eq_iff_nth_eq)

lemma ToIntPair_Md5:
  assumes "lo < 2 ^ 64" "hi < 2 ^ 64"
  shows "ToIntPair (Md5_of_pair lo hi) = (lo, hi)"
proof -
  have "(256::nat) ^ 8 = 2 ^ 64" by simp
  then show ?thesis using le_value_bytes[of lo 8] le_value_bytes[of hi 8] assms by (simp add: ToIntPair_def Md5_of_pair_def)
qed

lemma key_block_long:
  assumes "block_size < length key" "length (h key) \<le> block_size"
  shows "key_block block_size h (h key) = key_block block_size h key"
  using assms by (simp add: key_block_def Let_def)

lemma key_block_length:
  assumes "\<And>m. length (h m) \<le> block_size"
  shows "length (key_block block_size h key) = block_size"
  using assms[of key] by (auto simp: key_block_def Let_def)

definition fp_char :: "digest \<Rightarrow> nat \<Rightarrow> string" where
  "fp_char d i = toupper (hex_at d i) # (if i < 2 * digest_size (algorithm d) - 1 \<and> i mod 2 = 1 then '':'' else [])"

lemma fp_length_even: "k < digest_size (algorithm d) \<Longrightarrow> length (concat (map (fp_char d) [0..<2 * k])) = 3 * k"
proof (induction k)
  case (Suc k)
  have "[0..<2 * Suc k] = [0..<2 * k] @ [2 * k, 2 * k + 1]" by simp
  then show ?case using Suc by (simp add: fp_char_def)
qed simp

lemma fp_length: "length (concat (map (fp_char d) [0..<hex_length d])) = hex_length d + digest_size (algorithm d) - 1"
proof -
  let ?s = "digest_size (algorithm d)"
  obtain k where k: "?s = Suc k" by (cases "algorithm d") (auto intro: that)
  have "[0..<hex_length d] = [0..<2 * k] @ [2 * k, 2 * k + 1] @ [2 * ?s..<hex_length d]"
    using upt_add_eq_append[of 0 "2 * ?s" "algo_id_size (algorithm d)"] k
    by (simp add: hex_length_def hash_length_def)
  moreover have "map (fp_char d) [2 * ?s..<hex_length d] = map (\<lambda>i. [toupper (hex_at d i)]) [2 * ?s..<hex_length d]"
    by (rule map_cong) (auto simp: fp_char_def)
  then have "concat (map (fp_char d) [2 * ?s..<hex_length d]) = map (\<lambda>i. toupper (hex_at d i)) [2 * ?s..<hex_length d]"
    by (simp only: concat_map_singleton)
  ultimately show ?thesis using fp_length_even[of k d] k by (simp add: fp_char_def hex_length_def hash_length_def) arith
qed

lemma toupper_colon: "toupper c = CHR '':'' \<longleftrightarrow> c = CHR '':''"
proof -
  define n where "n = (of_char c :: nat)"
  have "char_of (n - 32) \<noteq> CHR '':''" if r: "97 \<le> n" "n \<le> 122"
  proof
    assume "char_of (n - 32) = CHR '':''"
    then have "(of_char (char_of (n - 32)) :: nat) = 58" by simp
    moreover have "n - 32 < 256" using r by linarith
    ultimately show False using r by (simp add: of_char_of)
  qed
  then show ?thesis by (auto simp: toupper_def n_def)
qed

lemma algo_id_no_colon: "CHR '':'' \<notin> set (algo_id a)"
  by (cases a) (simp_all add: kAlgorithmIds_def alg_index_def)

lemma hex_at_no_colon:
  assumes "digest_ok d" "i < hex_length d"
  shows "hex_at d i \<noteq> CHR '':''"
proof -
  have "ToString d False ! i \<in> set (ToString d False)" using assms(2) by simp
  then have "hex_at d i \<in> set (hash_part d) \<or> hex_at d i \<in> set (algo_id (algorithm d))"
    using assms(2) by (simp add: ToString_nth) (simp add: ToString_parts)
  moreover have "\<not> hexc (CHR '':'')" by (simp add: hexc_def schar_def)
  ultimately show ?thesis using hash_part_hexc[OF assms(1)] algo_id_no_colon by metis
qed

lemma fp_filter:
  assumes "digest_ok d" "\<forall>i \<in> set is. i < hex_length d"
  shows "filter (\<lambda>c. c \<noteq> CHR '':'') (concat (map (fp_char d) is)) = map toupper (map (hex_at d) is)"
  using assms(2)
proof (induction "is")
  case (Cons i "is")
  then show ?case using hex_at_no_colon[OF assms(1), of i] toupper_colon[of "hex_at d i"] by (simp add: fp_char_def)
qed simp

lemma ToFingerprint_eq:
  "ToFingerprint d with_suffix = Some (concat (map (fp_char d) [0..<hex_length d]) @
     (if with_suffix \<and> HasSuffix_digest d then [suffix d] else []))"
proof -
  define cs where "cs = concat (map (fp_char d) [0..<hex_length d])"
  have len: "hex_length d + digest_size (algorithm d) - 1 = length cs" unfolding cs_def by (rule fp_length[symmetric])
  have chars: "concat (map (\<lambda>hex_i. toupper (hex_at d hex_i) #
      (if hex_i < 2 * digest_size (algorithm d) - 1 \<and> hex_i mod 2 = 1 then '':'' else [])) [0..<hex_length d]) = cs"
    unfolding cs_def fp_char_def[abs_def] by (rule refl)
  show ?thesis unfolding ToFingerprint_def Let_def chars len cs_def[symmetric] by (simp add: list_update_append)
qed

section \<open>Properties\<close>

text \<open>An example digest.\<close>

definition demo_digest :: digest where
  "demo_digest = \<lparr>bytes = [0xAB, 0xCD] @ replicate 18 1, algorithm = kRmd160, suffix = CHR ''C''\<rparr>"

lemma demo_digest_ok: "digest_ok demo_digest" "algorithm demo_digest \<noteq> kAny"
  by (auto simp: demo_digest_def digest_ok_def)

text \<open>
  C19.  Hashes survive their text form: for every digest of a real algorithm, the printed string is a valid
  hash string, reading it back gives the digest, and the form with suffix gives the suffix back too.
\<close>

theorem digest_text_round_trip:
  assumes "digest_ok d" "algorithm d \<noteq> kAny"
  shows "IsValid_hex (ToString d False) \<and> MkFromHexPtr (ToString d False) (suffix d) = Some d \<and>
     MkFromSuffixedHexPtr (ToStringWithSuffix d) = Some d"
  using IsValid_ToString[OF assms] MkFromHexPtr_ToString[OF assms, of "suffix d"] MkFromSuffixedHexPtr_ToString[OF assms]
  by simp

theorem digest_text_round_trip_witness:
  "MkFromSuffixedHexPtr (ToStringWithSuffix demo_digest) = Some demo_digest \<and> IsValid_hex (ToString demo_digest False)"
  using digest_text_round_trip[OF demo_digest_ok] by blast

text \<open>
  C20.  The validity check of hash strings is exact: a string accepted by \<open>HexPtr::IsValid\<close> is the printed
  form of a digest, namely of the one that \<open>MkFromHexPtr\<close> builds from it.
\<close>

theorem IsValid_hex_sound:
  assumes "IsValid_hex str"
  shows "\<exists>d. MkFromHexPtr str s = Some d \<and> digest_ok d \<and> algorithm d \<noteq> kAny \<and> suffix d = s \<and> ToString d False = str"
proof -
  obtain a where a: "a \<noteq> kAny" "length str = 2 * digest_size a + algo_id_size a"
    "\<forall>i < 2 * digest_size a. hexc (str ! i)" "\<forall>i < algo_id_size a. str ! (2 * digest_size a + i) = algo_id a ! i"
    using IsValid_hexD[OF assms] .
  obtain d where d: "Any_hex a str s = Some d" "digest_ok d" "algorithm d = a" "suffix d = s" "ToString d False = str"
    using ToString_Any_hex[OF a(2-4)] by blast
  have "MkFromHexPtr str s = Some d" using MkFromHexPtr_ToString[OF d(2), of s] d(3-5) a(1) by simp
  then show ?thesis using d a(1) by blast
qed

theorem IsValid_hex_sound_witness:
  "\<exists>d. MkFromHexPtr ''0123456789abcdef0123456789abcdef'' (CHR ''P'') = Some d \<and> ToString d False = ''0123456789abcdef0123456789abcdef''"
proof -
  have "IsValid_hex ''0123456789abcdef0123456789abcdef''"
    by (simp add: IsValid_hex_def schar_def id_scan.simps)
  from IsValid_hex_sound[OF this, of "CHR ''P''"] show ?thesis by blast
qed

text \<open>
  C28.  \<open>MakePathExplicit\<close> returns exactly if a level has digits and the directory levels leave at least one digit of
  the printed digest for the file name (or there are none).  Then its result has one directory of
  \<open>digits_per_level\<close> digits per level, each followed by a slash, the remaining digits and the suffix if there is one.  So
  \<open>MakePath\<close> always returns and puts one slash after the first two digits.
\<close>

theorem MakePath_layout:
  "MakePathExplicit d dir_levels digits_per_level s =
     (if 0 < digits_per_level \<and> (dir_levels * digits_per_level < hex_length d \<or> dir_levels = 0)
      then Some (concat (map (\<lambda>j. take digits_per_level (drop (j * digits_per_level) (ToString d False)) @ ''/'') [0..<dir_levels]) @
        drop (dir_levels * digits_per_level) (ToString d False) @ (if s \<noteq> kSuffixNone then [s] else []))
      else None) \<and>
   MakePath d = Some (take 2 (ToString d False) @ ''/'' @ drop 2 (ToString d False) @
       (if suffix d \<noteq> kSuffixNone then [suffix d] else []))"
  using MakePathExplicit_iff[of d dir_levels digits_per_level s] MakePathExplicit_1_2[of d "suffix d"]
    MakePathExplicit_layout[of digits_per_level dir_levels d s]
  by (cases "MakePathExplicit d dir_levels digits_per_level s") (auto simp: MakePath_def)

text \<open>
  C27.  The comparison operators form a strict total order: \<open>>\<close> is the converse of \<open><\<close>, \<open><\<close> is transitive,
  exactly one of \<open><\<close>, \<open>==\<close> and \<open>>\<close> holds, and \<open>==\<close> holds exactly for equal algorithm and bytes.
\<close>

theorem digest_order:
  assumes "digest_ok d" "digest_ok e"
  shows "digest_gt d e = digest_lt e d \<and> (digest_lt d e \<and> digest_lt e f \<longrightarrow> digest_lt d f) \<and>
     of_bool (digest_lt d e) + of_bool (digest_eq d e) + of_bool (digest_gt d e) = (1::nat) \<and>
     (digest_eq d e \<longleftrightarrow> algorithm d = algorithm e \<and> bytes d = bytes e)"
proof -
  have gt: "digest_gt d e = digest_lt e d" by (auto simp: digest_gt_def digest_lt_def gt_loop_lt)
  show ?thesis
    unfolding gt using digest_trichotomy[of d e] digest_lt_trans[of d e f] digest_eq_iff[OF assms] by auto
qed

theorem digest_order_witness:
  "digest_gt demo_digest demo_digest = digest_lt demo_digest demo_digest \<and> digest_eq demo_digest demo_digest"
  using digest_order[OF demo_digest_ok(1) demo_digest_ok(1)] by blast

text \<open>
  \<open>ToFingerprint\<close> stays within the string it allocates; without the colons, what it prints is the upper
  case form of the printed digest.
\<close>

theorem ToFingerprint_layout:
  assumes "digest_ok d"
  shows "\<exists>fp. ToFingerprint d with_suffix = Some (fp @ (if with_suffix \<and> HasSuffix_digest d then [suffix d] else [])) \<and>
     length fp = hex_length d + digest_size (algorithm d) - 1 \<and>
     filter (\<lambda>c. c \<noteq> CHR '':'') fp = ToUpper (ToString d False)"
  using fp_length[of d] fp_filter[OF assms, of "[0..<hex_length d]"]
  by (intro exI[of _ "concat (map (fp_char d) [0..<hex_length d])"])
    (simp add: ToFingerprint_eq ToUpper_def ToString_def)

theorem ToFingerprint_layout_witness:
  "\<exists>fp. ToFingerprint demo_digest True = Some (fp @ ''C'') \<and> length fp = 66 \<and>
     filter (\<lambda>c. c \<noteq> CHR '':'') fp = ToUpper (ToString demo_digest False)"
  using ToFingerprint_layout[OF demo_digest_ok(1), of True]
  by (simp add: demo_digest_def HasSuffix_digest_def hex_length_def hash_length_def)

text \<open>
  C29.  HMAC with a key longer than the block of the hash function is HMAC with the digest of that key, for
  every hash function that returns digests of the right size.
\<close>

theorem Hmac_long_key:
  assumes "\<And>m. length (H (algorithm d) m) = digest_size (algorithm d)"
    and "algorithm d \<noteq> kAny" "kBlockSizes ! alg_index (algorithm d) < length key"
  shows "Hmac H key buffer d = Hmac H (H (algorithm d) key) buffer d"
proof -
  have "digest_size (algorithm d) \<le> kBlockSizes ! alg_index (algorithm d)"
    using assms(2) by (cases "algorithm d") (simp_all add: kBlockSizes_def alg_index_def kDigestSizes_def)
  then show ?thesis
    using key_block_long[of "kBlockSizes ! alg_index (algorithm d)" key "H (algorithm d)"] assms by (simp add: Hmac_def Let_def)
qed

theorem Hmac_long_key_witness:
  "Hmac (\<lambda>a m. replicate (digest_size a) (length m mod 256)) (replicate 100 7) [1, 2] demo_digest =
   Hmac (\<lambda>a m. replicate (digest_size a) (length m mod 256)) (replicate 20 100) [1, 2] demo_digest"
  using Hmac_long_key[of "\<lambda>a m. replicate (digest_size a) (length m mod 256)" demo_digest "replicate 100 7" "[1, 2]"]
  by (simp add: demo_digest_def kBlockSizes_def kDigestSizes_def alg_index_def)

end
