(* ===== verification/LruAllocator.thy ===== *)
theory LruAllocator
  imports Prelude
begin

text \<open>
  The slot allocator \<open>LruCache::MemoryAllocator\<close> of \<^verbatim>\<open>cvmfs/lru.h\<close>: a pool of slots with an allocation
  bitmap of 64-bit words.  A pointer into the pool is the index of its slot; the contents of the slots
  belong to the theory \<open>LruList\<close>.  The size of the slot memory is computed in 32 bits: \<open>mem_slots\<close> is the number of
  slots that the memory block really holds, and less than \<open>num_slots\<close> if the product wrapped.  The two search loops are partial functions, shown to end.
\<close>

unbundle bit_operations_syntax

section \<open>The code\<close>

record allocator =
  num_slots :: nat
  num_free_slots :: nat
  next_free_slot :: nat
  alloc_bytes :: nat
  mem_slots :: nat
  bitmap :: "64 word list"

definition bits_per_block :: nat where
  "bits_per_block = 64"

definition MemoryAllocator_new :: "nat \<Rightarrow> nat \<Rightarrow> allocator option" where
  "MemoryAllocator_new sizeof_T n = do {
     let num_bytes_bitmap = n div 8;
     assert_that (n mod bits_per_block = 0);
     assert_that (n \<ge> 2 * bits_per_block);
     let num_bytes_memory = u32 (sizeof_T * n);
     Some \<lparr>num_slots = n, num_free_slots = n, next_free_slot = 0,
           alloc_bytes = u32 (num_bytes_bitmap + num_bytes_memory),
           mem_slots = num_bytes_memory div sizeof_T, bitmap = replicate (num_bytes_bitmap div 8) 0\<rparr>
   }"

definition allocator_IsFull :: "allocator \<Rightarrow> bool" where
  "allocator_IsFull a = (num_free_slots a = 0)"

definition GetBit :: "nat \<Rightarrow> allocator \<Rightarrow> bool option" where
  "GetBit position a = do {
     assert_that (position < num_slots a);
     w \<leftarrow> array_get (bitmap a) (position div bits_per_block);
     Some (w AND push_bit (position mod bits_per_block) 1 \<noteq> 0)
   }"

definition SetBit :: "nat \<Rightarrow> allocator \<Rightarrow> allocator option" where
  "SetBit position a = do {
     assert_that (position < num_slots a);
     w \<leftarrow> array_get (bitmap a) (position div bits_per_block);
     bm \<leftarrow> array_set (bitmap a) (position div bits_per_block) (w OR push_bit (position mod bits_per_block) 1);
     Some (a\<lparr>bitmap := bm\<rparr>)
   }"

definition UnsetBit :: "nat \<Rightarrow> allocator \<Rightarrow> allocator option" where
  "UnsetBit position a = do {
     assert_that (position < num_slots a);
     w \<leftarrow> array_get (bitmap a) (position div bits_per_block);
     bm \<leftarrow> array_set (bitmap a) (position div bits_per_block) (w AND NOT (push_bit (position mod bits_per_block) 1));
     Some (a\<lparr>bitmap := bm\<rparr>)
   }"

text \<open>The two loops of \<open>Allocate\<close>: a block with a free slot, then the slot.\<close>

partial_function (option) find_block :: "allocator \<Rightarrow> nat \<Rightarrow> nat option" where
  "find_block a bitmap_block =
     (case array_get (bitmap a) bitmap_block of None \<Rightarrow> None
      | Some w \<Rightarrow> if NOT w = 0 then find_block a ((bitmap_block + 1) mod (num_slots a div bits_per_block))
                 else Some bitmap_block)"

partial_function (option) find_slot :: "allocator \<Rightarrow> nat \<Rightarrow> nat option" where
  "find_slot a slot =
     (case GetBit slot a of None \<Rightarrow> None
      | Some b \<Rightarrow> if b then find_slot a (slot + 1) else Some slot)"

definition Allocate :: "allocator \<Rightarrow> (nat option \<times> allocator) option" where
  "Allocate a = (if allocator_IsFull a then Some (None, a) else do {
     a1 \<leftarrow> SetBit (next_free_slot a) a;
     let a2 = a1\<lparr>num_free_slots := num_free_slots a1 - 1\<rparr>;
     let slot = next_free_slot a2;
     if \<not> allocator_IsFull a2 then do {
       blk \<leftarrow> find_block a2 (next_free_slot a2 div bits_per_block);
       nxt \<leftarrow> find_slot a2 (blk * bits_per_block);
       Some (Some slot, a2\<lparr>next_free_slot := nxt\<rparr>)
     } else Some (Some slot, a2)
   })"

definition Deallocate :: "nat \<Rightarrow> allocator \<Rightarrow> allocator option" where
  "Deallocate slot a = do {
     assert_that (slot \<le> num_slots a);
     b \<leftarrow> GetBit slot a;
     assert_that b;
     a1 \<leftarrow> UnsetBit slot a;
     Some (a1\<lparr>next_free_slot := slot, num_free_slots := num_free_slots a1 + 1\<rparr>)
   }"

section \<open>Invariant\<close>

definition slot_bit :: "64 word list \<Rightarrow> nat \<Rightarrow> bool" where
  "slot_bit bm p = bit (bm ! (p div 64)) (p mod 64)"

definition used :: "allocator \<Rightarrow> nat set" where
  "used a = {p. p < num_slots a \<and> slot_bit (bitmap a) p}"

definition alloc_shape :: "allocator \<Rightarrow> bool" where
  "alloc_shape a \<longleftrightarrow> 64 dvd num_slots a \<and> 0 < num_slots a \<and> length (bitmap a) = num_slots a div 64"

definition alloc_inv :: "allocator \<Rightarrow> bool" where
  "alloc_inv a \<longleftrightarrow> alloc_shape a \<and> num_free_slots a + card (used a) = num_slots a \<and>
     (num_free_slots a \<noteq> 0 \<longrightarrow> next_free_slot a < num_slots a \<and> next_free_slot a \<notin> used a)"

lemma alloc_shapeD:
  assumes "alloc_shape a"
  shows "length (bitmap a) = num_slots a div 64" "num_slots a = 64 * length (bitmap a)" "0 < length (bitmap a)"
  using assms by (auto simp: alloc_shape_def elim!: dvdE)

lemma alloc_invD:
  assumes "alloc_inv a"
  shows "alloc_shape a" "num_free_slots a + card (used a) = num_slots a"
    "num_free_slots a \<noteq> 0 \<Longrightarrow> next_free_slot a < num_slots a \<and> next_free_slot a \<notin> used a"
  using assms by (auto simp: alloc_inv_def)

lemma used_subset: "used a \<subseteq> {..<num_slots a}"
  by (auto simp: used_def)

lemma finite_used [simp]: "finite (used a)"
  by (rule finite_subset[OF used_subset]) simp

section \<open>Bits\<close>

lemma slot_block: "alloc_shape a \<Longrightarrow> p < num_slots a \<Longrightarrow> p div 64 < length (bitmap a)"
  using alloc_shapeD(2)[of a] by (simp add: less_mult_imp_div_less mult.commute)

lemma same_slot: "p div 64 = q div 64 \<Longrightarrow> p mod 64 = q mod 64 \<Longrightarrow> p = (q::nat)"
  by (metis div_mult_mod_eq)

lemma slot_bit_set:
  assumes "p div 64 < length bm"
  shows "slot_bit (bm[p div 64 := bm ! (p div 64) OR push_bit (p mod 64) 1]) q \<longleftrightarrow> q = p \<or> slot_bit bm q"
proof (cases "q div 64 = p div 64")
  case True
  have "q mod 64 < 64" by simp
  then show ?thesis using True assms same_slot[of q p]
    by (auto simp: slot_bit_def bit_or_iff bit_push_bit_iff bit_1_iff bit_exp_iff)
next
  case False
  then show ?thesis by (auto simp: slot_bit_def)
qed

lemma slot_bit_unset:
  assumes "p div 64 < length bm"
  shows "slot_bit (bm[p div 64 := bm ! (p div 64) AND NOT (push_bit (p mod 64) 1)]) q \<longleftrightarrow> q \<noteq> p \<and> slot_bit bm q"
proof (cases "q div 64 = p div 64")
  case True
  have "q mod 64 < 64" by simp
  then show ?thesis using True assms same_slot[of q p]
    by (auto simp: slot_bit_def bit_and_iff bit_not_iff bit_push_bit_iff bit_1_iff bit_exp_iff)
next
  case False
  then show ?thesis by (auto simp: slot_bit_def)
qed

lemma GetBit_used:
  assumes "alloc_shape a"
  shows "GetBit p a = (if p < num_slots a then Some (p \<in> used a) else None)"
  using slot_block[OF assms, of p]
  by (simp add: GetBit_def used_def slot_bit_def bits_per_block_def bit_iff_and_push_bit_not_eq_0 assert_that_def)

lemma SetBit_used:
  assumes "alloc_shape a" "p < num_slots a"
  obtains bm where "SetBit p a = Some (a\<lparr>bitmap := bm\<rparr>)" "length bm = length (bitmap a)"
    "used (a\<lparr>bitmap := bm\<rparr>) = insert p (used a)"
proof
  let ?bm = "(bitmap a)[p div 64 := bitmap a ! (p div 64) OR push_bit (p mod 64) 1]"
  show "SetBit p a = Some (a\<lparr>bitmap := ?bm\<rparr>)" "length ?bm = length (bitmap a)"
    using slot_block[OF assms] assms(2) by (simp_all add: SetBit_def bits_per_block_def)
  show "used (a\<lparr>bitmap := ?bm\<rparr>) = insert p (used a)"
    using slot_bit_set[OF slot_block[OF assms]] assms(2) by (auto simp: used_def)
qed

lemma UnsetBit_used:
  assumes "alloc_shape a" "p < num_slots a"
  obtains bm where "UnsetBit p a = Some (a\<lparr>bitmap := bm\<rparr>)" "length bm = length (bitmap a)"
    "used (a\<lparr>bitmap := bm\<rparr>) = used a - {p}"
proof
  let ?bm = "(bitmap a)[p div 64 := bitmap a ! (p div 64) AND NOT (push_bit (p mod 64) 1)]"
  show "UnsetBit p a = Some (a\<lparr>bitmap := ?bm\<rparr>)" "length ?bm = length (bitmap a)"
    using slot_block[OF assms] assms(2) by (simp_all add: UnsetBit_def bits_per_block_def)
  show "used (a\<lparr>bitmap := ?bm\<rparr>) = used a - {p}"
    using slot_bit_unset[OF slot_block[OF assms]] by (auto simp: used_def)
qed

section \<open>The searches end\<close>

lemma full_word: "NOT (w :: 64 word) = 0 \<longleftrightarrow> (\<forall>n < 64. bit w n)"
proof
  assume "NOT w = 0"
  then have "w = - 1" by (metis bit.double_compl minus_not_numeral_eq(1) not_one_eq bit.compl_zero)
  then show "\<forall>n < 64. bit w n" by simp
next
  assume "\<forall>n < 64. bit w n"
  then show "NOT w = 0" by (intro bit_word_eqI) (simp add: bit_not_iff)
qed

lemma find_slot_ends:
  assumes inv: "alloc_shape a" and free: "p < num_slots a" "p \<notin> used a" and le: "s \<le> p"
  shows "\<exists>q. find_slot a s = Some q \<and> q \<le> p \<and> q \<notin> used a"
  using le
proof (induction "p - s" arbitrary: s)
  case 0
  then show ?case using free GetBit_used[OF inv, of p] by (subst find_slot.simps) simp
next
  case (Suc n)
  have s: "GetBit s a = Some (s \<in> used a)" using GetBit_used[OF inv, of s] Suc.prems free(1) by simp
  show ?case
  proof (cases "s \<in> used a")
    case True
    then have "s + 1 \<le> p" using Suc.prems free(2) by (metis Suc_eq_plus1 Suc_leI le_neq_implies_less)
    moreover have "n = p - (s + 1)" using Suc.hyps(2) by simp
    ultimately show ?thesis using Suc.hyps(1)[of "s + 1"] True s by (subst find_slot.simps) simp
  next
    case False
    then show ?thesis using s Suc.prems by (subst find_slot.simps) simp
  qed
qed

lemma find_block_ends:
  assumes "length (bitmap a) = num_slots a div 64" "b < length (bitmap a)" "m < length (bitmap a)"
    "NOT (bitmap a ! ((b + m) mod length (bitmap a))) \<noteq> 0"
  shows "\<exists>c. find_block a b = Some c \<and> c < length (bitmap a) \<and> NOT (bitmap a ! c) \<noteq> 0"
  using assms(2-)
proof (induction m arbitrary: b)
  case 0
  then show ?case by (subst find_block.simps) simp
next
  case (Suc m)
  let ?n = "length (bitmap a)"
  show ?case
  proof (cases "NOT (bitmap a ! b) = 0")
    case True
    have "((b + 1) mod ?n + m) mod ?n = (b + Suc m) mod ?n" by (simp add: mod_simps)
    moreover have "(b + 1) mod ?n < ?n" using Suc.prems(1) by (intro mod_less_divisor) linarith
    ultimately have "\<exists>c. find_block a ((b + 1) mod ?n) = Some c \<and> c < ?n \<and> NOT (bitmap a ! c) \<noteq> 0"
      using Suc.IH[of "(b + 1) mod ?n"] Suc.prems by simp
    then show ?thesis using True Suc.prems(1) assms(1) by (subst find_block.simps) (simp add: bits_per_block_def)
  next
    case False
    then show ?thesis using Suc.prems(1) by (subst find_block.simps) simp
  qed
qed

section \<open>Allocation\<close>

lemma search_ends:
  assumes shape: "alloc_shape a" and p: "p < num_slots a" "p \<notin> used a" and b: "b < length (bitmap a)"
  shows "\<exists>c q. find_block a b = Some c \<and> find_slot a (c * 64) = Some q \<and> q < num_slots a \<and> q \<notin> used a"
proof -
  let ?n = "length (bitmap a)" and ?c = "p div 64"
  have c: "?c < ?n" by (rule slot_block[OF shape p(1)])
  have "\<not> bit (bitmap a ! ?c) (p mod 64)" using p by (simp add: used_def slot_bit_def)
  then have free: "NOT (bitmap a ! ?c) \<noteq> 0" using full_word[of "bitmap a ! ?c"] by auto
  define m where "m = (if b \<le> ?c then ?c - b else ?c + ?n - b)"
  have m: "m < ?n" "(b + m) mod ?n = ?c" using b c by (auto simp: m_def)
  obtain d where d: "find_block a b = Some d" "d < ?n" "NOT (bitmap a ! d) \<noteq> 0"
    using find_block_ends[OF alloc_shapeD(1)[OF shape] b m(1)] m(2) free by auto
  obtain k where k: "k < 64" "\<not> bit (bitmap a ! d) k" using d(3) full_word[of "bitmap a ! d"] by auto
  have q: "d * 64 + k < num_slots a" using alloc_shapeD(2)[OF shape] d(2) k(1) by linarith
  have "d * 64 + k \<notin> used a" using k by (simp add: used_def slot_bit_def)
  then obtain r where "find_slot a (d * 64) = Some r" "r \<le> d * 64 + k" "r \<notin> used a"
    using find_slot_ends[OF shape q _ le_add1] by blast
  then show ?thesis using d(1) q by fastforce
qed

lemma Allocate_full: "alloc_inv a \<Longrightarrow> card (used a) = num_slots a \<Longrightarrow> Allocate a = Some (None, a)"
  using alloc_invD(2)[of a] by (simp add: Allocate_def allocator_IsFull_def)

lemma Allocate_ok:
  assumes inv: "alloc_inv a" and room: "card (used a) < num_slots a"
  shows "\<exists>s a'. Allocate a = Some (Some s, a') \<and> alloc_inv a' \<and> s < num_slots a \<and> s \<notin> used a \<and>
     used a' = insert s (used a) \<and> num_slots a' = num_slots a \<and> alloc_bytes a' = alloc_bytes a"
proof -
  note I = alloc_invD[OF inv]
  have nf: "num_free_slots a \<noteq> 0" using I(2) room by simp
  let ?s = "next_free_slot a"
  have s: "?s < num_slots a" "?s \<notin> used a" using I(3)[OF nf] by auto
  obtain bm where bm: "SetBit ?s a = Some (a\<lparr>bitmap := bm\<rparr>)" "length bm = length (bitmap a)"
      "used (a\<lparr>bitmap := bm\<rparr>) = insert ?s (used a)"
    using SetBit_used[OF I(1) s(1)] .
  let ?a = "a\<lparr>bitmap := bm, num_free_slots := num_free_slots a - 1\<rparr>"
  have used: "used ?a = insert ?s (used a)" using bm(3) by (simp add: used_def)
  have shape: "alloc_shape ?a" using I(1) bm(2) by (simp add: alloc_shape_def)
  have count: "num_free_slots a - 1 + card (used ?a) = num_slots a" using used s(2) I(2) nf by simp
  show ?thesis
  proof (cases "num_free_slots a = 1")
    case True
    then have "Allocate a = Some (Some ?s, ?a)" using bm(1) by (simp add: Allocate_def allocator_IsFull_def Let_def)
    moreover have "alloc_inv ?a" using shape count True by (simp add: alloc_inv_def)
    ultimately show ?thesis using used s by simp
  next
    case False
    have "card (used ?a) < num_slots ?a" using count False nf by simp
    then have "\<exists>p. p < num_slots ?a \<and> p \<notin> used ?a"
      by (metis card_lessThan card_mono finite_used lessThan_iff linorder_not_less subsetI)
    then obtain p where p: "p < num_slots ?a" "p \<notin> used ?a" by blast
    have "?s div 64 < length (bitmap ?a)" using slot_block[OF I(1) s(1)] bm(2) by simp
    from search_ends[OF shape p this] obtain c q where q: "find_block ?a (?s div 64) = Some c"
        "find_slot ?a (c * 64) = Some q" "q < num_slots ?a" "q \<notin> used ?a" by blast
    let ?a' = "?a\<lparr>next_free_slot := q\<rparr>"
    have "Allocate a = Some (Some ?s, ?a')"
      using bm(1) q(1,2) nf False by (simp add: Allocate_def allocator_IsFull_def Let_def bits_per_block_def)
    moreover have u': "used ?a' = used ?a" by (simp add: used_def)
    moreover have "alloc_inv ?a'"
      using shape count q(3,4) u' by (simp add: alloc_inv_def alloc_shape_def)
    ultimately show ?thesis using used s by simp
  qed
qed

lemma Deallocate_ok:
  assumes inv: "alloc_inv a" and s: "s \<in> used a"
  shows "\<exists>a'. Deallocate s a = Some a' \<and> alloc_inv a' \<and> used a' = used a - {s} \<and> num_slots a' = num_slots a \<and>
     alloc_bytes a' = alloc_bytes a"
proof -
  note I = alloc_invD[OF inv]
  have lt: "s < num_slots a" using s by (simp add: used_def)
  obtain bm where bm: "UnsetBit s a = Some (a\<lparr>bitmap := bm\<rparr>)" "length bm = length (bitmap a)"
      "used (a\<lparr>bitmap := bm\<rparr>) = used a - {s}"
    using UnsetBit_used[OF I(1) lt] .
  let ?a = "a\<lparr>bitmap := bm, next_free_slot := s, num_free_slots := num_free_slots a + 1\<rparr>"
  have "Deallocate s a = Some ?a" using bm(1) GetBit_used[OF I(1), of s] lt s by (simp add: Deallocate_def)
  moreover have u: "used ?a = used a - {s}" using bm(3) by (simp add: used_def)
  moreover have "card (used a) = Suc (card (used a - {s}))"
    by (rule card_Suc_Diff1[OF finite_used s, symmetric])
  then have "alloc_inv ?a" using I(1,2) bm(2) u lt by (simp add: alloc_inv_def alloc_shape_def)
  ultimately show ?thesis by simp
qed

lemma Deallocate_bad:
  assumes "alloc_inv a" "s \<notin> used a"
  shows "Deallocate s a = None"
  using GetBit_used[OF alloc_invD(1)[OF assms(1)], of s] assms(2) by (simp add: Deallocate_def assert_that_def)

text \<open>No operation changes the extent of the slot memory.\<close>

lemma SetBit_mem: "SetBit p a = Some a' \<Longrightarrow> mem_slots a' = mem_slots a"
  by (auto simp: SetBit_def Let_def assert_that_def split: if_splits Option.bind_splits)

lemma UnsetBit_mem: "UnsetBit p a = Some a' \<Longrightarrow> mem_slots a' = mem_slots a"
  by (auto simp: UnsetBit_def Let_def assert_that_def split: if_splits Option.bind_splits)

lemma Allocate_mem: "Allocate a = Some (r, a') \<Longrightarrow> mem_slots a' = mem_slots a"
  by (auto simp: Allocate_def Let_def dest!: SetBit_mem split: if_splits Option.bind_splits)

lemma Deallocate_mem: "Deallocate s a = Some a' \<Longrightarrow> mem_slots a' = mem_slots a"
  by (auto simp: Deallocate_def Let_def dest!: UnsetBit_mem split: if_splits Option.bind_splits)

lemma MemoryAllocator_new_ok:
  assumes "64 dvd n" "128 \<le> n"
  shows "\<exists>a. MemoryAllocator_new sz n = Some a \<and> alloc_inv a \<and> used a = {} \<and> num_slots a = n \<and>
     mem_slots a = u32 (sz * n) div sz"
proof -
  have len: "n div 8 div 8 = n div 64" by (simp add: div_mult2_eq[symmetric])
  have "p div 64 < n div 64" if "p < n" for p using assms(1) that by (auto elim!: dvdE simp: less_mult_imp_div_less mult.commute)
  then show ?thesis using assms len
    by (auto simp: MemoryAllocator_new_def bits_per_block_def Let_def alloc_inv_def alloc_shape_def used_def slot_bit_def
        dvd_eq_mod_eq_0 assert_that_def)
qed

section \<open>The contract\<close>

text \<open>What the users of the pool rely on.\<close>

locale slot_pool =
  fixes inv :: "'a \<Rightarrow> bool"
    and taken :: "'a \<Rightarrow> nat set"
    and size :: "'a \<Rightarrow> nat"
    and get :: "'a \<Rightarrow> (nat option \<times> 'a) option"
    and put :: "nat \<Rightarrow> 'a \<Rightarrow> 'a option"
  assumes taken_bound: "inv a \<Longrightarrow> taken a \<subseteq> {..<size a}"
    and get_full: "inv a \<Longrightarrow> card (taken a) = size a \<Longrightarrow> get a = Some (None, a)"
    and get_ok: "inv a \<Longrightarrow> card (taken a) < size a \<Longrightarrow>
      \<exists>s a'. get a = Some (Some s, a') \<and> inv a' \<and> s < size a \<and> s \<notin> taken a \<and> taken a' = insert s (taken a) \<and> size a' = size a"
    and put_ok: "inv a \<Longrightarrow> s \<in> taken a \<Longrightarrow>
      \<exists>a'. put s a = Some a' \<and> inv a' \<and> taken a' = taken a - {s} \<and> size a' = size a"
    and put_bad: "inv a \<Longrightarrow> s \<notin> taken a \<Longrightarrow> put s a = None"
begin

lemma get_put:
  assumes "inv a" "card (taken a) < size a"
  shows "\<exists>s a' a''. get a = Some (Some s, a') \<and> put s a' = Some a'' \<and> inv a'' \<and> taken a'' = taken a \<and> size a'' = size a"
proof -
  obtain s a' where g: "get a = Some (Some s, a')" "inv a'" "s \<notin> taken a" "taken a' = insert s (taken a)" "size a' = size a"
    using get_ok[OF assms] by blast
  have "s \<in> taken a'" using g(4) by simp
  from put_ok[OF g(2) this] show ?thesis using g by auto
qed

lemma put_twice:
  assumes "inv a" "s \<in> taken a"
  shows "\<exists>a'. put s a = Some a' \<and> put s a' = None"
proof -
  obtain a' where "put s a = Some a'" "inv a'" "taken a' = taken a - {s}" using put_ok[OF assms] by blast
  then show ?thesis using put_bad[of a' s] by simp
qed

end

interpretation pool: slot_pool alloc_inv used num_slots Allocate Deallocate
proof unfold_locales
  fix a assume "alloc_inv a" "card (used a) < num_slots a"
  from Allocate_ok[OF this] show "\<exists>s a'. Allocate a = Some (Some s, a') \<and> alloc_inv a' \<and> s < num_slots a \<and> s \<notin> used a \<and>
    used a' = insert s (used a) \<and> num_slots a' = num_slots a" by blast
next
  fix a s assume "alloc_inv a" "s \<in> used a"
  from Deallocate_ok[OF this] show "\<exists>a'. Deallocate s a = Some a' \<and> alloc_inv a' \<and> used a' = used a - {s} \<and>
    num_slots a' = num_slots a" by blast
qed (simp_all add: used_subset Allocate_full Deallocate_bad)

section \<open>Properties\<close>

text \<open>
  C18.  The slot pool is sound: on a consistent pool \<open>Allocate\<close> returns \<open>NULL\<close> exactly if all slots are taken;
  otherwise both search loops end and it returns a slot that was free, marks exactly this slot, and
  freeing the slot again restores the set of free slots.  A second \<open>Deallocate\<close> of a free slot, or one out
  of bounds, fails an assertion.
\<close>

theorem slot_pool_sound:
  assumes "alloc_inv a"
  shows "\<exists>r a'. Allocate a = Some (r, a') \<and> alloc_inv a' \<and>
     (case r of None \<Rightarrow> used a = {..<num_slots a} \<and> a' = a
      | Some s \<Rightarrow> s < num_slots a \<and> s \<notin> used a \<and> used a' = insert s (used a) \<and>
          (\<exists>a''. Deallocate s a' = Some a'' \<and> alloc_inv a'' \<and> used a'' = used a \<and> Deallocate s a'' = None))"
proof (cases "card (used a) < num_slots a")
  case True
  obtain s a' where g: "Allocate a = Some (Some s, a')" "alloc_inv a'" "s < num_slots a" "s \<notin> used a" "used a' = insert s (used a)"
    using pool.get_ok[OF assms True] by blast
  moreover have "s \<in> used a'" using g(5) by simp
  from pool.put_ok[OF g(2) this] obtain a'' where "Deallocate s a' = Some a''" "alloc_inv a''" "used a'' = used a"
    using g(4,5) by auto
  moreover have "Deallocate s a'' = None" using pool.put_bad[OF calculation(7)] calculation(4,8) by simp
  ultimately show ?thesis by auto
next
  case False
  have "card (used a) \<le> num_slots a" using card_mono[OF _ used_subset, of a] by simp
  then have full: "card (used a) = num_slots a" using False by simp
  then have "used a = {..<num_slots a}" by (intro card_subset_eq) (simp_all add: used_subset)
  then show ?thesis using pool.get_full[OF assms full] assms by simp
qed

theorem slot_pool_sound_witness:
  "\<exists>a s a'. MemoryAllocator_new 24 128 = Some a \<and> Allocate a = Some (Some s, a') \<and> used a' = {s}"
proof -
  obtain a where a: "MemoryAllocator_new 24 128 = Some a" "alloc_inv a" "used a = {}" "num_slots a = 128"
    using MemoryAllocator_new_ok[of 128 24] by auto
  then have "used a \<noteq> {..<num_slots a}" by (metis lessThan_iff empty_iff zero_less_numeral)
  with slot_pool_sound[OF a(2)] a show ?thesis by (auto split: option.splits)
qed

end
