(* ===== verification/LruList.thy ===== *)
theory LruList
  imports LruAllocator
begin

text \<open>
  The doubly linked list of \<^verbatim>\<open>cvmfs/lru.h\<close> (\<open>ListEntry\<close>, \<open>ListEntryContent\<close>, \<open>ListEntryHead\<close>), kept in
  the slots of the memory pool.  A pointer to a list entry is the head or a slot; the \<open>next\<close> and \<open>prev\<close>
  members of all entries are two maps, updated one assignment at a time as in the code.  The abstract
  content is the list of slots between the head and itself, from the oldest to the newest entry.
\<close>

section \<open>The code\<close>

datatype ptr = Head | Slot nat

record 'k lru_list =
  pool :: allocator
  nxt :: "ptr \<Rightarrow> ptr"
  prv :: "ptr \<Rightarrow> ptr"
  content :: "nat \<Rightarrow> 'k"

definition lru_list_new :: "allocator \<Rightarrow> (nat \<Rightarrow> 'k) \<Rightarrow> 'k lru_list" where
  "lru_list_new a mem = \<lparr>pool = a, nxt = (\<lambda>_. Head), prv = (\<lambda>_. Head), content = mem\<rparr>"

definition IsLonely :: "ptr \<Rightarrow> 'k lru_list \<Rightarrow> bool" where
  "IsLonely p m = (nxt m p = p \<and> prv m p = p)"

text \<open>
  \<open>Construct\<close> copies a lonely entry: its own pointers point to the copy.  The copy is written into the slot
  memory; a slot beyond its end is a write out of bounds.
\<close>

definition Construct :: "'k \<Rightarrow> 'k lru_list \<Rightarrow> (nat option \<times> 'k lru_list) option" where
  "Construct object m = do {
     (mem, a) \<leftarrow> Allocate (pool m);
     (case mem of None \<Rightarrow> Some (None, m\<lparr>pool := a\<rparr>)
      | Some s \<Rightarrow> do {
          assert_that (s < mem_slots a);
          Some (Some s, m\<lparr>pool := a, nxt := (nxt m)(Slot s := Slot s), prv := (prv m)(Slot s := Slot s),
                          content := (content m)(s := object)\<rparr>)
        })
   }"

definition Destruct :: "nat \<Rightarrow> 'k lru_list \<Rightarrow> 'k lru_list option" where
  "Destruct object m = do { a \<leftarrow> Deallocate object (pool m); Some (m\<lparr>pool := a\<rparr>) }"

definition InsertAsSuccessor :: "ptr \<Rightarrow> nat \<Rightarrow> 'k lru_list \<Rightarrow> 'k lru_list option" where
  "InsertAsSuccessor this entry m = do {
     assert_that (IsLonely (Slot entry) m);
     let m1 = m\<lparr>nxt := (nxt m)(Slot entry := nxt m this)\<rparr>;
     let m2 = m1\<lparr>prv := (prv m1)(Slot entry := this)\<rparr>;
     let m3 = m2\<lparr>prv := (prv m2)(nxt m2 this := Slot entry)\<rparr>;
     let m4 = m3\<lparr>nxt := (nxt m3)(this := Slot entry)\<rparr>;
     assert_that (\<not> IsLonely (Slot entry) m4);
     Some m4
   }"

definition InsertAsPredecessor :: "ptr \<Rightarrow> nat \<Rightarrow> 'k lru_list \<Rightarrow> 'k lru_list option" where
  "InsertAsPredecessor this entry m = do {
     assert_that (IsLonely (Slot entry) m);
     let m1 = m\<lparr>nxt := (nxt m)(Slot entry := this)\<rparr>;
     let m2 = m1\<lparr>prv := (prv m1)(Slot entry := prv m1 this)\<rparr>;
     let m3 = m2\<lparr>nxt := (nxt m2)(prv m2 this := Slot entry)\<rparr>;
     let m4 = m3\<lparr>prv := (prv m3)(this := Slot entry)\<rparr>;
     assert_that (\<not> IsLonely (Slot entry) m4);
     Some m4
   }"

definition RemoveFromList :: "nat \<Rightarrow> 'k lru_list \<Rightarrow> 'k lru_list option" where
  "RemoveFromList s m = (let this = Slot s in do {
     assert_that (\<not> IsLonely this m);
     let m1 = m\<lparr>nxt := (nxt m)(prv m this := nxt m this)\<rparr>;
     let m2 = m1\<lparr>prv := (prv m1)(nxt m1 this := prv m1 this)\<rparr>;
     Some (m2\<lparr>nxt := (nxt m2)(this := this), prv := (prv m2)(this := this)\<rparr>)
   })"

partial_function (option) clear_loop :: "ptr \<Rightarrow> 'k lru_list \<Rightarrow> 'k lru_list option" where
  "clear_loop entry m = (case entry of Head \<Rightarrow> Some m
     | Slot delete_me \<Rightarrow> Option.bind (Destruct delete_me m) (\<lambda>m1. clear_loop (nxt m entry) m1))"

definition list_clear :: "'k lru_list \<Rightarrow> 'k lru_list option" where
  "list_clear m = do {
     m1 \<leftarrow> clear_loop (nxt m Head) m;
     Some (m1\<lparr>nxt := (nxt m1)(Head := Head), prv := (prv m1)(Head := Head)\<rparr>)
   }"

definition list_IsEmpty :: "'k lru_list \<Rightarrow> bool" where
  "list_IsEmpty m = IsLonely Head m"

definition PushBack :: "'k \<Rightarrow> 'k lru_list \<Rightarrow> (nat \<times> 'k lru_list) option" where
  "PushBack k m = do {
     (new_entry, m1) \<leftarrow> Construct k m;
     (case new_entry of None \<Rightarrow> None
      | Some s \<Rightarrow> do { m2 \<leftarrow> InsertAsPredecessor Head s m1; Some (s, m2) })
   }"

definition Pop :: "ptr \<Rightarrow> 'k lru_list \<Rightarrow> ('k \<times> 'k lru_list) option" where
  "Pop popped_entry m = (case popped_entry of Head \<Rightarrow> None
     | Slot s \<Rightarrow> do {
         m1 \<leftarrow> RemoveFromList s m;
         let result = content m1 s;
         m2 \<leftarrow> Destruct s m1;
         Some (result, m2)
       })"

definition PopFront :: "'k lru_list \<Rightarrow> ('k \<times> 'k lru_list) option" where
  "PopFront m = do { assert_that (\<not> list_IsEmpty m); Pop (nxt m Head) m }"

definition MoveToBack :: "nat \<Rightarrow> 'k lru_list \<Rightarrow> 'k lru_list option" where
  "MoveToBack entry m = do {
     assert_that (\<not> IsLonely (Slot entry) m);
     m1 \<leftarrow> RemoveFromList entry m;
     InsertAsPredecessor Head entry m1
   }"

section \<open>Segments\<close>

text \<open>\<open>seg m p xs q\<close>: from the entry \<open>p\<close> to the entry \<open>q\<close> the list runs through the slots \<open>xs\<close>, in both directions.\<close>

fun seg :: "'k lru_list \<Rightarrow> ptr \<Rightarrow> nat list \<Rightarrow> ptr \<Rightarrow> bool" where
  "seg m p [] q = (nxt m p = q \<and> prv m q = p)"
| "seg m p (x # xs) q = (nxt m p = Slot x \<and> prv m (Slot x) = p \<and> seg m (Slot x) xs q)"

lemma seg_append: "seg m p (xs @ x # ys) q \<longleftrightarrow> seg m p xs (Slot x) \<and> seg m (Slot x) ys q"
  by (induction xs arbitrary: p) auto

lemma seg_cong:
  assumes "\<forall>r \<in> insert p (Slot ` set xs). nxt m' r = nxt m r" "\<forall>r \<in> insert q (Slot ` set xs). prv m' r = prv m r"
  shows "seg m' p xs q = seg m p xs q"
  using assms by (induction xs arbitrary: p) auto

lemma seg_first: "seg m p xs q \<Longrightarrow> nxt m p = (case xs of [] \<Rightarrow> q | x # _ \<Rightarrow> Slot x)"
  by (cases xs) auto

lemma seg_last: "seg m p xs q \<Longrightarrow> prv m q = (if xs = [] then p else Slot (last xs))"
  by (induction xs arbitrary: p) auto

definition ring :: "'k lru_list \<Rightarrow> nat list \<Rightarrow> bool" where
  "ring m xs \<longleftrightarrow> seg m Head xs Head \<and> distinct xs"

lemma ring_not_lonely:
  assumes "ring m xs" "x \<in> set xs"
  shows "\<not> IsLonely (Slot x) m"
proof -
  obtain us vs where xs: "xs = us @ x # vs" using split_list[OF assms(2)] by blast
  then have "seg m (Slot x) vs Head" "x \<notin> set vs" using assms(1) by (auto simp: ring_def seg_append)
  then show ?thesis using seg_first[of m "Slot x" vs Head] by (cases vs) (auto simp: IsLonely_def)
qed

lemma ring_empty_iff: "ring m xs \<Longrightarrow> list_IsEmpty m \<longleftrightarrow> xs = []"
  by (cases xs) (auto simp: ring_def list_IsEmpty_def IsLonely_def)

lemma ring_insert:
  assumes r: "ring m xs" and s: "s \<notin> set xs" "IsLonely (Slot s) m"
  shows "\<exists>m'. InsertAsPredecessor Head s m = Some m' \<and> ring m' (xs @ [s]) \<and> pool m' = pool m \<and> content m' = content m"
proof -
  define p where "p = prv m Head"
  have p: "p = (if xs = [] then Head else Slot (last xs))" using seg_last[of m Head xs Head] r by (simp add: ring_def p_def)
  define m' where "m' = m\<lparr>nxt := (nxt m)(Slot s := Head, p := Slot s), prv := (prv m)(Slot s := p, Head := Slot s)\<rparr>"
  have ps: "p \<noteq> Slot s" using p s(1) last_in_set[of xs] by auto
  have "InsertAsPredecessor Head s m = Some m'"
    using s(2) ps by (simp add: InsertAsPredecessor_def Let_def m'_def p_def IsLonely_def)
  moreover have "seg m' Head (xs @ [s]) Head"
  proof (cases xs rule: rev_cases)
    case Nil
    then show ?thesis using p by (simp add: m'_def)
  next
    case (snoc ys y)
    then have py: "p = Slot y" using p by simp
    have seg: "seg m Head ys (Slot y)" "s \<noteq> y" "y \<notin> set ys" "s \<notin> set ys"
      using r s(1) snoc by (auto simp: ring_def seg_append)
    have "seg m' Head ys (Slot y)"
      using seg by (subst seg_cong[of _ _ _ m]) (auto simp: m'_def py)
    then show ?thesis using snoc seg(2) by (simp add: seg_append) (simp add: m'_def py)
  qed
  ultimately show ?thesis using r s(1) by (auto simp: ring_def m'_def)
qed

lemma ring_remove_at:
  assumes r: "ring m (xs @ s # ys)"
  shows "\<exists>m'. RemoveFromList s m = Some m' \<and> ring m' (xs @ ys) \<and> IsLonely (Slot s) m'
    \<and> pool m' = pool m \<and> content m' = content m"
proof -
  define p n where "p = prv m (Slot s)" and "n = nxt m (Slot s)"
  have sx: "seg m Head xs (Slot s)" and sy: "seg m (Slot s) ys Head" and d: "distinct (xs @ s # ys)"
    using r by (auto simp: ring_def seg_append)
  have p: "p = (if xs = [] then Head else Slot (last xs))" using seg_last[OF sx] by (simp add: p_def)
  have n: "n = (case ys of [] \<Rightarrow> Head | y # _ \<Rightarrow> Slot y)" using seg_first[OF sy] by (simp add: n_def)
  have ps: "p \<noteq> Slot s" using p d last_in_set[of xs] by auto
  have ns: "n \<noteq> Slot s" using n d by (cases ys) auto
  define m' where "m' = m\<lparr>nxt := (nxt m)(p := n, Slot s := Slot s), prv := (prv m)(n := p, Slot s := Slot s)\<rparr>"
  have "RemoveFromList s m = Some m'"
    using ps ns by (auto simp: RemoveFromList_def Let_def m'_def p_def n_def IsLonely_def)
  moreover have "seg m' Head (xs @ ys) Head"
  proof -
    have R: "seg m' p ys Head"
    proof (cases ys)
      case Nil
      then show ?thesis using n ps ns by (simp add: m'_def)
    next
      case (Cons y zs)
      have "seg m (Slot y) zs Head" using sy Cons by simp
      moreover have "p \<notin> insert (Slot y) (Slot ` set zs)" using p d Cons last_in_set[of xs] by (cases "xs = []") (auto simp: disjoint_iff)
      ultimately have "seg m' (Slot y) zs Head"
        using d Cons n by (subst seg_cong[of _ _ _ m]) (auto simp: m'_def)
      then show ?thesis using Cons n ps ns by (simp add: m'_def)
    qed
    show ?thesis
    proof (cases xs rule: rev_cases)
      case Nil
      then show ?thesis using R p by simp
    next
      case (snoc zs z)
      have "seg m Head zs (Slot z)" using sx snoc by (simp add: seg_append)
      moreover have "n \<notin> insert (Slot z) (Slot ` set zs)" using n d snoc by (cases ys) auto
      ultimately have "seg m' Head zs (Slot z)"
        using d snoc p by (subst seg_cong[of _ _ _ m]) (auto simp: m'_def)
      then show ?thesis using R p snoc by (simp add: seg_append)
    qed
  qed
  ultimately show ?thesis using d by (auto simp: ring_def IsLonely_def m'_def)
qed

section \<open>The list operations\<close>

text \<open>The list owns its slots: the slots handed out by the pool are the slots of the list.\<close>

definition list_inv :: "'k lru_list \<Rightarrow> nat list \<Rightarrow> bool" where
  "list_inv m xs \<longleftrightarrow> ring m xs \<and> alloc_inv (pool m) \<and> used (pool m) = set xs \<and>
     num_slots (pool m) \<le> mem_slots (pool m)"

text \<open>The laws of the list operations, by the effect on the list of slots.\<close>

lemma remove1_split: "distinct (us @ s # vs) \<Longrightarrow> remove1 s (us @ s # vs) = us @ vs"
  by (simp add: remove1_append)

lemma ring_remove:
  assumes "ring m xs" "s \<in> set xs"
  shows "\<exists>m'. RemoveFromList s m = Some m' \<and> ring m' (remove1 s xs) \<and> IsLonely (Slot s) m'
    \<and> pool m' = pool m \<and> content m' = content m"
proof -
  obtain us vs where xs: "xs = us @ s # vs" using split_list[OF assms(2)] by blast
  have "distinct (us @ s # vs)" using assms(1) xs by (simp add: ring_def)
  then show ?thesis using ring_remove_at[of m us s vs] assms(1) remove1_split xs by metis
qed

lemma list_invD:
  assumes "list_inv m xs"
  shows "ring m xs" "alloc_inv (pool m)" "used (pool m) = set xs" "distinct xs" "card (used (pool m)) = length xs"
    "num_slots (pool m) \<le> mem_slots (pool m)"
  using assms by (simp_all add: list_inv_def ring_def distinct_card)

lemma list_new_inv: "alloc_inv a \<Longrightarrow> used a = {} \<Longrightarrow> num_slots a \<le> mem_slots a \<Longrightarrow> list_inv (lru_list_new a c) []"
  by (simp add: list_inv_def ring_def lru_list_new_def)

lemma PushBack_ok:
  assumes inv: "list_inv m xs" and room: "length xs < num_slots (pool m)"
  shows "\<exists>s m'. PushBack k m = Some (s, m') \<and> s \<notin> set xs \<and> list_inv m' (xs @ [s]) \<and>
    content m' = (content m)(s := k) \<and> num_slots (pool m') = num_slots (pool m)"
proof -
  note I = list_invD[OF inv]
  obtain s a where a: "Allocate (pool m) = Some (Some s, a)" "alloc_inv a" "s \<notin> used (pool m)"
    "used a = insert s (used (pool m))" "num_slots a = num_slots (pool m)" "s < num_slots (pool m)"
    using pool.get_ok[OF I(2)] I(5) room by auto
  define m1 where "m1 = m\<lparr>pool := a, nxt := (nxt m)(Slot s := Slot s), prv := (prv m)(Slot s := Slot s),
    content := (content m)(s := k)\<rparr>"
  have s: "s \<notin> set xs" using a(3) I(3) by simp
  have "seg m1 Head xs Head = seg m Head xs Head" using s by (intro seg_cong) (auto simp: m1_def)
  then have "ring m1 xs" using I(1) by (simp add: ring_def)
  moreover have "IsLonely (Slot s) m1" by (simp add: IsLonely_def m1_def)
  ultimately obtain m' where m': "InsertAsPredecessor Head s m1 = Some m'" "ring m' (xs @ [s])" "pool m' = pool m1"
    "content m' = content m1" using ring_insert[OF _ s] by blast
  have mem: "mem_slots a = mem_slots (pool m)" using Allocate_mem[OF a(1)] .
  have "PushBack k m = Some (s, m')" using a(1,6) m'(1) mem I(6) by (simp add: PushBack_def Construct_def m1_def)
  then show ?thesis using s a m' I(3,6) mem by (simp add: list_inv_def m1_def)
qed

lemma PushBack_full:
  assumes "list_inv m xs" "length xs = num_slots (pool m)"
  shows "PushBack k m = None"
  using pool.get_full[of "pool m"] assms by (simp add: PushBack_def Construct_def list_invD(2,5))

lemma release_ok:
  assumes inv: "list_inv m xs" and s: "s \<in> set xs"
  shows "\<exists>m1 m'. RemoveFromList s m = Some m1 \<and> Destruct s m1 = Some m' \<and> list_inv m' (remove1 s xs) \<and>
    content m1 = content m \<and> content m' = content m \<and> num_slots (pool m') = num_slots (pool m)"
proof -
  note I = list_invD[OF inv]
  obtain m1 where m1: "RemoveFromList s m = Some m1" "ring m1 (remove1 s xs)" "pool m1 = pool m" "content m1 = content m"
    using ring_remove[OF I(1) s] by blast
  obtain a where a: "Deallocate s (pool m) = Some a" "alloc_inv a" "used a = used (pool m) - {s}" "num_slots a = num_slots (pool m)"
    using pool.put_ok[OF I(2), of s] s I(3) by auto
  define m' where "m' = m1\<lparr>pool := a\<rparr>"
  have "seg m' Head (remove1 s xs) Head = seg m1 Head (remove1 s xs) Head" by (intro seg_cong) (auto simp: m'_def)
  then have "ring m' (remove1 s xs)" using m1(2) by (simp add: ring_def)
  moreover have "Destruct s m1 = Some m'" using a(1) m1(3) by (simp add: Destruct_def m'_def)
  ultimately show ?thesis using m1 a I(3,4,6) Deallocate_mem[OF a(1)] by (auto simp: list_inv_def m'_def)
qed

lemma Pop_ok:
  assumes "list_inv m xs" "s \<in> set xs"
  shows "\<exists>m'. Pop (Slot s) m = Some (content m s, m') \<and> list_inv m' (remove1 s xs) \<and> content m' = content m \<and>
    num_slots (pool m') = num_slots (pool m)"
  using release_ok[OF assms] by (auto simp: Pop_def)

lemma PopFront_ok:
  assumes "list_inv m (x # xs)"
  shows "\<exists>m'. PopFront m = Some (content m x, m') \<and> list_inv m' xs \<and> content m' = content m \<and>
    num_slots (pool m') = num_slots (pool m)"
proof -
  have "nxt m Head = Slot x" "\<not> list_IsEmpty m"
    using list_invD(1)[OF assms] ring_empty_iff[of m "x # xs"] by (auto simp: ring_def)
  then show ?thesis using Pop_ok[OF assms, of x] by (simp add: PopFront_def)
qed

lemma MoveToBack_ok:
  assumes inv: "list_inv m xs" and s: "s \<in> set xs"
  shows "\<exists>m'. MoveToBack s m = Some m' \<and> list_inv m' (remove1 s xs @ [s]) \<and> content m' = content m \<and> pool m' = pool m"
proof -
  note I = list_invD[OF inv]
  obtain m1 where m1: "RemoveFromList s m = Some m1" "ring m1 (remove1 s xs)" "IsLonely (Slot s) m1" "pool m1 = pool m" "content m1 = content m"
    using ring_remove[OF I(1) s] by blast
  have "s \<notin> set (remove1 s xs)" using I(4) by simp
  from ring_insert[OF m1(2) this m1(3)] show ?thesis
    using ring_not_lonely[OF I(1) s] m1 I s by (auto simp: MoveToBack_def list_inv_def)
qed

lemma clear_loop_ok:
  assumes "seg m p xs Head" "distinct xs" "alloc_inv (pool m)" "used (pool m) = set xs"
  shows "\<exists>a. clear_loop (nxt m p) m = Some (m\<lparr>pool := a\<rparr>) \<and> alloc_inv a \<and> used a = {} \<and> num_slots a = num_slots (pool m) \<and>
    mem_slots a = mem_slots (pool m)"
  using assms
proof (induction xs arbitrary: p m)
  case Nil
  then show ?case by (intro exI[of _ "pool m"]) (simp add: clear_loop.simps)
next
  case (Cons x xs)
  obtain a where a: "Deallocate x (pool m) = Some a" "alloc_inv a" "used a = used (pool m) - {x}" "num_slots a = num_slots (pool m)"
    using pool.put_ok[OF Cons.prems(3), of x] Cons.prems(4) by auto
  define m1 where "m1 = m\<lparr>pool := a\<rparr>"
  have "seg m1 (Slot x) xs Head = seg m (Slot x) xs Head" by (intro seg_cong) (auto simp: m1_def)
  then have "seg m1 (Slot x) xs Head" using Cons.prems(1) by simp
  from Cons.IH[OF this] obtain b where b: "clear_loop (nxt m1 (Slot x)) m1 = Some (m1\<lparr>pool := b\<rparr>)" "alloc_inv b" "used b = {}"
    "num_slots b = num_slots a" "mem_slots b = mem_slots a" using a Cons.prems by (auto simp: m1_def)
  have "clear_loop (nxt m p) m = clear_loop (nxt m (Slot x)) m1"
    using Cons.prems(1) a(1) by (subst clear_loop.simps) (simp add: Destruct_def m1_def)
  then show ?case using a(4) b Deallocate_mem[OF a(1)] by (auto simp: m1_def)
qed

lemma list_clear_ok:
  assumes "list_inv m xs"
  shows "\<exists>m'. list_clear m = Some m' \<and> list_inv m' [] \<and> num_slots (pool m') = num_slots (pool m) \<and> content m' = content m"
proof -
  note I = list_invD[OF assms]
  obtain a where "clear_loop (nxt m Head) m = Some (m\<lparr>pool := a\<rparr>)" "alloc_inv a" "used a = {}" "num_slots a = num_slots (pool m)"
      "mem_slots a = mem_slots (pool m)"
    using clear_loop_ok[OF _ I(4,2,3)] I(1) by (auto simp: ring_def)
  then show ?thesis using I(6) by (simp add: list_clear_def list_inv_def ring_def)
qed

end
