(* ===== verification/LruCache.thy ===== *)
theory LruCache
  imports LruList SmallHash
begin

text \<open>
  \<open>LruCache\<close> of \<^verbatim>\<open>cvmfs/lru.h\<close>: a fixed-size hash table from keys to cache entries, and the list of keys in
  the order of their last use.  The mutex is a flag: locking it twice from one thread never returns.
  The abstract cache is an association list, oldest entry first, and the position of the filter
  operation in it; every operation is shown to refine an operation on association lists.
\<close>

section \<open>The code\<close>

record lru_counters =
  sz_size :: int
  n_hit :: int
  n_miss :: int
  n_insert :: int
  n_insert_negative :: int
  c_num_collisions :: nat
  c_max_collisions :: nat
  n_update :: int
  n_update_value :: int
  n_replace :: int
  n_forget :: int
  n_drop :: int
  sz_allocated :: int

definition Counters_new :: lru_counters where
  "Counters_new = \<lparr>sz_size = 0, n_hit = 0, n_miss = 0, n_insert = 0, n_insert_negative = 0, c_num_collisions = 0, c_max_collisions = 0,
     n_update = 0, n_update_value = 0, n_replace = 0, n_forget = 0, n_drop = 0, sz_allocated = 0\<rparr>"

record 'v cache_entry =
  list_entry :: nat
  entry_value :: 'v

record ('k, 'v) lru_cache =
  counters :: lru_counters
  paused :: bool
  cache_gauge :: nat
  cache_size :: nat
  lru_list :: "'k lru_list"
  cache :: "('k, 'v cache_entry) smallhash"
  filter_entry :: "ptr option"
  locked :: bool

definition LruCache_new ::
  "nat \<Rightarrow> ('k, 'v cache_entry) tparams \<Rightarrow> (nat \<Rightarrow> 'k) \<Rightarrow> nat \<Rightarrow> 'k \<Rightarrow> ('k \<Rightarrow> 32 word) \<Rightarrow> ('k, 'v) lru_cache option" where
  "LruCache_new sizeof_entry tp mem n emp h = do {
     a \<leftarrow> MemoryAllocator_new sizeof_entry n;
     assert_that (n > 0);
     t \<leftarrow> fixed_Init tp n emp h;
     Some \<lparr>counters = Counters_new\<lparr>sz_size := int n, sz_allocated := int (alloc_bytes a + bytes_allocated t)\<rparr>,
           paused = False, cache_gauge = 0, cache_size = n, lru_list = lru_list_new a mem, cache = t,
           filter_entry = None, locked = False\<rparr>
   }"

definition Lock :: "('k, 'v) lru_cache \<Rightarrow> ('k, 'v) lru_cache option" where
  "Lock c = (if locked c then None else Some (c\<lparr>locked := True\<rparr>))"

definition Unlock :: "('k, 'v) lru_cache \<Rightarrow> ('k, 'v) lru_cache" where
  "Unlock c = c\<lparr>locked := False\<rparr>"

definition lru_IsFull :: "('k, 'v) lru_cache \<Rightarrow> bool" where
  "lru_IsFull c = (cache_gauge c \<ge> cache_size c)"

definition lru_IsEmpty :: "('k, 'v) lru_cache \<Rightarrow> bool" where
  "lru_IsEmpty c = (cache_gauge c = 0)"

definition Touch :: "'v cache_entry \<Rightarrow> ('k, 'v) lru_cache \<Rightarrow> ('k, 'v) lru_cache option" where
  "Touch entry c = do { l \<leftarrow> MoveToBack (list_entry entry) (lru_list c); Some (c\<lparr>lru_list := l\<rparr>) }"

definition DeleteOldest :: "('k, 'v) lru_cache \<Rightarrow> ('k, 'v) lru_cache option" where
  "DeleteOldest c = do {
     assert_that (\<not> lru_IsEmpty c);
     let c1 = c\<lparr>counters := (counters c)\<lparr>n_replace := n_replace (counters c) + 1\<rparr>\<rparr>;
     (delete_me, l) \<leftarrow> PopFront (lru_list c1);
     (_, t) \<leftarrow> hash_erase delete_me (cache c1);
     Some (c1\<lparr>lru_list := l, cache := t, cache_gauge := u32 (cache_gauge c1 + 4294967295)\<rparr>)
   }"

definition lru_Insert :: "'k \<Rightarrow> 'v \<Rightarrow> ('k, 'v) lru_cache \<Rightarrow> (bool \<times> ('k, 'v) lru_cache) option" where
  "lru_Insert key v c0 = do {
     c \<leftarrow> Lock c0;
     if paused c then Some (False, Unlock c) else do {
       found \<leftarrow> hash_lookup key (cache c);
       (case found of
         Some entry \<Rightarrow> do {
           let c1 = c\<lparr>counters := (counters c)\<lparr>n_update := n_update (counters c) + 1\<rparr>\<rparr>;
           let entry1 = entry\<lparr>entry_value := v\<rparr>;
           t \<leftarrow> hash_insert key entry1 (cache c1);
           c2 \<leftarrow> Touch entry1 (c1\<lparr>cache := t\<rparr>);
           Some (False, Unlock c2)
         }
       | None \<Rightarrow> do {
           let c1 = c\<lparr>counters := (counters c)\<lparr>n_insert := n_insert (counters c) + 1\<rparr>\<rparr>;
           c2 \<leftarrow> (if lru_IsFull c1 then DeleteOldest c1 else Some c1);
           (e, l) \<leftarrow> PushBack key (lru_list c2);
           t \<leftarrow> hash_insert key \<lparr>list_entry = e, entry_value = v\<rparr> (cache c2);
           Some (True, Unlock (c2\<lparr>lru_list := l, cache := t, cache_gauge := u32 (cache_gauge c2 + 1)\<rparr>))
         })
     }
   }"

definition lru_Update :: "'k \<Rightarrow> ('k, 'v) lru_cache \<Rightarrow> ('k, 'v) lru_cache option" where
  "lru_Update key c0 = do {
     c \<leftarrow> Lock c0;
     assert_that (\<not> paused c);
     found \<leftarrow> hash_lookup key (cache c);
     (case found of None \<Rightarrow> None
      | Some entry \<Rightarrow> do {
          c1 \<leftarrow> Touch entry (c\<lparr>counters := (counters c)\<lparr>n_update := n_update (counters c) + 1\<rparr>\<rparr>);
          Some (Unlock c1)
        })
   }"

definition lru_UpdateValue :: "'k \<Rightarrow> 'v \<Rightarrow> ('k, 'v) lru_cache \<Rightarrow> (bool \<times> ('k, 'v) lru_cache) option" where
  "lru_UpdateValue key v c0 = do {
     c \<leftarrow> Lock c0;
     if paused c then Some (False, Unlock c) else do {
       found \<leftarrow> hash_lookup key (cache c);
       (case found of None \<Rightarrow> Some (False, Unlock c)
        | Some entry \<Rightarrow> do {
            let c1 = c\<lparr>counters := (counters c)\<lparr>n_update_value := n_update_value (counters c) + 1\<rparr>\<rparr>;
            t \<leftarrow> hash_insert key (entry\<lparr>entry_value := v\<rparr>) (cache c1);
            Some (True, Unlock (c1\<lparr>cache := t\<rparr>))
          })
     }
   }"

text \<open>\<open>Lookup\<close> returns the value through its out parameter, which a miss leaves alone.\<close>

definition lru_Lookup :: "'k \<Rightarrow> bool \<Rightarrow> ('k, 'v) lru_cache \<Rightarrow> ('v option \<times> ('k, 'v) lru_cache) option" where
  "lru_Lookup key update_lru c0 = do {
     c \<leftarrow> Lock c0;
     if paused c then Some (None, Unlock c) else do {
       found \<leftarrow> hash_lookup key (cache c);
       (case found of
         Some entry \<Rightarrow> do {
           let c1 = c\<lparr>counters := (counters c)\<lparr>n_hit := n_hit (counters c) + 1\<rparr>\<rparr>;
           c2 \<leftarrow> (if update_lru then Touch entry c1 else Some c1);
           Some (Some (entry_value entry), Unlock c2)
         }
       | None \<Rightarrow> Some (None, Unlock (c\<lparr>counters := (counters c)\<lparr>n_miss := n_miss (counters c) + 1\<rparr>\<rparr>)))
     }
   }"

definition lru_Forget :: "'k \<Rightarrow> ('k, 'v) lru_cache \<Rightarrow> (bool \<times> ('k, 'v) lru_cache) option" where
  "lru_Forget key c0 = do {
     c \<leftarrow> Lock c0;
     if paused c then Some (False, Unlock c) else do {
       found \<leftarrow> hash_lookup key (cache c);
       (case found of None \<Rightarrow> Some (False, Unlock c)
        | Some entry \<Rightarrow> do {
            let c1 = c\<lparr>counters := (counters c)\<lparr>n_forget := n_forget (counters c) + 1\<rparr>\<rparr>;
            l1 \<leftarrow> RemoveFromList (list_entry entry) (lru_list c1);
            l2 \<leftarrow> Destruct (list_entry entry) l1;
            (_, t) \<leftarrow> hash_erase key (cache c1);
            Some (True, Unlock (c1\<lparr>lru_list := l2, cache := t, cache_gauge := u32 (cache_gauge c1 + 4294967295)\<rparr>))
          })
     }
   }"

definition lru_Drop :: "('k, 'v) lru_cache \<Rightarrow> ('k, 'v) lru_cache option" where
  "lru_Drop c0 = do {
     c \<leftarrow> Lock c0;
     l \<leftarrow> list_clear (lru_list c);
     t \<leftarrow> hash_clear (cache c);
     let n = n_drop (counters c) + 1;
     Some (Unlock (c\<lparr>cache_gauge := 0, lru_list := l, cache := t,
       counters := (counters c)\<lparr>n_drop := n, sz_allocated := int (alloc_bytes (pool l) + bytes_allocated t)\<rparr>\<rparr>))
   }"

definition lru_Pause :: "('k, 'v) lru_cache \<Rightarrow> ('k, 'v) lru_cache option" where
  "lru_Pause c0 = do { c \<leftarrow> Lock c0; Some (Unlock (c\<lparr>paused := True\<rparr>)) }"

definition lru_Resume :: "('k, 'v) lru_cache \<Rightarrow> ('k, 'v) lru_cache option" where
  "lru_Resume c0 = do { c \<leftarrow> Lock c0; Some (Unlock (c\<lparr>paused := False\<rparr>)) }"

definition lru_counters_get :: "('k, 'v) lru_cache \<Rightarrow> (lru_counters \<times> ('k, 'v) lru_cache) option" where
  "lru_counters_get c0 = do {
     c \<leftarrow> Lock c0;
     let cs = (counters c)\<lparr>c_num_collisions := num_collisions (cache c), c_max_collisions := max_collisions (cache c)\<rparr>;
     Some (cs, Unlock (c\<lparr>counters := cs\<rparr>))
   }"

definition FilterBegin :: "('k, 'v) lru_cache \<Rightarrow> ('k, 'v) lru_cache option" where
  "FilterBegin c = do {
     assert_that (filter_entry c = None);
     c1 \<leftarrow> Lock c;
     Some (c1\<lparr>filter_entry := Some Head\<rparr>)
   }"

definition FilterGet :: "('k, 'v) lru_cache \<Rightarrow> ('k \<times> 'v) option" where
  "FilterGet c = (case filter_entry c of Some (Slot s) \<Rightarrow> do {
     let key = content (lru_list c) s;
     found \<leftarrow> hash_lookup key (cache c);
     (case found of None \<Rightarrow> None | Some entry \<Rightarrow> Some (key, entry_value entry))
   } | _ \<Rightarrow> None)"

definition FilterNext :: "('k, 'v) lru_cache \<Rightarrow> (bool \<times> ('k, 'v) lru_cache) option" where
  "FilterNext c = (case filter_entry c of None \<Rightarrow> None
     | Some p \<Rightarrow> (let p' = nxt (lru_list c) p in Some (p' \<noteq> Head, c\<lparr>filter_entry := Some p'\<rparr>)))"

definition FilterDelete :: "('k, 'v) lru_cache \<Rightarrow> ('k, 'v) lru_cache option" where
  "FilterDelete c = (case filter_entry c of Some (Slot s) \<Rightarrow> do {
     let new_current = prv (lru_list c) (Slot s);
     let c1 = c\<lparr>counters := (counters c)\<lparr>n_forget := n_forget (counters c) + 1\<rparr>\<rparr>;
     let k = content (lru_list c1) s;
     l1 \<leftarrow> RemoveFromList s (lru_list c1);
     l2 \<leftarrow> Destruct s l1;
     (_, t) \<leftarrow> hash_erase k (cache c1);
     Some (c1\<lparr>lru_list := l2, cache := t, cache_gauge := u32 (cache_gauge c1 + 4294967295), filter_entry := Some new_current\<rparr>)
   } | _ \<Rightarrow> None)"

definition FilterEnd :: "('k, 'v) lru_cache \<Rightarrow> ('k, 'v) lru_cache option" where
  "FilterEnd c = (if filter_entry c = None then None else Some (Unlock (c\<lparr>filter_entry := None\<rparr>)))"

section \<open>Representation\<close>

text \<open>
  A node is a slot with its key and value.  \<open>lru_rep c ns pos\<close>: the cache \<open>c\<close> holds the nodes \<open>ns\<close>, oldest
  first, and a filter operation stands at position \<open>pos\<close> (0 is the head of the list).
\<close>

definition node_map :: "(nat \<times> 'k \<times> 'v) list \<Rightarrow> 'k \<rightharpoonup> 'v cache_entry" where
  "node_map ns = map_of (map (\<lambda>(s, k, v). (k, \<lparr>list_entry = s, entry_value = v\<rparr>)) ns)"

definition node_key :: "nat \<times> 'k \<times> 'v \<Rightarrow> 'k" where
  "node_key n = fst (snd n)"

definition filter_at :: "nat option \<Rightarrow> nat list \<Rightarrow> ptr option" where
  "filter_at pos xs = map_option (\<lambda>i. if i = 0 then Head else Slot (xs ! (i - 1))) pos"

definition core_rep :: "nat \<Rightarrow> 'k lru_list \<Rightarrow> ('k, 'v cache_entry) smallhash \<Rightarrow> (nat \<times> 'k \<times> 'v) list \<Rightarrow> bool" where
  "core_rep n l t ns \<longleftrightarrow> list_inv l (map fst ns) \<and> (\<forall>(s, k, v) \<in> set ns. content l s = k \<and> k \<noteq> empty_key t) \<and>
     distinct (map node_key ns) \<and> sh_inv t \<and> sh_abs t = node_map ns \<and>
     length ns \<le> n \<and> num_slots (pool l) = n \<and> n < capacity t \<and> 0 < n \<and> n < 2 ^ 32"

definition lru_rep :: "('k, 'v) lru_cache \<Rightarrow> (nat \<times> 'k \<times> 'v) list \<Rightarrow> nat option \<Rightarrow> bool" where
  "lru_rep c ns pos \<longleftrightarrow> core_rep (cache_size c) (lru_list c) (cache c) ns \<and> cache_gauge c = length ns \<and>
     filter_entry c = filter_at pos (map fst ns) \<and> locked c = (pos \<noteq> None) \<and> (\<forall>i. pos = Some i \<longrightarrow> i \<le> length ns)"

section \<open>Nodes\<close>

lemma node_key_simp [simp]: "node_key (s, k, v) = k"
  by (simp add: node_key_def)

lemma node_map_Cons: "node_map ((s, k, v) # ns) = (node_map ns)(k \<mapsto> \<lparr>list_entry = s, entry_value = v\<rparr>)"
  by (simp add: node_map_def)

lemma node_map_append: "node_map (us @ vs) = node_map vs ++ node_map us"
  by (simp add: node_map_def)

lemma node_map_None: "node_map ns k = None \<longleftrightarrow> k \<notin> node_key ` set ns"
  by (induction ns) (auto simp: node_map_def node_key_def split: prod.splits)

lemma node_map_Nil [simp]: "node_map [] = Map.empty"
  by (simp add: node_map_def)

lemma node_map_in: "node_map ns k = Some e \<Longrightarrow> (list_entry e, k, entry_value e) \<in> set ns"
  by (auto simp: node_map_def dest!: map_of_SomeD)

lemma node_map_split:
  assumes "node_map ns k = Some e"
  obtains us vs where "ns = us @ (list_entry e, k, entry_value e) # vs"
  using split_list[OF node_map_in[OF assms]] by blast

lemma node_map_snoc:
  assumes "k \<notin> node_key ` set ns"
  shows "node_map (ns @ [(s, k, v)]) = (node_map ns)(k \<mapsto> \<lparr>list_entry = s, entry_value = v\<rparr>)"
  using assms by (auto simp: node_map_append node_map_Cons map_add_def fun_eq_iff node_map_None[symmetric] split: option.splits)

lemma node_map_update:
  assumes "distinct (map node_key (us @ (s, k, v) # vs))"
  shows "node_map (us @ (s, k, w) # vs) = (node_map (us @ (s, k, v) # vs))(k \<mapsto> \<lparr>list_entry = s, entry_value = w\<rparr>)"
proof -
  have "node_map us k = None" using assms by (auto simp: node_map_None)
  then show ?thesis by (auto simp: node_map_append node_map_Cons map_add_def fun_eq_iff split: option.splits)
qed

lemma node_map_remove:
  assumes "distinct (map node_key (us @ (s, k, v) # vs))"
  shows "node_map (us @ vs) = (node_map (us @ (s, k, v) # vs))(k := None)"
proof -
  have "node_map us k = None" "node_map vs k = None" using assms by (auto simp: node_map_None)
  then show ?thesis by (auto simp: node_map_append node_map_Cons map_add_def fun_eq_iff split: option.splits)
qed

lemma node_map_rotate:
  assumes "distinct (map node_key (us @ x # vs))"
  shows "node_map (us @ vs @ [x]) = node_map (us @ x # vs)"
proof -
  obtain s k v where x: "x = (s, k, v)" by (cases x) auto
  have "k \<notin> node_key ` set (us @ vs)" using assms x by auto
  from node_map_snoc[OF this] show ?thesis
    using node_map_remove[OF assms[unfolded x]] node_map_None[of us k] assms
    by (auto simp: x fun_eq_iff node_map_append node_map_Cons map_add_def split: option.splits)
qed

section \<open>List and table together\<close>

lemma core_repD:
  assumes "core_rep n l t ns"
  shows "list_inv l (map fst ns)" "distinct (map node_key ns)" "sh_inv t" "sh_abs t = node_map ns" "length ns \<le> n"
    "num_slots (pool l) = n" "n < capacity t" "0 < n" "n < 2 ^ 32" "distinct (map fst ns)"
    "\<And>s k v. (s, k, v) \<in> set ns \<Longrightarrow> content l s = k \<and> k \<noteq> empty_key t"
  using assms list_invD(4)[of l "map fst ns"] by (auto simp: core_rep_def)

lemma core_lookup: "core_rep n l t ns \<Longrightarrow> k \<noteq> empty_key t \<Longrightarrow> hash_lookup k t = Some (node_map ns k)"
  using core_repD(3,4) hash_lookup_correct by metis

lemma dom_card:
  assumes "core_rep n l t ns"
  shows "card (dom (sh_abs t)) = length ns"
proof -
  have "dom (sh_abs t) = node_key ` set ns" using core_repD(4)[OF assms] node_map_None[of ns] by (auto simp: dom_def)
  then show ?thesis using core_repD(2)[OF assms] distinct_card[of "map node_key ns"] by simp
qed

lemma core_touch:
  assumes "core_rep n l t (us @ x # vs)"
  shows "\<exists>l'. MoveToBack (fst x) l = Some l' \<and> core_rep n l' t (us @ vs @ [x])"
proof -
  note C = core_repD[OF assms]
  have "remove1 (fst x) (map fst (us @ x # vs)) = map fst (us @ vs)"
    using remove1_split[of "map fst us" "fst x" "map fst vs"] C(10) by simp
  with MoveToBack_ok[OF C(1), of "fst x"]
  obtain l' where l': "MoveToBack (fst x) l = Some l'" "list_inv l' (map fst (us @ vs @ [x]))" "content l' = content l" "pool l' = pool l"
    by auto
  have "core_rep n l' t (us @ vs @ [x])"
    using l' C assms by (auto simp: core_rep_def node_map_rotate)
  then show ?thesis using l'(1) by blast
qed

lemma core_value:
  assumes "core_rep n l t (us @ (s, k, v) # vs)"
  shows "\<exists>t'. hash_insert k \<lparr>list_entry = s, entry_value = w\<rparr> t = Some t' \<and> core_rep n l t' (us @ (s, k, w) # vs) \<and>
    empty_key t' = empty_key t"
proof -
  note C = core_repD[OF assms]
  have "k \<noteq> empty_key t" using C(11)[of s k v] by simp
  moreover have "sh_abs t k \<noteq> None" using node_map_None[of "us @ (s, k, v) # vs" k] C(4) by force
  ultimately obtain t' where t': "hash_insert k \<lparr>list_entry = s, entry_value = w\<rparr> t = Some t'" "sh_inv t'"
    "sh_abs t' = (sh_abs t)(k \<mapsto> \<lparr>list_entry = s, entry_value = w\<rparr>)" "sh_frame t t'"
    using hash_insert_correct[OF C(3)] by metis
  note F = sh_frameD[OF t'(4)]
  have "core_rep n l t' (us @ (s, k, w) # vs)"
    using t' C F assms node_map_update[OF C(2), of w] by (auto simp: core_rep_def)
  then show ?thesis using t'(1) F by blast
qed

lemma core_remove:
  assumes "core_rep n l t (us @ (s, k, v) # vs)"
  shows "\<exists>l1 l2 t'. RemoveFromList s l = Some l1 \<and> Destruct s l1 = Some l2 \<and> hash_erase k t = Some (True, t') \<and>
    core_rep n l2 t' (us @ vs) \<and> empty_key t' = empty_key t \<and> content l1 = content l"
proof -
  note C = core_repD[OF assms]
  have "remove1 s (map fst (us @ (s, k, v) # vs)) = map fst (us @ vs)"
    using remove1_split[of "map fst us" s "map fst vs"] C(10) by simp
  with release_ok[OF C(1), of s] obtain l1 l2 where l: "RemoveFromList s l = Some l1" "Destruct s l1 = Some l2"
    "list_inv l2 (map fst (us @ vs))" "content l2 = content l" "content l1 = content l" "num_slots (pool l2) = num_slots (pool l)" by auto
  have ke: "k \<noteq> empty_key t" using C(11)[of s k v] by simp
  have "sh_abs t k \<noteq> None" using node_map_None[of "us @ (s, k, v) # vs" k] C(4) by force
  then obtain t' where t': "hash_erase k t = Some (True, t')" "sh_inv t'" "sh_abs t' = (sh_abs t)(k := None)" "sh_frame t t'"
    using hash_erase_correct[OF C(3) ke] by auto
  note F = sh_frameD[OF t'(4)]
  have "core_rep n l2 t' (us @ vs)"
    using t' C F l assms node_map_remove[OF C(2)] by (auto simp: core_rep_def)
  then show ?thesis using t'(1) l F by blast
qed

lemma core_pop:
  assumes "core_rep n l t ((s, k, v) # vs)"
  shows "\<exists>l2 t'. PopFront l = Some (k, l2) \<and> hash_erase k t = Some (True, t') \<and> core_rep n l2 t' vs \<and> empty_key t' = empty_key t"
proof -
  note C = core_repD[OF assms]
  obtain l1 l2 t' where R: "RemoveFromList s l = Some l1" "Destruct s l1 = Some l2" "hash_erase k t = Some (True, t')"
    "core_rep n l2 t' vs" "empty_key t' = empty_key t" "content l1 = content l"
    using core_remove[of n l t "[]" s k v vs] assms by auto
  have "nxt l Head = Slot s" "\<not> list_IsEmpty l"
    using list_invD(1)[OF C(1)] ring_empty_iff[of l "s # map fst vs"] by (auto simp: ring_def)
  then have "PopFront l = Some (k, l2)" using R(1,2,6) C(11)[of s k v] by (simp add: PopFront_def Pop_def)
  then show ?thesis using R by blast
qed

lemma core_push:
  assumes "core_rep n l t ns" "length ns < n" "k \<noteq> empty_key t" "k \<notin> node_key ` set ns"
  shows "\<exists>s l' t'. PushBack k l = Some (s, l') \<and> hash_insert k \<lparr>list_entry = s, entry_value = v\<rparr> t = Some t' \<and>
    core_rep n l' t' (ns @ [(s, k, v)]) \<and> empty_key t' = empty_key t"
proof -
  note C = core_repD[OF assms(1)]
  obtain s l' where l: "PushBack k l = Some (s, l')" "s \<notin> set (map fst ns)" "list_inv l' (map fst (ns @ [(s, k, v)]))"
    "content l' = (content l)(s := k)" "num_slots (pool l') = num_slots (pool l)"
    using PushBack_ok[OF C(1), of k] C(6) assms(2) by auto
  have "hsize t + 1 < capacity t" using dom_card[OF assms(1)] dom_sh_abs_card[OF C(3)] C(7) assms(2) by simp
  then obtain t' where t': "hash_insert k \<lparr>list_entry = s, entry_value = v\<rparr> t = Some t'" "sh_inv t'"
    "sh_abs t' = (sh_abs t)(k \<mapsto> \<lparr>list_entry = s, entry_value = v\<rparr>)" "sh_frame t t'"
    using hash_insert_correct[OF C(3) assms(3), of "\<lparr>list_entry = s, entry_value = v\<rparr>"] by auto
  note F = sh_frameD[OF t'(4)]
  have "core_rep n l' t' (ns @ [(s, k, v)])"
    unfolding core_rep_def
  proof (intro conjI)
    show "\<forall>(s', k', v') \<in> set (ns @ [(s, k, v)]). content l' s' = k' \<and> k' \<noteq> empty_key t'"
      using C(11) l(2,4) F(5) assms(3) by force
    show "sh_abs t' = node_map (ns @ [(s, k, v)])" using t'(3) C(4) node_map_snoc[OF assms(4)] by simp
  qed (use t' C(2,6-9) F(2) l(3,5) assms(2,4) in auto)
  then show ?thesis using t'(1) l F by blast
qed

lemma core_clear:
  assumes "core_rep n l t ns"
  shows "\<exists>l' t'. list_clear l = Some l' \<and> hash_clear t = Some t' \<and> core_rep n l' t' [] \<and> empty_key t' = empty_key t"
proof -
  note C = core_repD[OF assms]
  obtain l' where l: "list_clear l = Some l'" "list_inv l' []" "num_slots (pool l') = num_slots (pool l)"
    using list_clear_ok[OF C(1)] by blast
  obtain t' where t': "hash_clear t = Some t'" "sh_inv t'" "sh_abs t' = Map.empty" "sh_frame t t'"
    using hash_clear_correct[OF C(3)] by metis
  then show ?thesis using l C sh_frameD[OF t'(4)] by (auto simp: core_rep_def)
qed

section \<open>The abstract cache\<close>

definition al_remove :: "'k \<Rightarrow> ('k \<times> 'v) list \<Rightarrow> ('k \<times> 'v) list" where
  "al_remove k es = filter (\<lambda>e. fst e \<noteq> k) es"

definition al_touch :: "'k \<Rightarrow> ('k \<times> 'v) list \<Rightarrow> ('k \<times> 'v) list" where
  "al_touch k es = (case map_of es k of None \<Rightarrow> es | Some v \<Rightarrow> al_remove k es @ [(k, v)])"

definition al_set :: "'k \<Rightarrow> 'v \<Rightarrow> ('k \<times> 'v) list \<Rightarrow> ('k \<times> 'v) list" where
  "al_set k v es = map (\<lambda>e. if fst e = k then (k, v) else e) es"

definition al_insert :: "nat \<Rightarrow> 'k \<Rightarrow> 'v \<Rightarrow> ('k \<times> 'v) list \<Rightarrow> ('k \<times> 'v) list" where
  "al_insert n k v es = (case map_of es k of
     Some _ \<Rightarrow> al_remove k es @ [(k, v)]
   | None \<Rightarrow> (if length es < n then es else tl es) @ [(k, v)])"

definition lru_rel :: "('k, 'v) lru_cache \<Rightarrow> ('k \<times> 'v) list \<Rightarrow> nat option \<Rightarrow> bool" where
  "lru_rel c es pos \<longleftrightarrow> (\<exists>ns. lru_rep c ns pos \<and> es = map snd ns)"

definition lru_frame :: "('k, 'v) lru_cache \<Rightarrow> ('k, 'v) lru_cache \<Rightarrow> bool" where
  "lru_frame c c' \<longleftrightarrow> paused c' = paused c \<and> cache_size c' = cache_size c \<and> empty_key (cache c') = empty_key (cache c)"

lemma map_of_nodes: "map_of (map snd ns) k = map_option entry_value (node_map ns k)"
  by (induction ns) (auto simp: node_map_Cons)

lemma al_split:
  assumes "distinct (map node_key (us @ (s, k, v) # vs))"
  shows "al_remove k (map snd (us @ (s, k, v) # vs)) = map snd (us @ vs)"
    "al_set k w (map snd (us @ (s, k, v) # vs)) = map snd (us @ (s, k, w) # vs)"
    "map_of (map snd (us @ (s, k, v) # vs)) k = Some v"
proof -
  have ne: "fst (snd n) \<noteq> k" if "n \<in> set us \<union> set vs" for n using assms that by (force simp: node_key_def)
  have "filter (\<lambda>e. fst e \<noteq> k) (map snd us) = map snd us" "filter (\<lambda>e. fst e \<noteq> k) (map snd vs) = map snd vs"
    using ne by (auto simp: filter_id_conv)
  then show "al_remove k (map snd (us @ (s, k, v) # vs)) = map snd (us @ vs)" by (simp add: al_remove_def)
  show "al_set k w (map snd (us @ (s, k, v) # vs)) = map snd (us @ (s, k, w) # vs)"
    using ne by (auto simp: al_set_def)
  have "map_of (map snd us) k = None" using ne by (force simp: map_of_eq_None_iff)
  then show "map_of (map snd (us @ (s, k, v) # vs)) k = Some v" by (simp add: map_add_def)
qed

lemma lru_repD:
  assumes "lru_rep c ns pos"
  shows "core_rep (cache_size c) (lru_list c) (cache c) ns" "cache_gauge c = length ns"
    "filter_entry c = filter_at pos (map fst ns)" "locked c = (pos \<noteq> None)"
    "length ns \<le> cache_size c" "cache_gauge c < 2 ^ 32" "distinct (map node_key ns)"
proof -
  show core: "core_rep (cache_size c) (lru_list c) (cache c) ns" using assms by (simp add: lru_rep_def)
  note C = core_repD[OF this]
  show "cache_gauge c = length ns" "filter_entry c = filter_at pos (map fst ns)" "locked c = (pos \<noteq> None)"
    using assms by (simp_all add: lru_rep_def)
  then show "length ns \<le> cache_size c" "cache_gauge c < 2 ^ 32" "distinct (map node_key ns)"
    using C(2,5,9) by simp_all
qed

lemma idle_rep:
  "lru_rep c ns None \<longleftrightarrow> core_rep (cache_size c) (lru_list c) (cache c) ns \<and> cache_gauge c = length ns \<and>
     filter_entry c = None \<and> \<not> locked c"
  by (auto simp: lru_rep_def filter_at_def)

lemma u32_pred: "0 < g \<Longrightarrow> g < 2 ^ 32 \<Longrightarrow> u32 (g + 4294967295) = g - 1"
proof -
  assume "0 < g" "g < 2 ^ 32"
  then obtain h where "g = Suc h" "h < 4294967296" by (cases g) auto
  then show ?thesis by (simp add: u32_def)
qed

lemma idle_lookup:
  assumes "lru_rep c ns None" "k \<noteq> empty_key (cache c)"
  shows "hash_lookup k (cache c) = Some (node_map ns k)"
  using core_lookup[OF lru_repD(1)[OF assms(1)] assms(2)] .

lemma Lock_idle: "\<not> locked c \<Longrightarrow> Lock c = Some (c\<lparr>locked := True\<rparr>)"
  by (simp add: Lock_def)

lemma DeleteOldest_ok:
  assumes "core_rep (cache_size c) (lru_list c) (cache c) (x # ns)" "cache_gauge c = Suc (length ns)"
  shows "\<exists>l t cs. DeleteOldest c = Some (c\<lparr>counters := cs, lru_list := l, cache := t, cache_gauge := length ns\<rparr>) \<and>
    core_rep (cache_size c) l t ns \<and> empty_key t = empty_key (cache c)"
proof -
  obtain s k v where x: "x = (s, k, v)" by (cases x) auto
  obtain l t where "PopFront (lru_list c) = Some (k, l)" "hash_erase k (cache c) = Some (True, t)"
    "core_rep (cache_size c) l t ns" "empty_key t = empty_key (cache c)"
    using core_pop[OF assms(1)[unfolded x]] by blast
  moreover have "u32 (Suc (length ns) + 4294967295) = length ns"
    using core_repD(5,9)[OF assms(1)] by (subst u32_pred) auto
  ultimately show ?thesis using assms(2)
    by (simp add: DeleteOldest_def lru_IsEmpty_def) blast
qed

section \<open>Refinement of the operations\<close>

lemma insert_new:
  assumes rep: "core_rep (cache_size c) (lru_list c) (cache c) ns" and g: "cache_gauge c = length ns"
    and k: "k \<noteq> empty_key (cache c)" "k \<notin> node_key ` set ns"
  shows "\<exists>c2 e l t ms. (if lru_IsFull c then DeleteOldest c else Some c) = Some c2 \<and>
    PushBack k (lru_list c2) = Some (e, l) \<and> hash_insert k \<lparr>list_entry = e, entry_value = v\<rparr> (cache c2) = Some t \<and>
    core_rep (cache_size c) l t (ms @ [(e, k, v)]) \<and> ms = (if length ns < cache_size c then ns else tl ns) \<and>
    cache_gauge c2 = length ms \<and> lru_frame c c2 \<and> filter_entry c2 = filter_entry c \<and> empty_key t = empty_key (cache c) \<and>
    u32 (cache_gauge c2 + 1) = Suc (length ms)"
proof -
  note C = core_repD[OF rep]
  have "\<exists>c2 ms. (if lru_IsFull c then DeleteOldest c else Some c) = Some c2 \<and> core_rep (cache_size c) (lru_list c2) (cache c2) ms \<and>
      ms = (if length ns < cache_size c then ns else tl ns) \<and> cache_gauge c2 = length ms \<and> lru_frame c c2 \<and>
      filter_entry c2 = filter_entry c \<and> empty_key (cache c2) = empty_key (cache c) \<and> length ms < cache_size c"
  proof (cases "length ns < cache_size c")
    case True
    then show ?thesis using rep g by (simp add: lru_IsFull_def lru_frame_def)
  next
    case False
    then obtain x ms where ns: "ns = x # ms" using C(8) by (cases ns) auto
    from DeleteOldest_ok[OF rep[unfolded ns]] g ns show ?thesis using False C(5) by (auto simp: lru_IsFull_def lru_frame_def)
  qed
  then obtain c2 ms where c2: "(if lru_IsFull c then DeleteOldest c else Some c) = Some c2"
    "core_rep (cache_size c) (lru_list c2) (cache c2) ms" "ms = (if length ns < cache_size c then ns else tl ns)"
    "cache_gauge c2 = length ms" "lru_frame c c2" "filter_entry c2 = filter_entry c" "empty_key (cache c2) = empty_key (cache c)"
    "length ms < cache_size c" by blast
  have "k \<notin> node_key ` set ms" using k(2) c2(3) by (cases ns) auto
  from core_push[OF c2(2,8) _ this, of v] obtain e l t where "PushBack k (lru_list c2) = Some (e, l)"
    "hash_insert k \<lparr>list_entry = e, entry_value = v\<rparr> (cache c2) = Some t" "core_rep (cache_size c) l t (ms @ [(e, k, v)])"
    "empty_key t = empty_key (cache c)" using k(1) c2(7) by auto
  moreover have "u32 (cache_gauge c2 + 1) = Suc (length ms)" using c2(4,8) C(9) by simp
  ultimately show ?thesis using c2 by blast
qed

lemma lru_Insert_ok:
  assumes rel: "lru_rel c es None" and k: "k \<noteq> empty_key (cache c)" and p: "\<not> paused c"
  shows "\<exists>c'. lru_Insert k v c = Some (map_of es k = None, c') \<and> lru_rel c' (al_insert (cache_size c) k v es) None \<and> lru_frame c c'"
proof -
  obtain ns where rep: "lru_rep c ns None" and es: "es = map snd ns" using rel by (auto simp: lru_rel_def)
  note R = lru_repD[OF rep] and L = idle_lookup[OF rep k]
  have idle: "\<not> locked c" "filter_entry c = None" using rep by (auto simp: idle_rep)
  show ?thesis
  proof (cases "node_map ns k")
    case None
    have nk: "k \<notin> node_key ` set ns" using None node_map_None by metis
    define c1 where "c1 = c\<lparr>locked := True, counters := (counters c)\<lparr>n_insert := n_insert (counters c) + 1\<rparr>\<rparr>"
    obtain c2 e l t ms where I: "(if lru_IsFull c1 then DeleteOldest c1 else Some c1) = Some c2"
      "PushBack k (lru_list c2) = Some (e, l)" "hash_insert k \<lparr>list_entry = e, entry_value = v\<rparr> (cache c2) = Some t"
      "core_rep (cache_size c1) l t (ms @ [(e, k, v)])" "ms = (if length ns < cache_size c1 then ns else tl ns)"
      "cache_gauge c2 = length ms" "lru_frame c1 c2" "filter_entry c2 = filter_entry c1" "empty_key t = empty_key (cache c1)"
      "u32 (cache_gauge c2 + 1) = Suc (length ms)"
      using insert_new[of c1 ns k v] R(1,2) k nk by (auto simp: c1_def)
    define c' where "c' = Unlock (c2\<lparr>lru_list := l, cache := t, cache_gauge := u32 (cache_gauge c2 + 1)\<rparr>)"
    have "lru_Insert k v c = Some (True, c')"
      using I(1-3) L None p idle(1) by (simp add: lru_Insert_def Lock_idle c1_def[symmetric] c'_def)
    moreover have "lru_rep c' (ms @ [(e, k, v)]) None"
      using I(4,7,8,10) idle by (auto simp: idle_rep c'_def Unlock_def lru_frame_def c1_def)
    moreover have "map snd (ms @ [(e, k, v)]) = al_insert (cache_size c) k v es"
      using None I(5) by (simp add: al_insert_def es map_of_nodes c1_def map_tl)
    moreover have "lru_frame c c'" using I(7,9) by (simp add: lru_frame_def c'_def Unlock_def c1_def)
    ultimately show ?thesis using None by (auto simp: lru_rel_def es map_of_nodes intro!: exI[of _ c'])
  next
    case (Some e)
    then obtain us vs where ns: "ns = us @ (list_entry e, k, entry_value e) # vs" by (rule node_map_split)
    obtain t where t: "hash_insert k \<lparr>list_entry = list_entry e, entry_value = v\<rparr> (cache c) = Some t"
      "core_rep (cache_size c) (lru_list c) t (us @ (list_entry e, k, v) # vs)" "empty_key t = empty_key (cache c)"
      using core_value[OF R(1)[unfolded ns]] by blast
    obtain l where l: "MoveToBack (list_entry e) (lru_list c) = Some l" "core_rep (cache_size c) l t (us @ vs @ [(list_entry e, k, v)])"
      using core_touch[OF t(2)] by auto
    define c' where "c' = Unlock (c\<lparr>locked := True, counters := (counters c)\<lparr>n_update := n_update (counters c) + 1\<rparr>,
      cache := t, lru_list := l\<rparr>)"
    have e: "e\<lparr>entry_value := v\<rparr> = \<lparr>list_entry = list_entry e, entry_value = v\<rparr>" by (cases e) simp
    have "lru_Insert k v c = Some (False, c')"
      using t(1) l(1) L Some p idle(1) by (simp add: lru_Insert_def Lock_idle Touch_def e c'_def)
    moreover have "lru_rep c' (us @ vs @ [(list_entry e, k, v)]) None"
      using l(2) R(2) idle by (simp add: idle_rep c'_def Unlock_def ns)
    moreover have "map snd (us @ vs @ [(list_entry e, k, v)]) = al_insert (cache_size c) k v es"
      using al_split(1,3)[OF R(7)[unfolded ns]] by (simp add: al_insert_def es ns)
    moreover have "lru_frame c c'" using t(3) by (simp add: lru_frame_def c'_def Unlock_def)
    ultimately show ?thesis using Some by (auto simp: lru_rel_def es map_of_nodes intro!: exI[of _ c'])
  qed
qed

text \<open>The other operations on an entry that is present.\<close>

lemma touch_present:
  assumes rep: "lru_rep c ns None" and e: "node_map ns k = Some e"
  shows "\<exists>l. MoveToBack (list_entry e) (lru_list c) = Some l \<and>
    (\<forall>cs. lru_rel (c\<lparr>counters := cs, lru_list := l\<rparr>) (al_touch k (map snd ns)) None)"
proof -
  note R = lru_repD[OF rep]
  obtain us vs where ns: "ns = us @ (list_entry e, k, entry_value e) # vs" using e by (rule node_map_split)
  obtain l where l: "MoveToBack (list_entry e) (lru_list c) = Some l" "core_rep (cache_size c) l (cache c) (us @ vs @ [(list_entry e, k, entry_value e)])"
    using core_touch[OF R(1)[unfolded ns]] by auto
  have "lru_rep (c\<lparr>counters := cs, lru_list := l\<rparr>) (us @ vs @ [(list_entry e, k, entry_value e)]) None" for cs
    using l(2) rep by (simp add: idle_rep ns)
  moreover have "map snd (us @ vs @ [(list_entry e, k, entry_value e)]) = al_touch k (map snd ns)"
    using al_split(1,3)[OF R(7)[unfolded ns]] by (simp add: al_touch_def ns)
  ultimately show ?thesis using l(1) by (metis lru_rel_def)
qed

lemma set_present:
  assumes rep: "lru_rep c ns None" and e: "node_map ns k = Some e"
  shows "\<exists>t. hash_insert k (e\<lparr>entry_value := v\<rparr>) (cache c) = Some t \<and> empty_key t = empty_key (cache c) \<and>
    (\<forall>cs. lru_rel (c\<lparr>counters := cs, cache := t\<rparr>) (al_set k v (map snd ns)) None)"
proof -
  note R = lru_repD[OF rep]
  obtain us vs where ns: "ns = us @ (list_entry e, k, entry_value e) # vs" using e by (rule node_map_split)
  obtain t where t: "hash_insert k \<lparr>list_entry = list_entry e, entry_value = v\<rparr> (cache c) = Some t"
      "core_rep (cache_size c) (lru_list c) t (us @ (list_entry e, k, v) # vs)" "empty_key t = empty_key (cache c)"
    using core_value[OF R(1)[unfolded ns]] by blast
  have "e\<lparr>entry_value := v\<rparr> = \<lparr>list_entry = list_entry e, entry_value = v\<rparr>" by (cases e) simp
  moreover have "lru_rep (c\<lparr>counters := cs, cache := t\<rparr>) (us @ (list_entry e, k, v) # vs) None" for cs
    using t(2) rep by (simp add: idle_rep ns)
  moreover have "map snd (us @ (list_entry e, k, v) # vs) = al_set k v (map snd ns)"
    using al_split(2)[OF R(7)[unfolded ns], of v] by (simp add: ns)
  ultimately show ?thesis using t(1,3) by (metis lru_rel_def)
qed

lemma remove_present:
  assumes core: "core_rep (cache_size c) (lru_list c) (cache c) (us @ (s, k, v) # vs)"
    and g: "cache_gauge c = length (us @ (s, k, v) # vs)"
  shows "\<exists>l1 l2 t. RemoveFromList s (lru_list c) = Some l1 \<and> Destruct s l1 = Some l2 \<and>
    hash_erase k (cache c) = Some (True, t) \<and> empty_key t = empty_key (cache c) \<and>
    core_rep (cache_size c) l2 t (us @ vs) \<and> u32 (cache_gauge c + 4294967295) = length (us @ vs)"
proof -
  have "u32 (cache_gauge c + 4294967295) = length (us @ vs)"
    using core_repD(5,9)[OF core] g by (subst u32_pred) auto
  then show ?thesis using core_remove[OF core] by blast
qed

lemma relE:
  assumes "lru_rel c es None" "k \<noteq> empty_key (cache c)"
  obtains ns where "lru_rep c ns None" "es = map snd ns" "hash_lookup k (cache c) = Some (node_map ns k)"
    "\<not> locked c" "map_of es k = map_option entry_value (node_map ns k)"
  using assms idle_lookup map_of_nodes by (metis lru_rel_def idle_rep)

lemma rel_locked: "lru_rel c es None \<Longrightarrow> lru_rel (c\<lparr>locked := False\<rparr>) es None"
  unfolding lru_rel_def idle_rep by auto

lemma lru_Lookup_ok:
  assumes rel: "lru_rel c es None" and k: "k \<noteq> empty_key (cache c)" and p: "\<not> paused c"
  shows "\<exists>c'. lru_Lookup k upd c = Some (map_of es k, c') \<and> lru_rel c' (if upd then al_touch k es else es) None \<and> lru_frame c c'"
proof -
  obtain ns where rep: "lru_rep c ns None" and es: "es = map snd ns" and L: "hash_lookup k (cache c) = Some (node_map ns k)"
    and idle: "\<not> locked c" and m: "map_of es k = map_option entry_value (node_map ns k)" using relE[OF rel k] .
  have id: "al_touch k es = es" if "node_map ns k = None" using that m by (simp add: al_touch_def)
  have same: "lru_rel (c\<lparr>counters := cs\<rparr>) es None" for cs using rel by (auto simp: lru_rel_def idle_rep)
  show ?thesis
  proof (cases "node_map ns k")
    case None
    then show ?thesis using L idle p m same id
      by (auto simp: lru_Lookup_def Lock_idle Unlock_def lru_frame_def intro!: rel_locked)
  next
    case (Some e)
    from touch_present[OF rep Some] obtain l where l: "MoveToBack (list_entry e) (lru_list c) = Some l"
      "\<And>cs. lru_rel (c\<lparr>counters := cs, lru_list := l\<rparr>) (al_touch k es) None" using es by auto
    show ?thesis using Some L idle p m same l
      by (auto simp: lru_Lookup_def Lock_idle Unlock_def lru_frame_def Touch_def intro!: rel_locked)
  qed
qed

lemma lru_Update_ok:
  assumes rel: "lru_rel c es None" and k: "k \<noteq> empty_key (cache c)" and p: "\<not> paused c" and e: "map_of es k \<noteq> None"
  shows "\<exists>c'. lru_Update k c = Some c' \<and> lru_rel c' (al_touch k es) None \<and> lru_frame c c'"
proof -
  obtain ns e where rep: "lru_rep c ns None" and es: "es = map snd ns" and L: "hash_lookup k (cache c) = Some (node_map ns k)"
    and idle: "\<not> locked c" and m: "node_map ns k = Some e" using relE[OF rel k] e by (metis map_option_is_None option.exhaust)
  from touch_present[OF rep m] show ?thesis using L idle p m es
    by (auto simp: lru_Update_def Lock_idle Unlock_def lru_frame_def Touch_def intro!: rel_locked)
qed

lemma lru_Update_missing:
  assumes "lru_rel c es None" "k \<noteq> empty_key (cache c)" "map_of es k = None"
  shows "lru_Update k c = None"
  by (rule relE[OF assms(1,2)]) (use assms(3) in \<open>auto simp: lru_Update_def Lock_idle assert_that_def\<close>)

lemma lru_UpdateValue_ok:
  assumes rel: "lru_rel c es None" and k: "k \<noteq> empty_key (cache c)" and p: "\<not> paused c"
  shows "\<exists>c'. lru_UpdateValue k v c = Some (map_of es k \<noteq> None, c') \<and> lru_rel c' (al_set k v es) None \<and> lru_frame c c'"
proof -
  obtain ns where rep: "lru_rep c ns None" and es: "es = map snd ns" and L: "hash_lookup k (cache c) = Some (node_map ns k)"
    and idle: "\<not> locked c" and m: "map_of es k = map_option entry_value (node_map ns k)" using relE[OF rel k] .
  show ?thesis
  proof (cases "node_map ns k")
    case None
    then have "al_set k v es = es" using m by (force simp: al_set_def map_of_eq_None_iff intro!: map_idI)
    then show ?thesis using None L idle p m rel
      by (auto simp: lru_UpdateValue_def Lock_idle Unlock_def lru_frame_def intro!: rel_locked)
  next
    case (Some e)
    from set_present[OF rep Some, of v] show ?thesis using Some L idle p m es
      by (auto simp: lru_UpdateValue_def Lock_idle Unlock_def lru_frame_def intro!: rel_locked)
  qed
qed

lemma lru_Forget_ok:
  assumes rel: "lru_rel c es None" and k: "k \<noteq> empty_key (cache c)" and p: "\<not> paused c"
  shows "\<exists>c'. lru_Forget k c = Some (map_of es k \<noteq> None, c') \<and> lru_rel c' (al_remove k es) None \<and> lru_frame c c'"
proof -
  obtain ns where rep: "lru_rep c ns None" and es: "es = map snd ns" and L: "hash_lookup k (cache c) = Some (node_map ns k)"
    and idle: "\<not> locked c" and m: "map_of es k = map_option entry_value (node_map ns k)" using relE[OF rel k] .
  show ?thesis
  proof (cases "node_map ns k")
    case None
    then have "al_remove k es = es" using m by (auto simp: al_remove_def map_of_eq_None_iff filter_id_conv)
    then show ?thesis using None L idle p m rel
      by (auto simp: lru_Forget_def Lock_idle Unlock_def lru_frame_def intro!: rel_locked)
  next
    case (Some e)
    note R = lru_repD[OF rep]
    obtain us vs where ns: "ns = us @ (list_entry e, k, entry_value e) # vs" using Some by (rule node_map_split)
    obtain l1 l2 t where D: "RemoveFromList (list_entry e) (lru_list c) = Some l1" "Destruct (list_entry e) l1 = Some l2"
      "hash_erase k (cache c) = Some (True, t)" "empty_key t = empty_key (cache c)" "core_rep (cache_size c) l2 t (us @ vs)"
      "u32 (cache_gauge c + 4294967295) = length (us @ vs)"
      using remove_present[OF R(1)[unfolded ns] R(2)[unfolded ns]] by blast
    define c' where "c' = c\<lparr>locked := False, counters := (counters c)\<lparr>n_forget := n_forget (counters c) + 1\<rparr>,
      lru_list := l2, cache := t, cache_gauge := length (us @ vs)\<rparr>"
    have "lru_Forget k c = Some (True, c')"
      using D L Some idle p by (simp add: lru_Forget_def Lock_idle Unlock_def c'_def)
    moreover have "lru_rep c' (us @ vs) None" using D(5) rep by (simp add: idle_rep c'_def)
    moreover have "map snd (us @ vs) = al_remove k es" using al_split(1)[OF R(7)[unfolded ns]] by (simp add: es ns)
    moreover have "lru_frame c c'" using D(4) by (simp add: lru_frame_def c'_def)
    ultimately show ?thesis using Some m by (auto simp: lru_rel_def intro!: exI[of _ c'])
  qed
qed

lemma lru_Drop_ok:
  assumes rel: "lru_rel c es None"
  shows "\<exists>c'. lru_Drop c = Some c' \<and> lru_rel c' [] None \<and> lru_frame c c'"
proof -
  obtain ns where rep: "lru_rep c ns None" using rel by (auto simp: lru_rel_def)
  then show ?thesis using core_clear[OF lru_repD(1)[OF rep]]
    by (auto simp: lru_Drop_def Lock_idle Unlock_def lru_frame_def lru_rel_def idle_rep)
qed

lemma paused_noop:
  assumes "\<not> locked c" "paused c"
  shows "lru_Insert k v c = Some (False, c)" "lru_Lookup k upd c = Some (None, c)" "lru_Forget k c = Some (False, c)"
    "lru_UpdateValue k v c = Some (False, c)" "lru_Update k c = None"
  using assms by (auto simp: lru_Insert_def lru_Lookup_def lru_Forget_def lru_UpdateValue_def lru_Update_def Lock_idle Unlock_def
    assert_that_def)

section \<open>The filter operation\<close>

lemma filter_begin_ok:
  assumes "lru_rel c es None"
  shows "\<exists>c'. FilterBegin c = Some c' \<and> lru_rel c' es (Some 0) \<and> lru_frame c c'"
  using assms by (auto simp: FilterBegin_def Lock_def lru_rel_def idle_rep lru_frame_def) (auto simp: lru_rep_def filter_at_def)

lemma filter_end_ok:
  assumes "lru_rel c es (Some i)"
  shows "\<exists>c'. FilterEnd c = Some c' \<and> lru_rel c' es None \<and> lru_frame c c'"
  using assms by (auto simp: FilterEnd_def Unlock_def lru_rel_def idle_rep lru_frame_def lru_rep_def filter_at_def)

definition at_pos :: "nat list \<Rightarrow> nat \<Rightarrow> ptr" where
  "at_pos xs i = (if i = 0 then Head else Slot (xs ! (i - 1)))"

lemma at_pos_seg:
  assumes "seg m Head xs Head"
  shows "i < length xs \<Longrightarrow> nxt m (at_pos xs i) = Slot (xs ! i) \<and> prv m (Slot (xs ! i)) = at_pos xs i"
    "nxt m (at_pos xs (length xs)) = Head"
proof -
  assume i: "i < length xs"
  have xs: "xs = take i xs @ xs ! i # drop (Suc i) xs" using i by (rule id_take_nth_drop)
  have "seg m Head (take i xs @ xs ! i # drop (Suc i) xs) Head" using assms xs by simp
  then have s1: "seg m Head (take i xs) (Slot (xs ! i))" by (simp add: seg_append)
  show "nxt m (at_pos xs i) = Slot (xs ! i) \<and> prv m (Slot (xs ! i)) = at_pos xs i"
  proof (cases i)
    case 0
    then show ?thesis using s1 by (simp add: at_pos_def)
  next
    case (Suc j)
    then have "take i xs = take j xs @ [xs ! j]" using i by (simp add: take_Suc_conv_app_nth)
    then show ?thesis using s1 Suc by (simp add: at_pos_def seg_append)
  qed
next
  show "nxt m (at_pos xs (length xs)) = Head"
  proof (cases xs rule: rev_cases)
    case (snoc ys y)
    then show ?thesis using assms by (simp add: at_pos_def seg_append)
  qed (use assms in \<open>simp add: at_pos_def\<close>)
qed

lemma filter_rep:
  "lru_rep c ns (Some i) \<longleftrightarrow> core_rep (cache_size c) (lru_list c) (cache c) ns \<and> cache_gauge c = length ns \<and>
     filter_entry c = Some (at_pos (map fst ns) i) \<and> locked c \<and> i \<le> length ns"
  by (auto simp: lru_rep_def filter_at_def at_pos_def)

lemma core_seg: "core_rep n l t ns \<Longrightarrow> seg l Head (map fst ns) Head"
  using core_repD(1) list_invD(1) by (metis ring_def)

lemma filter_next_ok:
  assumes "lru_rel c es (Some i)"
  shows "\<exists>c'. FilterNext c = Some (i < length es, c') \<and> lru_rel c' es (Some (if i < length es then Suc i else 0)) \<and> lru_frame c c'"
proof -
  obtain ns where rep: "lru_rep c ns (Some i)" and es: "es = map snd ns" using assms by (auto simp: lru_rel_def)
  note R = rep[unfolded filter_rep]
  have core: "core_rep (cache_size c) (lru_list c) (cache c) ns" using R by simp
  define j where "j = (if i < length es then Suc i else 0)"
  have "nxt (lru_list c) (at_pos (map fst ns) i) = at_pos (map fst ns) j"
    using at_pos_seg(1)[OF core_seg[OF core], of i] at_pos_seg(2)[OF core_seg[OF core]] R es
    by (cases "i < length ns") (auto simp: at_pos_def j_def)
  moreover have "at_pos (map fst ns) j \<noteq> Head \<longleftrightarrow> i < length es" by (simp add: at_pos_def j_def)
  ultimately have "FilterNext c = Some (i < length es, c\<lparr>filter_entry := Some (at_pos (map fst ns) j)\<rparr>)"
    using R by (simp add: FilterNext_def)
  moreover have "lru_rep (c\<lparr>filter_entry := Some (at_pos (map fst ns) j)\<rparr>) ns (Some j)"
    using R es by (simp add: filter_rep j_def)
  ultimately show ?thesis using es by (auto simp: lru_rel_def lru_frame_def j_def)
qed

lemma filter_get_ok:
  assumes "lru_rel c es (Some (Suc i))"
  shows "FilterGet c = Some (es ! i)"
proof -
  obtain ns where rep: "lru_rep c ns (Some (Suc i))" and es: "es = map snd ns" using assms by (auto simp: lru_rel_def)
  note R = rep[unfolded filter_rep]
  have core: "core_rep (cache_size c) (lru_list c) (cache c) ns" and i: "i < length ns" using R by auto
  obtain s k v where n: "ns ! i = (s, k, v)" by (cases "ns ! i") auto
  have C: "content (lru_list c) s = k \<and> k \<noteq> empty_key (cache c)"
    using core_repD(11)[OF core, of s k v] i n nth_mem by metis
  have ns: "ns = take i ns @ (s, k, v) # drop (Suc i) ns" using id_take_nth_drop[OF i] n by simp
  have "node_map ns k = Some \<lparr>list_entry = s, entry_value = v\<rparr>"
    using node_map_update[of "take i ns" s k v "drop (Suc i) ns" v] core_repD(2)[OF core] ns by (metis fun_upd_same)
  then show ?thesis using R C core_lookup[OF core, of k] n i es by (simp add: FilterGet_def at_pos_def)
qed

lemma filter_delete_ok:
  assumes "lru_rel c es (Some (Suc i))"
  shows "\<exists>c'. FilterDelete c = Some c' \<and> lru_rel c' (take i es @ drop (Suc i) es) (Some i) \<and> lru_frame c c'"
proof -
  obtain ns where rep: "lru_rep c ns (Some (Suc i))" and es: "es = map snd ns" using assms by (auto simp: lru_rel_def)
  note R = rep[unfolded filter_rep]
  have core: "core_rep (cache_size c) (lru_list c) (cache c) ns" and i: "i < length ns" using R by auto
  obtain s k v where n: "ns ! i = (s, k, v)" by (cases "ns ! i") auto
  have C: "content (lru_list c) s = k" using core_repD(11)[OF core, of s k v] i n nth_mem by metis
  define us vs where "us = take i ns" and "vs = drop (Suc i) ns"
  have ns: "ns = us @ (s, k, v) # vs" using id_take_nth_drop[OF i] n by (simp add: us_def vs_def)
  have prv: "prv (lru_list c) (Slot s) = at_pos (map fst (us @ vs)) i"
    using at_pos_seg(1)[OF core_seg[OF core], of i] i n by (auto simp: at_pos_def us_def nth_append)
  obtain l1 l2 t where D: "RemoveFromList s (lru_list c) = Some l1" "Destruct s l1 = Some l2"
      "hash_erase k (cache c) = Some (True, t)" "empty_key t = empty_key (cache c)" "core_rep (cache_size c) l2 t (us @ vs)"
      "u32 (cache_gauge c + 4294967295) = length (us @ vs)"
    using remove_present[of c us s k v vs] R ns by blast
  define c' where "c' = c\<lparr>counters := (counters c)\<lparr>n_forget := n_forget (counters c) + 1\<rparr>,
      lru_list := l2, cache := t, cache_gauge := length (us @ vs), filter_entry := Some (at_pos (map fst (us @ vs)) i)\<rparr>"
  have "FilterDelete c = Some c'" using R D prv C n i by (simp add: FilterDelete_def at_pos_def c'_def)
  moreover have "lru_rep c' (us @ vs) (Some i)" using D(5) R i by (simp add: filter_rep c'_def us_def)
  moreover have "map snd (us @ vs) = take i es @ drop (Suc i) es" by (simp add: es us_def vs_def take_map drop_map)
  moreover have "lru_frame c c'" using D(4) by (simp add: lru_frame_def c'_def)
  ultimately show ?thesis by (auto simp: lru_rel_def intro!: exI[of _ c'])
qed

lemma LruCache_new_ok:
  assumes "64 dvd n" "128 \<le> n" "n \<le> 2 ^ 31" "tparams_ok tp" "0 < sz" "sz * n < 2 ^ 32"
  shows "\<exists>c. LruCache_new sz tp mem n emp h = Some c \<and> lru_rel c [] None \<and> \<not> paused c \<and> cache_size c = n \<and>
    empty_key (cache c) = emp"
proof -
  obtain a where a: "MemoryAllocator_new sz n = Some a" "alloc_inv a" "used a = {}" "num_slots a = n"
      "mem_slots a = u32 (sz * n) div sz"
    using MemoryAllocator_new_ok[OF assms(1,2)] by blast
  have mem: "num_slots a \<le> mem_slots a" using a(4,5) assms(5,6) by (simp add: u32_def)
  obtain t where t: "fixed_Init tp n emp h = Some t" "sh_inv t" "sh_abs t = Map.empty" "n < capacity t" "empty_key t = emp"
    using fixed_Init_correct[OF assms(4) _ assms(3), of emp h] assms(2) by auto
  have "core_rep n (lru_list_new a mem) t []"
    using a t assms list_new_inv[OF a(2,3) mem, of mem] by (simp add: core_rep_def lru_list_new_def)
  then show ?thesis using a(1) t(1,5) assms(2) by (auto simp: LruCache_new_def lru_rel_def idle_rep)
qed

section \<open>The contract of a recency cache\<close>

datatype ('k, 'v) lru_call = CInsert 'k 'v | CLookup 'k bool | CUpdateValue 'k 'v | CUpdate 'k | CForget 'k | CDrop

datatype 'v lru_answer = Flag bool | Val "'v option" | Void

primrec call_key :: "('k, 'v) lru_call \<Rightarrow> 'k option" where
  "call_key (CInsert k v) = Some k"
| "call_key (CLookup k upd) = Some k"
| "call_key (CUpdateValue k v) = Some k"
| "call_key (CUpdate k) = Some k"
| "call_key (CForget k) = Some k"
| "call_key CDrop = None"

text \<open>The specification: one call on the association list; \<open>Update\<close> of an absent key aborts.\<close>

fun al_exec :: "nat \<Rightarrow> ('k, 'v) lru_call \<Rightarrow> ('k \<times> 'v) list \<Rightarrow> ('v lru_answer \<times> ('k \<times> 'v) list) option" where
  "al_exec n (CInsert k v) es = Some (Flag (map_of es k = None), al_insert n k v es)"
| "al_exec n (CLookup k upd) es = Some (Val (map_of es k), if upd then al_touch k es else es)"
| "al_exec n (CUpdateValue k v) es = Some (Flag (map_of es k \<noteq> None), al_set k v es)"
| "al_exec n (CUpdate k) es = (if map_of es k = None then None else Some (Void, al_touch k es))"
| "al_exec n (CForget k) es = Some (Flag (map_of es k \<noteq> None), al_remove k es)"
| "al_exec n CDrop es = Some (Void, [])"

fun run_calls :: "('c \<Rightarrow> 's \<Rightarrow> ('a \<times> 's) option) \<Rightarrow> 'c list \<Rightarrow> 's \<Rightarrow> ('a list \<times> 's) option" where
  "run_calls f [] s = Some ([], s)"
| "run_calls f (c # cs) s = do { (a, s1) \<leftarrow> f c s; (as, s2) \<leftarrow> run_calls f cs s1; Some (a # as, s2) }"

locale recency_cache =
  fixes rel :: "'s \<Rightarrow> ('k \<times> 'v) list \<Rightarrow> nat option \<Rightarrow> bool"
    and key_ok :: "'s \<Rightarrow> 'k \<Rightarrow> bool"
    and bound :: "'s \<Rightarrow> nat"
    and ins :: "'k \<Rightarrow> 'v \<Rightarrow> 's \<Rightarrow> (bool \<times> 's) option"
    and look :: "'k \<Rightarrow> bool \<Rightarrow> 's \<Rightarrow> ('v option \<times> 's) option"
    and setv :: "'k \<Rightarrow> 'v \<Rightarrow> 's \<Rightarrow> (bool \<times> 's) option"
    and upd :: "'k \<Rightarrow> 's \<Rightarrow> 's option"
    and fgt :: "'k \<Rightarrow> 's \<Rightarrow> (bool \<times> 's) option"
    and drp :: "'s \<Rightarrow> 's option"
    and same :: "'s \<Rightarrow> 's \<Rightarrow> bool"
  assumes same_law: "same s s' \<Longrightarrow> key_ok s' = key_ok s \<and> bound s' = bound s"
    and ins_law: "rel s es None \<Longrightarrow> key_ok s k \<Longrightarrow>
      \<exists>s'. ins k v s = Some (map_of es k = None, s') \<and> rel s' (al_insert (bound s) k v es) None \<and> same s s'"
    and look_law: "rel s es None \<Longrightarrow> key_ok s k \<Longrightarrow>
      \<exists>s'. look k u s = Some (map_of es k, s') \<and> rel s' (if u then al_touch k es else es) None \<and> same s s'"
    and setv_law: "rel s es None \<Longrightarrow> key_ok s k \<Longrightarrow>
      \<exists>s'. setv k v s = Some (map_of es k \<noteq> None, s') \<and> rel s' (al_set k v es) None \<and> same s s'"
    and upd_law: "rel s es None \<Longrightarrow> key_ok s k \<Longrightarrow> map_of es k \<noteq> None \<Longrightarrow>
      \<exists>s'. upd k s = Some s' \<and> rel s' (al_touch k es) None \<and> same s s'"
    and upd_missing: "rel s es None \<Longrightarrow> key_ok s k \<Longrightarrow> map_of es k = None \<Longrightarrow> upd k s = None"
    and fgt_law: "rel s es None \<Longrightarrow> key_ok s k \<Longrightarrow>
      \<exists>s'. fgt k s = Some (map_of es k \<noteq> None, s') \<and> rel s' (al_remove k es) None \<and> same s s'"
    and drp_law: "rel s es None \<Longrightarrow> \<exists>s'. drp s = Some s' \<and> rel s' [] None \<and> same s s'"
begin

fun exec :: "('k, 'v) lru_call \<Rightarrow> 's \<Rightarrow> ('v lru_answer \<times> 's) option" where
  "exec (CInsert k v) s = map_option (map_prod Flag id) (ins k v s)"
| "exec (CLookup k u) s = map_option (map_prod Val id) (look k u s)"
| "exec (CUpdateValue k v) s = map_option (map_prod Flag id) (setv k v s)"
| "exec (CUpdate k) s = map_option (Pair Void) (upd k s)"
| "exec (CForget k) s = map_option (map_prod Flag id) (fgt k s)"
| "exec CDrop s = map_option (Pair Void) (drp s)"

lemma exec_refines:
  assumes "rel s es None" "\<forall>k. call_key c = Some k \<longrightarrow> key_ok s k"
  shows "case al_exec (bound s) c es of None \<Rightarrow> exec c s = None
    | Some (a, es') \<Rightarrow> \<exists>s'. exec c s = Some (a, s') \<and> rel s' es' None \<and> same s s'"
proof (cases c)
  case (CInsert k v)
  then show ?thesis using ins_law[OF assms(1), of k v] assms(2) by auto
next
  case (CLookup k u)
  then show ?thesis using look_law[OF assms(1), of k u] assms(2) by auto
next
  case (CUpdateValue k v)
  then show ?thesis using setv_law[OF assms(1), of k v] assms(2) by auto
next
  case (CUpdate k)
  then show ?thesis using upd_law[OF assms(1), of k] upd_missing[OF assms(1), of k] assms(2) by auto
next
  case (CForget k)
  then show ?thesis using fgt_law[OF assms(1), of k] assms(2) by auto
next
  case CDrop
  then show ?thesis using drp_law[OF assms(1)] by auto
qed

lemma history_refines:
  assumes "rel s es None" "\<forall>c \<in> set cs. \<forall>k. call_key c = Some k \<longrightarrow> key_ok s k"
  shows "case run_calls (al_exec (bound s)) cs es of None \<Rightarrow> run_calls exec cs s = None
    | Some (as, es') \<Rightarrow> \<exists>s'. run_calls exec cs s = Some (as, s') \<and> rel s' es' None"
  using assms
proof (induction cs arbitrary: s es)
  case (Cons c cs)
  have ok: "\<forall>k. call_key c = Some k \<longrightarrow> key_ok s k" using Cons.prems(2) by simp
  show ?case
  proof (cases "al_exec (bound s) c es")
    case None
    then show ?thesis using exec_refines[OF Cons.prems(1) ok] by simp
  next
    case (Some r)
    then obtain a es1 where r: "al_exec (bound s) c es = Some (a, es1)" by (cases r) auto
    then obtain s1 where s1: "exec c s = Some (a, s1)" "rel s1 es1 None" "same s s1"
      using exec_refines[OF Cons.prems(1) ok] by auto
    have "key_ok s1 = key_ok s" "bound s1 = bound s" using same_law[OF s1(3)] by auto
    then show ?thesis using Cons.IH[OF s1(2)] Cons.prems(2) r s1(1) by (auto split: option.splits)
  qed
qed simp

end

text \<open>The cache meets the contract while it is not paused.\<close>

definition lru_open :: "('k, 'v) lru_cache \<Rightarrow> ('k \<times> 'v) list \<Rightarrow> nat option \<Rightarrow> bool" where
  "lru_open c es pos \<longleftrightarrow> lru_rel c es pos \<and> \<not> paused c"

interpretation lru: recency_cache lru_open "\<lambda>c k. k \<noteq> empty_key (cache c)" cache_size
  lru_Insert lru_Lookup lru_UpdateValue lru_Update lru_Forget lru_Drop lru_frame
proof unfold_locales
  fix c :: "('k, 'v) lru_cache" and es k v u
  assume r: "lru_open c es None" and k: "k \<noteq> empty_key (cache c)"
  note R = r[unfolded lru_open_def]
  show "\<exists>c'. lru_Insert k v c = Some (map_of es k = None, c') \<and> lru_open c' (al_insert (cache_size c) k v es) None \<and> lru_frame c c'"
    using lru_Insert_ok[of c es k v] R k by (auto simp: lru_open_def lru_frame_def)
  show "\<exists>c'. lru_Lookup k u c = Some (map_of es k, c') \<and> lru_open c' (if u then al_touch k es else es) None \<and> lru_frame c c'"
    using lru_Lookup_ok[of c es k u] R k by (auto simp: lru_open_def lru_frame_def)
  show "\<exists>c'. lru_UpdateValue k v c = Some (map_of es k \<noteq> None, c') \<and> lru_open c' (al_set k v es) None \<and> lru_frame c c'"
    using lru_UpdateValue_ok[of c es k v] R k by (auto simp: lru_open_def lru_frame_def)
  show "\<exists>c'. lru_Update k c = Some c' \<and> lru_open c' (al_touch k es) None \<and> lru_frame c c'" if "map_of es k \<noteq> None"
    using lru_Update_ok[of c es k] R k that by (auto simp: lru_open_def lru_frame_def)
  show "lru_Update k c = None" if "map_of es k = None"
    using lru_Update_missing[of c es k] R k that by auto
  show "\<exists>c'. lru_Forget k c = Some (map_of es k \<noteq> None, c') \<and> lru_open c' (al_remove k es) None \<and> lru_frame c c'"
    using lru_Forget_ok[of c es k] R k by (auto simp: lru_open_def lru_frame_def)
next
  fix c :: "('k, 'v) lru_cache" and es
  assume "lru_open c es None"
  then show "\<exists>c'. lru_Drop c = Some c' \<and> lru_open c' [] None \<and> lru_frame c c'"
    using lru_Drop_ok[of c es] by (auto simp: lru_open_def lru_frame_def)
qed (auto simp: lru_frame_def)

section \<open>Properties\<close>

definition lru_exec :: "('k, 'v) lru_call \<Rightarrow> ('k, 'v) lru_cache \<Rightarrow> ('v lru_answer \<times> ('k, 'v) lru_cache) option" where
  "lru_exec call c = (case call of
     CInsert k v \<Rightarrow> map_option (map_prod Flag id) (lru_Insert k v c)
   | CLookup k u \<Rightarrow> map_option (map_prod Val id) (lru_Lookup k u c)
   | CUpdateValue k v \<Rightarrow> map_option (map_prod Flag id) (lru_UpdateValue k v c)
   | CUpdate k \<Rightarrow> map_option (Pair Void) (lru_Update k c)
   | CForget k \<Rightarrow> map_option (map_prod Flag id) (lru_Forget k c)
   | CDrop \<Rightarrow> map_option (Pair Void) (lru_Drop c))"

lemma lru_exec_eq: "lru.exec = lru_exec"
proof (intro ext)
  fix call :: "('k, 'v) lru_call" and c
  show "lru.exec call c = lru_exec call c" by (cases call) (simp_all add: lru_exec_def)
qed

lemma lru_rel_bound: "lru_rel c es pos \<Longrightarrow> length es \<le> cache_size c \<and> distinct (map fst es)"
proof -
  assume "lru_rel c es pos"
  then obtain ns where ns: "lru_rep c ns pos" "es = map snd ns" by (auto simp: lru_rel_def)
  have "map fst es = map node_key ns" by (simp add: ns(2) node_key_def)
  then show ?thesis using lru_repD(5,7)[OF ns(1)] ns(2) by (metis length_map)
qed

definition lru_demo_params :: "(nat, nat cache_entry) tparams" where
  "lru_demo_params = \<lparr>sizeof_key = 8, sizeof_value = 16, default_key = 0, default_value = \<lparr>list_entry = 0, entry_value = 0\<rparr>\<rparr>"

text \<open>
  C5.  \<open>LruCache\<close> implements least-recently-used caching: after its construction for \<open>n\<close> entries (a multiple of
  64, at least 128 and at most \<open>2 ^ 31\<close>, whose list entries of \<open>sz\<close> bytes take less than \<open>2 ^ 32\<close> bytes altogether,
  since the code computes the size of the slot memory in 32 bits), every sequence of \<open>Insert\<close>, \<open>Lookup\<close>, \<open>Update\<close>, \<open>UpdateValue\<close>, \<open>Forget\<close> and \<open>Drop\<close> with keys
  other than the empty key returns, with the answers of an association list that is ordered by the last
  use and loses its first element when a new key meets \<open>n\<close> entries.  It fails exactly if some
  \<open>Update\<close> names an absent key.
\<close>

theorem lru_history:
  assumes "64 dvd n" "128 \<le> n" "n \<le> 2 ^ 31" "tparams_ok tp" "0 < sz" "sz * n < 2 ^ 32" "\<forall>c \<in> set cs. call_key c \<noteq> Some emp"
  shows "\<exists>c. LruCache_new sz tp mem n emp h = Some c \<and>
    map_option fst (run_calls lru_exec cs c) = map_option fst (run_calls (al_exec n) cs [])"
proof -
  obtain c where c: "LruCache_new sz tp mem n emp h = Some c" "lru_rel c [] None" "\<not> paused c" "cache_size c = n"
    "empty_key (cache c) = emp"
    using LruCache_new_ok[OF assms(1-6)] by blast
  have "case run_calls (al_exec n) cs [] of None \<Rightarrow> run_calls lru_exec cs c = None
    | Some (as, es') \<Rightarrow> \<exists>s'. run_calls lru_exec cs c = Some (as, s') \<and> lru_open s' es' None"
    unfolding lru_exec_eq[symmetric] c(4)[symmetric]
    by (rule lru.history_refines) (use c(2-5) assms(7) in \<open>auto simp: lru_open_def\<close>)
  then show ?thesis using c(1) by (auto split: option.splits)
qed

theorem lru_history_witness:
  "\<exists>c. LruCache_new 24 lru_demo_params (\<lambda>_. 0) 128 0 of_nat = Some c \<and>
    map_option fst (run_calls lru_exec [CInsert 1 10, CInsert 2 20, CLookup 1 True, CForget 2, CLookup 2 True] c) =
      Some [Flag True, Flag True, Val (Some 10), Flag True, Val None]"
proof -
  have "tparams_ok lru_demo_params" by (simp add: tparams_ok_def lru_demo_params_def)
  from lru_history[OF _ _ _ this, of 128 24 "[CInsert 1 10, CInsert 2 20, CLookup 1 True, CForget 2, CLookup 2 True]" 0 "\<lambda>_. 0" of_nat]
  show ?thesis by (simp add: al_insert_def al_touch_def al_remove_def)
qed

text \<open>
  C17.  The filter operation walks the cache from the oldest to the newest entry: \<open>FilterNext\<close> steps to the next
  entry and returns false after the last one, \<open>FilterGet\<close> returns the entry at the position, \<open>FilterDelete\<close>
  removes it and steps back to its predecessor, so that the walk goes on with its successor; and \<open>FilterEnd\<close>
  makes the cache usable again with the remaining entries.
\<close>

theorem lru_filter_step:
  assumes "lru_rel c (us @ (k, v) # vs) (Some (length us))"
  shows "\<exists>c1 c2 c3. FilterNext c = Some (True, c1) \<and> FilterGet c1 = Some (k, v) \<and>
    lru_rel c1 (us @ (k, v) # vs) (Some (Suc (length us))) \<and>
    FilterDelete c1 = Some c2 \<and> lru_rel c2 (us @ vs) (Some (length us)) \<and>
    FilterEnd c2 = Some c3 \<and> lru_rel c3 (us @ vs) None \<and>
    (vs = [] \<longrightarrow> (\<exists>c4. FilterNext c2 = Some (False, c4)))"
proof -
  let ?es = "us @ (k, v) # vs"
  obtain c1 where c1: "FilterNext c = Some (True, c1)" "lru_rel c1 ?es (Some (Suc (length us)))"
    using filter_next_ok[OF assms] by auto
  obtain c2 where c2: "FilterDelete c1 = Some c2" "lru_rel c2 (us @ vs) (Some (length us))"
    using filter_delete_ok[OF c1(2)] by auto
  obtain c3 where c3: "FilterEnd c2 = Some c3" "lru_rel c3 (us @ vs) None"
    using filter_end_ok[OF c2(2)] by blast
  show ?thesis using c1 c2 c3 filter_get_ok[OF c1(2)] filter_next_ok[OF c2(2)] by auto
qed

theorem lru_filter_step_witness:
  "\<exists>(c :: (nat, nat) lru_cache) c1 c2. FilterNext c = Some (True, c1) \<and> FilterGet c1 = Some (5, 10) \<and> FilterDelete c1 = Some c2"
proof -
  have "tparams_ok lru_demo_params" by (simp add: tparams_ok_def lru_demo_params_def)
  then obtain c :: "(nat, nat) lru_cache" where c: "lru_rel c [] None" "\<not> paused c" "cache_size c = 128" "empty_key (cache c) = 0"
    using LruCache_new_ok[of 128 lru_demo_params 24 "\<lambda>_. 0" 0 of_nat] by auto
  obtain c1 :: "(nat, nat) lru_cache" where "lru_rel c1 [(5, 10)] None"
    using lru_Insert_ok[OF c(1), of 5 10] c by (auto simp: al_insert_def)
  then obtain c2 :: "(nat, nat) lru_cache" where "lru_rel c2 [(5, 10)] (Some 0)" using filter_begin_ok by blast
  with lru_filter_step[of c2 "[]" 5 10 "[]"] show ?thesis by auto
qed

end
