(* ===== verification/MallocHeap.thy ===== *)
theory MallocHeap
  imports Bytes Doubles
begin

text \<open>
  The compacting heap of \<^verbatim>\<open>cvmfs/malloc_heap.cc\<close>.  The arena is a list of bytes and a pointer is an offset
  into it; tags are 8-byte signed integers in front of the blocks, negative for free blocks.  Every read
  and write is checked against the bounds of the arena.  The call-back of \<open>Compact\<close> is a function on the
  state of the owner of the blocks; what the heap requires of an owner is the locale \<open>block_owner\<close>.
\<close>

section \<open>The code\<close>

record malloc_heap =
  heap_capacity :: nat
  gauge :: nat
  stored :: nat
  num_blocks :: nat
  arena :: "nat list"

definition kMinCapacity :: nat where
  "kMinCapacity = 1024"

definition sizeof_Tag :: nat where
  "sizeof_Tag = 8"

definition RoundUp8 :: "nat \<Rightarrow> nat" where
  "RoundUp8 sz = u64 (sz + 7) div 8 * 8"

definition tag_GetSize :: "int \<Rightarrow> nat" where
  "tag_GetSize sz = nat (if sz < 0 then - sz else sz)"

definition tag_IsFree :: "int \<Rightarrow> bool" where
  "tag_IsFree sz = (sz < 0)"

definition read_tag :: "nat list \<Rightarrow> nat \<Rightarrow> int option" where
  "read_tag mem p = map_option dec_s64 (mem_read mem p sizeof_Tag)"

definition write_tag :: "nat list \<Rightarrow> nat \<Rightarrow> int \<Rightarrow> nat list option" where
  "write_tag mem p sz = mem_write mem p (enc_s64 sz)"

definition JumpToNext :: "nat list \<Rightarrow> nat \<Rightarrow> nat option" where
  "JumpToNext mem p = map_option (\<lambda>size. p + sizeof_Tag + tag_GetSize size) (read_tag mem p)"

definition MallocHeap_new :: "nat \<Rightarrow> nat list \<Rightarrow> malloc_heap option" where
  "MallocHeap_new capacity fresh = do {
     assert_that (capacity > kMinCapacity);
     assert_that (capacity mod 8 = 0);
     assert_that (length fresh = capacity);
     Some \<lparr>heap_capacity = capacity, gauge = 0, stored = 0, num_blocks = 0, arena = fresh\<rparr>
   }"

definition heap_Allocate :: "nat \<Rightarrow> nat list \<Rightarrow> malloc_heap \<Rightarrow> (nat option \<times> malloc_heap) option" where
  "heap_Allocate sz header h = do {
     assert_that (sz > 0);
     assert_that (length header \<le> sz);
     let rounded_size = RoundUp8 sz;
     let real_size = u64 (rounded_size + sizeof_Tag);
     if u64 (gauge h + real_size) > heap_capacity h then Some (None, h)
     else do {
       let new_block = gauge h;
       mem1 \<leftarrow> write_tag (arena h) new_block (s64 rounded_size);
       let new_block = new_block + sizeof_Tag;
       mem2 \<leftarrow> mem_write mem1 new_block header;
       Some (Some new_block, h\<lparr>arena := mem2, gauge := u64 (gauge h + real_size), stored := u64 (stored h + rounded_size),
                               num_blocks := u64 (num_blocks h + 1)\<rparr>)
     }
   }"

definition heap_GetSize :: "nat \<Rightarrow> malloc_heap \<Rightarrow> nat option" where
  "heap_GetSize block h = do {
     assert_that (block \<ge> sizeof_Tag);
     size \<leftarrow> read_tag (arena h) (block - sizeof_Tag);
     assert_that (size > 0);
     Some (nat size)
   }"

definition MarkFree :: "nat \<Rightarrow> malloc_heap \<Rightarrow> malloc_heap option" where
  "MarkFree block h = do {
     assert_that (block \<ge> sizeof_Tag);
     let tag = block - sizeof_Tag;
     size \<leftarrow> read_tag (arena h) tag;
     assert_that (size > 0);
     mem \<leftarrow> write_tag (arena h) tag (- size);
     size1 \<leftarrow> read_tag mem tag;
     Some (h\<lparr>arena := mem, stored := u64 (stored h + (2 ^ 64 - tag_GetSize size1)), num_blocks := u64 (num_blocks h + (2 ^ 64 - 1))\<rparr>)
   }"

definition Expand :: "nat \<Rightarrow> nat \<Rightarrow> malloc_heap \<Rightarrow> (nat option \<times> malloc_heap) option" where
  "Expand block new_size h = do {
     old_size \<leftarrow> heap_GetSize block h;
     assert_that (old_size \<le> new_size);
     header \<leftarrow> mem_read (arena h) block old_size;
     (new_block, h1) \<leftarrow> heap_Allocate new_size header h;
     h2 \<leftarrow> (if new_block \<noteq> None then MarkFree block h1 else Some h1);
     Some (new_block, h2)
   }"

definition HasSpaceFor :: "nat \<Rightarrow> malloc_heap \<Rightarrow> bool" where
  "HasSpaceFor nbytes h = (RoundUp8 (u64 (gauge h + nbytes + sizeof_Tag)) \<le> heap_capacity h)"

definition compacted_bytes :: "malloc_heap \<Rightarrow> nat" where
  "compacted_bytes h = u64 (stored h + num_blocks h * sizeof_Tag)"

text \<open>The quotient of an empty heap is not a number: \<open>None\<close>.\<close>

definition utilization :: "malloc_heap \<Rightarrow> dbl option" where
  "utilization h = (if gauge h = 0 then None else Some (dbl_div (dbl_of_nat (stored h)) (dbl_of_nat (gauge h))))"

text \<open>The sliding window of \<open>Compact\<close>: \<open>cb p mem s\<close> is the call-back for the block moved to \<open>p\<close>.\<close>

partial_function (option) compact_loop ::
  "(nat \<Rightarrow> nat list \<Rightarrow> 's \<Rightarrow> 's option) \<Rightarrow> nat \<Rightarrow> nat \<Rightarrow> nat \<Rightarrow> nat list \<Rightarrow> 's \<Rightarrow> (nat \<times> nat list \<times> 's) option" where
  "compact_loop cb heap_top current_tag next_tag mem s =
     (if next_tag < heap_top then
        Option.bind (read_tag mem current_tag) (\<lambda>current_size.
          if tag_IsFree current_size then
            Option.bind (read_tag mem next_tag) (\<lambda>next_size.
              if tag_IsFree next_size then
                Option.bind (write_tag mem current_tag (current_size - int (sizeof_Tag + tag_GetSize next_size))) (\<lambda>mem1.
                Option.bind (JumpToNext mem1 next_tag) (\<lambda>next_tag1.
                  compact_loop cb heap_top current_tag next_tag1 mem1 s))
              else
                Option.bind (write_tag mem current_tag next_size) (\<lambda>mem1.
                Option.bind (read_tag mem1 next_tag) (\<lambda>size1.
                Option.bind (mem_read mem1 (next_tag + sizeof_Tag) (tag_GetSize size1)) (\<lambda>block.
                Option.bind (mem_write mem1 (current_tag + sizeof_Tag) block) (\<lambda>mem2.
                Option.bind (cb (current_tag + sizeof_Tag) mem2 s) (\<lambda>s1.
                Option.bind (JumpToNext mem2 current_tag) (\<lambda>next_tag1.
                Option.bind (write_tag mem2 next_tag1 current_size) (\<lambda>mem3.
                  compact_loop cb heap_top current_tag next_tag1 mem3 s1))))))))
          else
            Option.bind (JumpToNext mem next_tag) (\<lambda>next_tag1.
              compact_loop cb heap_top next_tag next_tag1 mem s))
      else Some (current_tag, mem, s))"

definition Compact :: "(nat \<Rightarrow> nat list \<Rightarrow> 's \<Rightarrow> 's option) \<Rightarrow> malloc_heap \<Rightarrow> 's \<Rightarrow> (malloc_heap \<times> 's) option" where
  "Compact cb h s = (if gauge h = 0 then Some (h, s) else do {
     next_tag \<leftarrow> JumpToNext (arena h) 0;
     (current_tag, mem, s1) \<leftarrow> compact_loop cb (gauge h) 0 next_tag (arena h) s;
     size \<leftarrow> read_tag mem current_tag;
     let g = (if tag_IsFree size then current_tag else current_tag + (sizeof_Tag + tag_GetSize size));
     Some (h\<lparr>arena := mem, gauge := g\<rparr>, s1)
   })"

section \<open>Blocks\<close>

text \<open>A block is reserved or free and has its data; \<open>layout\<close> lists the reserved blocks with their addresses.\<close>

type_synonym block = "bool \<times> nat list"

definition tag_of :: "block \<Rightarrow> int" where
  "tag_of b = (if fst b then int (length (snd b)) else - int (length (snd b)))"

definition enc :: "block \<Rightarrow> nat list" where
  "enc b = enc_s64 (tag_of b) @ snd b"

definition encs :: "block list \<Rightarrow> nat list" where
  "encs bs = concat (map enc bs)"

fun layout :: "nat \<Rightarrow> block list \<Rightarrow> (nat \<times> nat list) list" where
  "layout a [] = []"
| "layout a (b # bs) = (if fst b then [(a + 8, snd b)] else []) @ layout (a + length (enc b)) bs"

definition block_ok :: "block \<Rightarrow> bool" where
  "block_ok b \<longleftrightarrow> 0 < length (snd b) \<and> 8 dvd length (snd b)"

definition heap_rep :: "malloc_heap \<Rightarrow> block list \<Rightarrow> bool" where
  "heap_rep h bs \<longleftrightarrow> (\<exists>rest. arena h = encs bs @ rest) \<and> gauge h = length (encs bs) \<and> length (arena h) = heap_capacity h \<and>
     8 dvd heap_capacity h \<and> heap_capacity h < 2 ^ 62 \<and> list_all block_ok bs \<and>
     stored h = sum_list (map (length \<circ> snd) (filter fst bs)) \<and> num_blocks h = length (filter fst bs)"

lemma enc_length [simp]: "length (enc b) = 8 + length (snd b)"
  by (simp add: enc_def)

lemma encs_simps [simp]: "encs [] = []" "encs (b # bs) = enc b @ encs bs" "encs (bs @ cs) = encs bs @ encs cs"
  by (simp_all add: encs_def)

lemma layout_append: "layout a (bs @ cs) = layout a bs @ layout (a + length (encs bs)) cs"
  by (induction bs arbitrary: a) (simp_all add: add.assoc)

lemma read_tag_at:
  assumes "mem = xs @ enc b @ zs" "p = length xs" "length mem < 2 ^ 62"
  shows "read_tag mem p = Some (tag_of b)"
proof -
  have "mem_read mem p 8 = Some (enc_s64 (tag_of b))"
    using mem_read_at[of p xs 8 "enc_s64 (tag_of b)" "snd b @ zs"] assms(1,2) by (simp add: enc_def)
  moreover have "length (snd b) < 2 ^ 62" using assms by simp
  then have "- (2 ^ 63) \<le> tag_of b" "tag_of b < 2 ^ 63" by (auto simp: tag_of_def)
  then have "dec_s64 (enc_s64 (tag_of b)) = tag_of b" by (rule dec_enc_s64)
  ultimately show ?thesis by (simp add: read_tag_def sizeof_Tag_def)
qed

lemma tag_of_simps [simp]:
  "tag_GetSize (tag_of b) = length (snd b)" "tag_IsFree (tag_of b) \<longleftrightarrow> \<not> fst b \<and> snd b \<noteq> []"
  by (auto simp: tag_GetSize_def tag_of_def tag_IsFree_def)

lemma JumpToNext_at:
  assumes "mem = xs @ enc b @ zs" "p = length xs" "length mem < 2 ^ 62"
  shows "JumpToNext mem p = Some (length (xs @ enc b))"
  using read_tag_at[OF assms] assms(2) by (simp add: JumpToNext_def sizeof_Tag_def)

lemma write_tag_at:
  assumes "mem = xs @ enc b @ zs" "p = length xs"
  shows "write_tag mem p t = Some (xs @ enc_s64 t @ snd b @ zs)"
  using mem_write_at[of p xs "enc_s64 t" "enc_s64 (tag_of b)" "snd b @ zs"] assms by (simp add: write_tag_def enc_def)

section \<open>Allocation and release\<close>

lemma RoundUp8_bounds:
  assumes "sz < 2 ^ 62"
  shows "sz \<le> RoundUp8 sz" "RoundUp8 sz < sz + 8" "8 dvd RoundUp8 sz"
  using assms by (simp_all add: RoundUp8_def)

lemma encs_dvd: "list_all block_ok bs \<Longrightarrow> 8 dvd length (encs bs)"
  by (induction bs) (auto simp: block_ok_def)

lemma encs_bound: "sum_list (map (length \<circ> snd) (filter fst bs)) \<le> length (encs bs)" "length (filter fst bs) \<le> length (encs bs)"
  by (induction bs) auto

lemma heap_repD:
  assumes "heap_rep h bs"
  obtains rest where "arena h = encs bs @ rest" "gauge h = length (encs bs)" "heap_capacity h = length (encs bs @ rest)"
    "8 dvd heap_capacity h" "heap_capacity h < 2 ^ 62" "list_all block_ok bs"
    "stored h = sum_list (map (length \<circ> snd) (filter fst bs))" "num_blocks h = length (filter fst bs)"
  using assms by (auto simp: heap_rep_def)

lemma heap_new_ok:
  assumes "1024 < cap" "8 dvd cap" "cap < 2 ^ 62" "length fresh = cap"
  shows "\<exists>h. MallocHeap_new cap fresh = Some h \<and> heap_rep h [] \<and> heap_capacity h = cap"
  using assms by (simp add: MallocHeap_new_def kMinCapacity_def heap_rep_def dvd_eq_mod_eq_0)

lemma heap_Allocate_ok:
  assumes rep: "heap_rep h bs" and sz: "0 < sz" "sz < 2 ^ 62" and hd: "length header \<le> sz"
  shows "if gauge h + RoundUp8 sz + 8 \<le> heap_capacity h
    then \<exists>data h'. heap_Allocate sz header h = Some (Some (gauge h + 8), h') \<and> length data = RoundUp8 sz \<and>
      take (length header) data = header \<and> heap_rep h' (bs @ [(True, data)]) \<and> heap_capacity h' = heap_capacity h
    else heap_Allocate sz header h = Some (None, h)"
proof -
  obtain rest where R: "arena h = encs bs @ rest" "gauge h = length (encs bs)" "heap_capacity h = length (encs bs @ rest)"
    "8 dvd heap_capacity h" "heap_capacity h < 2 ^ 62" "list_all block_ok bs"
    "stored h = sum_list (map (length \<circ> snd) (filter fst bs))" "num_blocks h = length (filter fst bs)"
    using heap_repD[OF rep] .
  note B = RoundUp8_bounds[OF sz(2)] and E = encs_bound[of bs]
  have g: "gauge h < 2 ^ 62" using R(2,3,5) by simp
  have u: "u64 (RoundUp8 sz + sizeof_Tag) = RoundUp8 sz + 8" "u64 (gauge h + (RoundUp8 sz + 8)) = gauge h + (RoundUp8 sz + 8)"
    using B(2) sz(2) g by (simp_all add: sizeof_Tag_def)
  show ?thesis
  proof (cases "gauge h + RoundUp8 sz + 8 \<le> heap_capacity h")
    case True
    then obtain old data0 rest1 where rest: "rest = old @ data0 @ rest1" "length old = 8" "length data0 = RoundUp8 sz"
      using mem_split[of 8 "RoundUp8 sz" rest] R(2,3) by auto
    define data where "data = header @ drop (length header) data0"
    have d: "length data = RoundUp8 sz" "take (length header) data = header"
      using hd B(1) rest(3) by (auto simp: data_def)
    have s: "s64 (RoundUp8 sz) = tag_of (True, data)" using B(2) sz(2) d(1) by (simp add: s64_def tag_of_def)
    have w1: "write_tag (arena h) (gauge h) (s64 (RoundUp8 sz)) = Some (encs bs @ enc_s64 (s64 (RoundUp8 sz)) @ data0 @ rest1)"
      using mem_write_at[of "gauge h" "encs bs" "enc_s64 (s64 (RoundUp8 sz))" old "data0 @ rest1"] R(1,2) rest by (simp add: write_tag_def)
    have split: "data0 @ rest1 = take (length header) data0 @ drop (length header) data0 @ rest1"
      by (metis append.assoc append_take_drop_id)
    have w2: "mem_write (encs bs @ enc_s64 (s64 (RoundUp8 sz)) @ data0 @ rest1) (gauge h + 8) header = Some (encs bs @ enc (True, data) @ rest1)"
      using mem_write_at[of "gauge h + 8" "encs bs @ enc_s64 (s64 (RoundUp8 sz))" header "take (length header) data0" "drop (length header) data0 @ rest1"]
        R(2) hd B(1) rest(3) unfolding split by (simp add: data_def enc_def s)
    define h' where "h' = h\<lparr>arena := encs bs @ enc (True, data) @ rest1, gauge := gauge h + (RoundUp8 sz + 8),
      stored := stored h + RoundUp8 sz, num_blocks := num_blocks h + 1\<rparr>"
    have "stored h + RoundUp8 sz < 2 ^ 64" "num_blocks h + 1 < 2 ^ 64" using E g R(2,7,8) B(2) sz(2) by simp_all
    then have "heap_Allocate sz header h = Some (Some (gauge h + 8), h')"
      using True sz hd u w1 w2 by (simp add: heap_Allocate_def sizeof_Tag_def h'_def Let_def)
    moreover have "heap_rep h' (bs @ [(True, data)])"
      using R d B(3) sz(1) B(1) rest by (simp add: heap_rep_def h'_def block_ok_def)
    ultimately show ?thesis using True d by (auto simp: h'_def)
  next
    case False
    then show ?thesis using u hd sz(1) by (simp add: heap_Allocate_def)
  qed
qed

lemma heap_block_at:
  assumes "heap_rep h (us @ b # vs)"
  obtains rest where "arena h = encs us @ enc b @ encs vs @ rest" "length (arena h) < 2 ^ 62"
  using assms by (auto simp: heap_rep_def)

lemma heap_GetSize_ok:
  assumes "heap_rep h (us @ (True, d) # vs)"
  shows "heap_GetSize (length (encs us) + 8) h = Some (length d)"
proof -
  obtain rest where "arena h = encs us @ enc (True, d) @ encs vs @ rest" "length (arena h) < 2 ^ 62"
    using heap_block_at[OF assms] .
  from read_tag_at[OF this(1) refl this(2)] show ?thesis
    using assms by (simp add: heap_GetSize_def sizeof_Tag_def tag_of_def heap_rep_def block_ok_def)
qed

lemma u64_minus: "m \<le> n \<Longrightarrow> n < 2 ^ 64 \<Longrightarrow> u64 (n + (2 ^ 64 - m)) = n - m"
proof -
  assume "m \<le> n" "n < 2 ^ 64"
  then have "n + (2 ^ 64 - m) = (n - m) + 2 ^ 64" by simp
  then have "u64 (n + (2 ^ 64 - m)) = (n - m) mod 2 ^ 64" unfolding u64_def by (simp only: mod_add_self2)
  then show ?thesis using \<open>n < 2 ^ 64\<close> by simp
qed

lemma MarkFree_ok:
  assumes rep: "heap_rep h (us @ (True, d) # vs)"
  shows "\<exists>h'. MarkFree (length (encs us) + 8) h = Some h' \<and> heap_rep h' (us @ (False, d) # vs) \<and>
    heap_capacity h' = heap_capacity h \<and> gauge h' = gauge h"
proof -
  obtain rest where A: "arena h = encs us @ enc (True, d) @ encs vs @ rest" "length (arena h) < 2 ^ 62"
    using heap_block_at[OF rep] .
  note r = read_tag_at[OF A(1) refl A(2)]
  define mem where "mem = encs us @ enc (False, d) @ encs vs @ rest"
  have w: "write_tag (arena h) (length (encs us)) (- int (length d)) = Some mem"
    using write_tag_at[OF A(1) refl] by (simp add: mem_def enc_def tag_of_def)
  have r2: "read_tag mem (length (encs us)) = Some (tag_of (False, d))"
    using A by (intro read_tag_at[OF mem_def refl]) (simp add: mem_def)
  have d: "0 < length d" using rep by (simp add: heap_rep_def block_ok_def)
  have b: "stored h < 2 ^ 64" "length d \<le> stored h" "num_blocks h < 2 ^ 64" "1 \<le> num_blocks h"
    using rep encs_bound[of "us @ (True, d) # vs"] A(2) by (auto simp: heap_rep_def)
  define h' where "h' = h\<lparr>arena := mem, stored := stored h - length d, num_blocks := num_blocks h - 1\<rparr>"
  have "MarkFree (length (encs us) + 8) h = Some h'"
    using r w r2 d u64_minus[OF b(2,1)] u64_minus[OF b(4,3)] tag_of_simps(1)[of "(False, d)"]
    by (simp add: MarkFree_def sizeof_Tag_def tag_of_def h'_def)
  moreover have "heap_rep h' (us @ (False, d) # vs)"
    using rep A by (auto simp: heap_rep_def h'_def mem_def block_ok_def)
  ultimately show ?thesis by (simp add: h'_def)
qed

text \<open>The owner of a block reads and writes its bytes.\<close>

lemma heap_store_ok:
  assumes rep: "heap_rep h (us @ (True, d) # vs)" and fit: "off + length x \<le> length d"
  shows "\<exists>mem. mem_write (arena h) (length (encs us) + 8 + off) x = Some mem \<and>
    heap_rep (h\<lparr>arena := mem\<rparr>) (us @ (True, take off d @ x @ drop (off + length x) d) # vs)"
proof -
  obtain rest where A: "arena h = encs us @ enc (True, d) @ encs vs @ rest" using heap_block_at[OF rep] .
  obtain d1 d2 d3 where d: "d = d1 @ d2 @ d3" "length d1 = off" "length d2 = length x" using mem_split[OF fit] by blast
  define d' where "d' = d1 @ x @ d3"
  have e: "enc (True, d') = enc_s64 (tag_of (True, d)) @ d'" using d by (simp add: enc_def tag_of_def d'_def)
  have "mem_write (arena h) (length (encs us) + 8 + off) x = Some (encs us @ enc (True, d') @ encs vs @ rest)"
    using mem_write_at[of "length (encs us) + 8 + off" "encs us @ enc_s64 (tag_of (True, d)) @ d1" x d2 "d3 @ encs vs @ rest"] A d e
    by (simp add: enc_def d'_def)
  moreover have "heap_rep (h\<lparr>arena := encs us @ enc (True, d') @ encs vs @ rest\<rparr>) (us @ (True, d') # vs)"
    using rep A d by (auto simp: heap_rep_def d'_def block_ok_def)
  moreover have "d' = take off d @ x @ drop (off + length x) d" using d by (simp add: d'_def)
  ultimately show ?thesis by simp
qed

lemma heap_load_ok:
  assumes rep: "heap_rep h (us @ (True, d) # vs)" and fit: "off + n \<le> length d"
  shows "mem_read (arena h) (length (encs us) + 8 + off) n = Some (take n (drop off d))"
proof -
  obtain rest where A: "arena h = encs us @ enc (True, d) @ encs vs @ rest" using heap_block_at[OF rep] .
  obtain d1 d2 d3 where d: "d = d1 @ d2 @ d3" "length d1 = off" "length d2 = n" using mem_split[OF fit] by blast
  show ?thesis
    using mem_read_at[of "length (encs us) + 8 + off" "encs us @ enc_s64 (tag_of (True, d)) @ d1" n d2 "d3 @ encs vs @ rest"] A d
    by (simp add: enc_def)
qed

lemma round8_add: "(8 * g + n + 15) div 8 * 8 = 8 * g + (n + 7) div 8 * 8 + 8" for g n :: nat
proof -
  have "8 * g + n + 15 = (n + 7) + 8 * (g + 1)" by simp
  then have "(8 * g + n + 15) div 8 = (n + 7) div 8 + (g + 1)" by (simp only: div_mult_self2)
  then show ?thesis by simp
qed

lemma HasSpaceFor_iff:
  assumes "heap_rep h bs" "n < 2 ^ 62"
  shows "HasSpaceFor n h \<longleftrightarrow> gauge h + RoundUp8 n + 8 \<le> heap_capacity h"
proof -
  obtain g where g: "gauge h = 8 * g" using assms(1) encs_dvd by (auto simp: heap_rep_def elim!: dvdE)
  have "gauge h < 2 ^ 62" using assms(1) by (auto simp: heap_rep_def)
  then have "RoundUp8 (u64 (gauge h + n + 8)) = gauge h + RoundUp8 n + 8"
    using assms(2) g round8_add[of g n] by (simp add: RoundUp8_def add_ac)
  then show ?thesis by (simp add: HasSpaceFor_def sizeof_Tag_def)
qed

section \<open>Compaction\<close>

text \<open>One round of the loop, by the kinds of the two blocks in the window.\<close>

lemma compact_end: "\<not> n < tp \<Longrightarrow> compact_loop cb tp c n mem s = Some (c, mem, s)"
  by (simp add: compact_loop.simps)

lemma compact_reserved:
  assumes mem: "mem = encs dn @ enc (True, d) @ enc b @ zs" and small: "length mem < 2 ^ 62"
    and n: "n = length (encs dn @ enc (True, d))" "n < tp"
  shows "compact_loop cb tp (length (encs dn)) n mem s = compact_loop cb tp n (length (encs dn @ enc (True, d) @ enc b)) mem s"
proof -
  have "read_tag mem (length (encs dn)) = Some (tag_of (True, d))" by (rule read_tag_at[OF mem refl small])
  moreover have "JumpToNext mem n = Some (length ((encs dn @ enc (True, d)) @ enc b))"
    using mem by (intro JumpToNext_at[OF _ n(1) small]) simp
  ultimately show ?thesis using n(2) by (subst compact_loop.simps) simp
qed

lemma compact_merge:
  assumes mem: "mem = encs dn @ enc (False, c) @ enc (False, d) @ zs" and small: "length mem < 2 ^ 62"
    and n: "n = length (encs dn @ enc (False, c))" "n < tp" and ne: "c \<noteq> []" "d \<noteq> []"
  shows "compact_loop cb tp (length (encs dn)) n mem s =
    compact_loop cb tp (length (encs dn)) (length (encs dn @ enc (False, c @ enc (False, d)))) (encs dn @ enc (False, c @ enc (False, d)) @ zs) s"
proof -
  have r1: "read_tag mem (length (encs dn)) = Some (tag_of (False, c))" by (rule read_tag_at[OF mem refl small])
  have r2: "read_tag mem n = Some (tag_of (False, d))" using mem by (intro read_tag_at[OF _ n(1) small]) simp
  define mem1 where "mem1 = encs dn @ enc (False, c @ enc (False, d)) @ zs"
  have t: "tag_of (False, c) - int (sizeof_Tag + length d) = tag_of (False, c @ enc (False, d))"
    by (simp add: tag_of_def sizeof_Tag_def)
  have w: "write_tag mem (length (encs dn)) (tag_of (False, c) - int (sizeof_Tag + length d)) = Some mem1"
    unfolding t using write_tag_at[OF mem refl] by (simp add: mem1_def enc_def)
  have "JumpToNext mem1 n = Some (length ((encs dn @ enc_s64 (tag_of (False, c @ enc (False, d))) @ c) @ enc (False, d)))"
    using n(1) small mem by (intro JumpToNext_at[where zs = zs]) (simp_all add: mem1_def enc_def)
  then have "JumpToNext mem1 n = Some (length (encs dn @ enc (False, c @ enc (False, d))))" by (simp add: enc_def)
  then show ?thesis using r1 r2 w n(2) ne unfolding mem1_def[symmetric]
    by (subst compact_loop.simps) simp
qed

text \<open>A reserved block behind a free one slides down; the free space comes out behind it.\<close>

lemma compact_slide:
  assumes mem: "mem = encs dn @ enc (False, c) @ enc (True, d) @ zs" and small: "length mem < 2 ^ 62"
    and n: "n = length (encs dn @ enc (False, c))" "n < tp" and ne: "c \<noteq> []" "d \<noteq> []"
    and cb: "\<And>mem2. mem_read mem2 (length (encs dn) + 8) (length d) = Some d \<Longrightarrow> \<exists>s1. cb (length (encs dn) + 8) mem2 s = Some s1 \<and> P s1"
  shows "\<exists>c' s1. length c' = length c \<and> P s1 \<and> compact_loop cb tp (length (encs dn)) n mem s =
    compact_loop cb tp (length (encs dn)) (length (encs dn @ enc (True, d))) (encs dn @ enc (True, d) @ enc (False, c') @ zs) s1"
proof -
  have r1: "read_tag mem (length (encs dn)) = Some (tag_of (False, c))" by (rule read_tag_at[OF mem refl small])
  have r2: "read_tag mem n = Some (tag_of (True, d))" using mem by (intro read_tag_at[OF _ n(1) small]) simp
  define t where "t = enc_s64 (tag_of (True, d))"
  have tl: "length t = 8" by (simp add: t_def)
  define mem1 where "mem1 = encs dn @ t @ c @ t @ d @ zs"
  have w: "write_tag mem (length (encs dn)) (tag_of (True, d)) = Some mem1"
    using write_tag_at[OF mem refl] by (simp add: mem1_def enc_def t_def)
  have small1: "length mem1 < 2 ^ 62" using small mem tl by (simp add: mem1_def)
  have r3: "read_tag mem1 n = Some (tag_of (True, d))"
    using n(1) small1 tl by (intro read_tag_at[where xs = "encs dn @ t @ c" and zs = zs]) (simp_all add: mem1_def enc_def t_def)
  have r4: "mem_read mem1 (n + 8) (length d) = Some d"
    using mem_read_at[of "n + 8" "encs dn @ t @ c @ t" "length d" d zs] n(1) tl by (simp add: mem1_def)
  obtain x y where xy: "c @ t @ d = x @ y" "length x = length d" "length y = length c + 8"
  proof
    show "c @ t @ d = take (length d) (c @ t @ d) @ drop (length d) (c @ t @ d)" by (simp only: append_take_drop_id)
  qed (use tl in auto)
  define mem2 where "mem2 = encs dn @ t @ d @ y @ zs"
  have "mem1 = (encs dn @ t) @ (c @ t @ d) @ zs" by (simp add: mem1_def)
  also have "\<dots> = (encs dn @ t) @ x @ y @ zs" by (simp only: xy(1) append.assoc)
  finally have m2: "mem_write mem1 (length (encs dn) + 8) d = Some mem2"
    using mem_write_at[of "length (encs dn) + 8" "encs dn @ t" d x "y @ zs"] tl xy(2) by (simp add: mem2_def)
  have small2: "length mem2 < 2 ^ 62" using small1 mem_write_length[OF m2] by simp
  have "mem_read mem2 (length (encs dn) + 8) (length d) = Some d"
    using mem_read_at[of "length (encs dn) + 8" "encs dn @ t" "length d" d "y @ zs"] tl by (simp add: mem2_def)
  from cb[OF this] obtain s1 where s1: "cb (length (encs dn) + 8) mem2 s = Some s1" "P s1" by blast
  have j: "JumpToNext mem2 (length (encs dn)) = Some (length (encs dn @ enc (True, d)))"
    using small2 by (intro JumpToNext_at[where zs = "y @ zs"]) (simp_all add: mem2_def enc_def t_def)
  obtain y1 c' where y: "y = y1 @ c'" "length y1 = 8" "length c' = length c"
    using that[of "take 8 y" "drop 8 y"] xy(3) by simp
  have w3: "write_tag mem2 (length (encs dn @ enc (True, d))) (tag_of (False, c)) = Some (encs dn @ enc (True, d) @ enc (False, c') @ zs)"
    using mem_write_at[of "length (encs dn @ enc (True, d))" "encs dn @ enc (True, d)" "enc_s64 (tag_of (False, c))" y1 "c' @ zs"] y
    by (simp add: write_tag_def mem2_def enc_def t_def tag_of_def)
  have "compact_loop cb tp (length (encs dn)) n mem s =
    compact_loop cb tp (length (encs dn)) (length (encs dn @ enc (True, d))) (encs dn @ enc (True, d) @ enc (False, c') @ zs) s1"
    using r1 r2 w r3 r4 m2 s1(1) j w3 n(2) ne by (subst compact_loop.simps) (simp add: sizeof_Tag_def)
  then show ?thesis using y(3) s1(2) by blast
qed

text \<open>
  What the loop achieves from a window over the blocks \<open>bs\<close>: it ends, at a block behind which nothing is left,
  only reserved blocks before it, with the reserved blocks of \<open>bs\<close> in their order.
\<close>

definition compacts ::
  "('s \<Rightarrow> (nat \<times> nat list) list \<Rightarrow> bool) \<Rightarrow> (nat \<times> nat list \<times> 's) option \<Rightarrow> nat \<Rightarrow> block list \<Rightarrow> bool" where
  "compacts owns r len bs \<longleftrightarrow> (\<exists>dn cur tail s. r = Some (length (encs dn), encs dn @ enc cur @ tail, s) \<and>
     length (encs dn @ enc cur @ tail) = len \<and> list_all fst dn \<and> list_all block_ok (dn @ [cur]) \<and>
     filter fst (dn @ [cur]) = filter fst bs \<and> owns s (layout 0 (dn @ [cur])))"

text \<open>
  The contract of the owner of the blocks: \<open>owns s L\<close> says that the state \<open>s\<close> knows the reserved blocks by
  their addresses \<open>L\<close>; the call-back of a moved block restores it.
\<close>

locale block_owner =
  fixes owns :: "'s \<Rightarrow> (nat \<times> nat list) list \<Rightarrow> bool"
    and cb :: "nat \<Rightarrow> nat list \<Rightarrow> 's \<Rightarrow> 's option"
  assumes move_law: "owns s (us @ (a, d) # vs) \<Longrightarrow> mem_read mem a' (length d) = Some d \<Longrightarrow>
    \<exists>s'. cb a' mem s = Some s' \<and> owns s' (us @ (a', d) # vs)"
begin

definition window :: "block list \<Rightarrow> block \<Rightarrow> block list \<Rightarrow> nat list \<Rightarrow> 's \<Rightarrow> bool" where
  "window dn cur rest mem s \<longleftrightarrow> (\<exists>tail. mem = encs dn @ enc cur @ encs rest @ tail) \<and> length mem < 2 ^ 62 \<and> list_all fst dn \<and>
     list_all block_ok (dn @ cur # rest) \<and> owns s (layout 0 (dn @ cur # rest))"

definition sweep :: "block list \<Rightarrow> block \<Rightarrow> block list \<Rightarrow> nat list \<Rightarrow> 's \<Rightarrow> (nat \<times> nat list \<times> 's) option" where
  "sweep dn cur rest mem s = compact_loop cb (length (encs (dn @ cur # rest))) (length (encs dn)) (length (encs dn @ enc cur)) mem s"

lemma window_reserved:
  assumes "window dn (True, d) (b # bs) mem s"
  shows "window (dn @ [(True, d)]) b bs mem s" "sweep dn (True, d) (b # bs) mem s = sweep (dn @ [(True, d)]) b bs mem s"
proof -
  show "window (dn @ [(True, d)]) b bs mem s" using assms by (auto simp: window_def)
  obtain tail where M: "mem = encs dn @ enc (True, d) @ enc b @ (encs bs @ tail)" "length mem < 2 ^ 62"
    using assms by (auto simp: window_def)
  show "sweep dn (True, d) (b # bs) mem s = sweep (dn @ [(True, d)]) b bs mem s"
    using compact_reserved[OF M refl, of _ cb s] by (simp add: sweep_def)
qed

lemma window_merge:
  assumes w: "window dn (False, c) ((False, d) # bs) mem s"
  shows "\<exists>c' mem'. window dn (False, c') bs mem' s \<and> length mem' = length mem \<and>
    sweep dn (False, c) ((False, d) # bs) mem s = sweep dn (False, c') bs mem' s"
proof -
  obtain tail where M: "mem = encs dn @ enc (False, c) @ enc (False, d) @ (encs bs @ tail)" "length mem < 2 ^ 62"
    and ne: "c \<noteq> []" "d \<noteq> []" using w by (auto simp: window_def block_ok_def)
  let ?mem = "encs dn @ enc (False, c @ enc (False, d)) @ encs bs @ tail"
  have "sweep dn (False, c) ((False, d) # bs) mem s = sweep dn (False, c @ enc (False, d)) bs ?mem s"
    using compact_merge[OF M refl _ ne, of _ cb s] by (simp add: sweep_def add_ac)
  moreover have "window dn (False, c @ enc (False, d)) bs ?mem s"
    using w M by (auto simp: window_def block_ok_def layout_append add_ac)
  moreover have "length ?mem = length mem" using M(1) by simp
  ultimately show ?thesis by blast
qed

lemma window_slide:
  assumes w: "window dn (False, c) ((True, d) # bs) mem s"
  shows "\<exists>c' mem' s'. window dn (True, d) ((False, c') # bs) mem' s' \<and> length mem' = length mem \<and>
    sweep dn (False, c) ((True, d) # bs) mem s = sweep dn (True, d) ((False, c') # bs) mem' s'"
proof -
  obtain tail where M: "mem = encs dn @ enc (False, c) @ enc (True, d) @ (encs bs @ tail)" "length mem < 2 ^ 62"
    and ne: "c \<noteq> []" "d \<noteq> []" using w by (auto simp: window_def block_ok_def)
  let ?a = "length (encs dn)"
  define P where "P s1 \<longleftrightarrow> owns s1 (layout 0 dn @ (?a + 8, d) # layout (?a + 16 + length c + length d) bs)" for s1
  have L: "owns s (layout 0 dn @ (?a + 16 + length c, d) # layout (?a + 16 + length c + length d) bs)"
    using w by (simp add: window_def layout_append add_ac)
  have cbl: "\<exists>s1. cb (?a + 8) mem2 s = Some s1 \<and> P s1" if "mem_read mem2 (?a + 8) (length d) = Some d" for mem2
    using move_law[OF L that] unfolding P_def .
  let ?tp = "length (encs (dn @ (False, c) # (True, d) # bs))"
  have "\<exists>c' s1. length c' = length c \<and> P s1 \<and> compact_loop cb ?tp ?a (length (encs dn @ enc (False, c))) mem s =
    compact_loop cb ?tp ?a (length (encs dn @ enc (True, d))) (encs dn @ enc (True, d) @ enc (False, c') @ (encs bs @ tail)) s1"
    by (rule compact_slide[OF M refl _ ne]) (use cbl in simp_all)
  then obtain c' s1 where c': "length c' = length c" "P s1"
    "sweep dn (False, c) ((True, d) # bs) mem s = sweep dn (True, d) ((False, c') # bs) (encs dn @ enc (True, d) @ enc (False, c') @ encs bs @ tail) s1"
    by (auto simp: sweep_def add_ac)
  moreover have "window dn (True, d) ((False, c') # bs) (encs dn @ enc (True, d) @ enc (False, c') @ encs bs @ tail) s1"
    using w M c'(1,2) by (auto simp: window_def block_ok_def layout_append P_def add_ac)
  moreover have "length (encs dn @ enc (True, d) @ enc (False, c') @ encs bs @ tail) = length mem" using M(1) c'(1) by simp
  ultimately show ?thesis by blast
qed

lemma sweep_compacts:
  assumes "window dn cur rest mem s"
  shows "compacts owns (sweep dn cur rest mem s) (length mem) (dn @ cur # rest)"
  using assms
proof (induction "2 * length rest + (if fst cur then 0 else 1)" arbitrary: dn cur rest mem s rule: less_induct)
  case less
  obtain r c where cur: "cur = (r, c)" by (cases cur)
  show ?case
  proof (cases rest)
    case Nil
    then have "sweep dn cur rest mem s = Some (length (encs dn), mem, s)"
      unfolding sweep_def by (intro compact_end) simp
    moreover obtain tail where "mem = encs dn @ enc cur @ tail" using less.prems Nil by (auto simp: window_def)
    ultimately show ?thesis using less.prems Nil unfolding compacts_def window_def
      by (intro exI[of _ dn] exI[of _ cur] exI[of _ tail] exI[of _ s]) simp
  next
    case (Cons b bs)
    obtain r' d where b: "b = (r', d)" by (cases b)
    show ?thesis
    proof (cases r)
      case True
      note W = window_reserved[of dn c b bs mem s]
      show ?thesis using W less.prems less.hyps[of bs b "dn @ [(True, c)]" mem s] True cur Cons by simp
    next
      case rf: False
      show ?thesis
      proof (cases r')
        case True
        from window_slide[of dn c d bs mem s] obtain c' mem' s' where "window dn (True, d) ((False, c') # bs) mem' s'"
          "length mem' = length mem" "sweep dn cur rest mem s = sweep dn (True, d) ((False, c') # bs) mem' s'"
          using less.prems cur b Cons True rf by auto
        then show ?thesis using less.hyps[of "(False, c') # bs" "(True, d)" dn mem' s'] cur b Cons True rf by (simp add: compacts_def)
      next
        case False
        from window_merge[of dn c d bs mem s] obtain c' mem' where "window dn (False, c') bs mem' s"
          "length mem' = length mem" "sweep dn cur rest mem s = sweep dn (False, c') bs mem' s"
          using less.prems cur b Cons False rf by auto
        then show ?thesis using less.hyps[of bs "(False, c')" dn mem' s] cur b Cons False rf by (simp add: compacts_def)
      qed
    qed
  qed
qed

lemma Compact_ok:
  assumes rep: "heap_rep h bs" and own: "owns s (layout 0 bs)"
  shows "\<exists>h' s'. Compact cb h s = Some (h', s') \<and> heap_rep h' (filter fst bs) \<and> owns s' (layout 0 (filter fst bs)) \<and>
    heap_capacity h' = heap_capacity h \<and> stored h' = stored h \<and> num_blocks h' = num_blocks h"
proof (cases bs)
  case Nil
  then show ?thesis using assms by (auto simp: Compact_def heap_rep_def)
next
  case (Cons b rest)
  obtain tail where R: "arena h = encs bs @ tail" "gauge h = length (encs bs)" "heap_capacity h = length (encs bs @ tail)"
    "8 dvd heap_capacity h" "heap_capacity h < 2 ^ 62" "list_all block_ok bs"
    "stored h = sum_list (map (length \<circ> snd) (filter fst bs))" "num_blocks h = length (filter fst bs)"
    using heap_repD[OF rep] .
  have "window [] b rest (arena h) s" using R own Cons by (auto simp: window_def)
  from sweep_compacts[OF this] obtain dn cur tail' s' where S: "sweep [] b rest (arena h) s = Some (length (encs dn), encs dn @ enc cur @ tail', s')"
    "length (encs dn @ enc cur @ tail') = length (arena h)" "list_all fst dn" "list_all block_ok (dn @ [cur])"
    "filter fst (dn @ [cur]) = filter fst bs" "owns s' (layout 0 (dn @ [cur]))"
    using Cons by (auto simp: compacts_def)
  have j: "JumpToNext (arena h) 0 = Some (length (enc b))"
    using JumpToNext_at[of "arena h" "[]" b "encs rest @ tail" 0] R Cons by simp
  have r: "read_tag (encs dn @ enc cur @ tail') (length (encs dn)) = Some (tag_of cur)"
    using S(2) R by (intro read_tag_at[OF refl refl]) simp
  have fd: "filter fst dn = dn" using S(3) by (simp add: filter_id_conv list_all_iff)
  define h' where "h' = h\<lparr>arena := encs dn @ enc cur @ tail', gauge := length (encs (filter fst bs))\<rparr>"
  have ne: "snd cur \<noteq> []" using S(4) by (auto simp: block_ok_def)
  have "gauge h \<noteq> 0" using R(2) Cons by simp
  then have "Compact cb h s = Some (h', s')"
    using j S(1) r R(2) ne fd Cons unfolding S(5)[symmetric] h'_def
    by (cases "fst cur") (auto simp: Compact_def sweep_def sizeof_Tag_def S(5)[symmetric])
  moreover have "heap_rep h' (filter fst bs)"
  proof -
    have "\<exists>x. encs dn @ enc cur @ tail' = encs (filter fst bs) @ x" using fd unfolding S(5)[symmetric] by (cases "fst cur") auto
    moreover have "list_all block_ok (filter fst bs)" using R(6) by (auto simp: list_all_iff)
    ultimately show ?thesis using R S(2) by (simp add: heap_rep_def h'_def)
  qed
  moreover have "owns s' (layout 0 (filter fst bs))"
    using S(6) fd unfolding S(5)[symmetric] by (cases "fst cur") (auto simp: layout_append)
  ultimately show ?thesis by (simp add: h'_def)
qed

end

section \<open>Properties\<close>

definition demo_heap :: malloc_heap where
  "demo_heap = \<lparr>heap_capacity = 2048, gauge = 0, stored = 0, num_blocks = 0, arena = replicate 2048 0\<rparr>"

lemma demo_heap_rep: "heap_rep demo_heap []"
  by (simp add: heap_rep_def demo_heap_def)

text \<open>
  C15.  \<open>Allocate\<close> returns a block exactly if \<open>HasSpaceFor\<close> its size holds, and \<open>NULL\<close> without any change otherwise.
  The block is 8-byte aligned, lies within the arena, begins with the header, has the rounded size, and all
  other blocks, reserved or free, keep their place and their bytes.
\<close>

theorem heap_allocates:
  assumes "heap_rep h bs" "0 < sz" "sz < 2 ^ 62" "length header \<le> sz"
  shows "if HasSpaceFor sz h
    then \<exists>p h' data. heap_Allocate sz header h = Some (Some p, h') \<and> heap_rep h' (bs @ [(True, data)]) \<and>
      p = length (encs bs) + 8 \<and> p mod 8 = 0 \<and> p + length data \<le> heap_capacity h' \<and> heap_GetSize p h' = Some (length data) \<and>
      sz \<le> length data \<and> length data < sz + 8 \<and> mem_read (arena h') p (length header) = Some header
    else heap_Allocate sz header h = Some (None, h)"
proof (cases "HasSpaceFor sz h")
  case True
  then have room: "gauge h + RoundUp8 sz + 8 \<le> heap_capacity h" using HasSpaceFor_iff[OF assms(1,3)] by simp
  then obtain data h' where A: "heap_Allocate sz header h = Some (Some (gauge h + 8), h')" "length data = RoundUp8 sz"
    "take (length header) data = header" "heap_rep h' (bs @ [(True, data)])" "heap_capacity h' = heap_capacity h"
    using heap_Allocate_ok[OF assms] by auto
  have g: "gauge h = length (encs bs)" and al: "8 dvd gauge h" using assms(1) encs_dvd by (auto simp: heap_rep_def)
  have hl: "length header \<le> length data" using A(2) RoundUp8_bounds(1)[OF assms(3)] assms(4) by simp
  have "mem_read (arena h') (gauge h + 8) (length header) = Some header"
    using heap_load_ok[of h' bs data "[]" 0 "length header"] A(3,4) hl g by simp
  moreover have "heap_GetSize (gauge h + 8) h' = Some (length data)" using heap_GetSize_ok[OF A(4)] g by simp
  ultimately show ?thesis using True A room g al RoundUp8_bounds[OF assms(3)] by (auto simp: mod_eq_0_iff_dvd)
next
  case False
  then show ?thesis using heap_Allocate_ok[OF assms] HasSpaceFor_iff[OF assms(1,3)] by simp
qed

theorem heap_allocates_witness:
  "\<exists>h' data. heap_Allocate 20 [1, 2, 3] demo_heap = Some (Some 8, h') \<and> heap_rep h' [(True, data)] \<and> mem_read (arena h') 8 3 = Some [1, 2, 3]"
proof -
  have "HasSpaceFor 20 demo_heap" by (simp add: HasSpaceFor_def RoundUp8_def demo_heap_def sizeof_Tag_def)
  with heap_allocates[OF demo_heap_rep, of 20 "[1, 2, 3]"] show ?thesis
    by (fastforce simp: numeral_3_eq_3)
qed

text \<open>
  C14.  \<open>Compact\<close> ends and squeezes out the free space: afterwards the heap consists of exactly the reserved blocks,
  in their order and with their bytes, the gauge is their total size with the tags, which is what
  \<open>compacted_bytes\<close> announces, and the owner, called back for each move, knows all blocks by
  their new addresses.
\<close>

theorem heap_compacts:
  assumes "block_owner owns cb" "heap_rep h bs" "owns s (layout 0 bs)"
  shows "\<exists>h' s'. Compact cb h s = Some (h', s') \<and> heap_rep h' (filter fst bs) \<and> owns s' (layout 0 (filter fst bs)) \<and>
    gauge h' = compacted_bytes h \<and> gauge h' \<le> gauge h"
proof -
  obtain h' s' where C: "Compact cb h s = Some (h', s')" "heap_rep h' (filter fst bs)" "owns s' (layout 0 (filter fst bs))"
    "heap_capacity h' = heap_capacity h" using block_owner.Compact_ok[OF assms] by blast
  have len: "length (encs (filter fst bs)) = stored h + num_blocks h * 8"
  proof -
    have "length (encs cs) = sum_list (map (length \<circ> snd) cs) + length cs * 8" for cs by (induction cs) auto
    then show ?thesis using assms(2) by (simp add: heap_rep_def)
  qed
  moreover have "length (encs (filter fst bs)) \<le> length (encs bs)" by (induction bs) auto
  moreover have "length (encs bs) < 2 ^ 62" using assms(2) by (auto simp: heap_rep_def)
  ultimately have "gauge h' = compacted_bytes h" "gauge h' \<le> gauge h"
    using C(2) assms(2) by (simp_all add: heap_rep_def compacted_bytes_def sizeof_Tag_def)
  then show ?thesis using C by blast
qed

theorem heap_compacts_witness:
  "\<exists>h0 h1 h2 h4 d. heap_Allocate 20 [1, 2, 3] demo_heap = Some (Some 8, h0) \<and> heap_Allocate 8 [7] h0 = Some (Some 40, h1) \<and>
    MarkFree 8 h1 = Some h2 \<and> Compact (\<lambda>_ _. Some) h2 () = Some (h4, ()) \<and> heap_rep h4 [(True, d)] \<and> gauge h4 = 16"
proof -
  have R: "RoundUp8 20 = 24" "RoundUp8 8 = 8" by (simp_all add: RoundUp8_def)
  obtain d0 h0 where h0: "heap_Allocate 20 [1, 2, 3] demo_heap = Some (Some 8, h0)" "length d0 = 24" "heap_rep h0 [(True, d0)]" "heap_capacity h0 = 2048"
    using heap_Allocate_ok[OF demo_heap_rep, of 20 "[1, 2, 3]"] R by (auto simp: demo_heap_def)
  have g: "gauge h0 = 32" using h0 by (simp add: heap_rep_def)
  obtain d1 h1 where h1: "heap_Allocate 8 [7] h0 = Some (Some 40, h1)" "length d1 = 8" "heap_rep h1 [(True, d0), (True, d1)]" "heap_capacity h1 = 2048"
    using heap_Allocate_ok[OF h0(3), of 8 "[7]"] R g h0(4) by auto
  obtain h2 where h2: "MarkFree 8 h1 = Some h2" "heap_rep h2 [(False, d0), (True, d1)]"
    using MarkFree_ok[of h1 "[]" d0 "[(True, d1)]"] h1(3) by auto
  have o: "block_owner (\<lambda>_ _. True) (\<lambda>_ _. Some :: unit \<Rightarrow> unit option)" by unfold_locales auto
  from heap_compacts[OF o h2(2), of "()"] obtain h4 where h4: "Compact (\<lambda>_ _. Some) h2 () = Some (h4, ())" "heap_rep h4 [(True, d1)]" by auto
  moreover have "gauge h4 = 16" using h4(2) h1(2) by (simp add: heap_rep_def)
  ultimately show ?thesis using h0(1) h1(1) h2(1) by blast
qed

end
