(* ===== verification/KvStore.thy ===== *)
theory KvStore
  imports LruCache MallocHeap Shash
begin

text \<open>
  The in-memory key-value store \<^verbatim>\<open>cvmfs/kvstore.cc\<close>, which composes the LRU cache, the compacting heap and
  the content hashes.  Addresses are offsets into the arena of the heap, or names of blocks of the C
  library's allocator; \<open>malloc\<close> itself is a field of the state that picks an unused address or fails.
  The read-write lock is held by scoped guards for the length of a public call and has no model.
\<close>

section \<open>The code\<close>

record alloc_header =
  version :: nat
  header_id :: digest

record memory_buffer =
  address :: "nat option"
  buf_size :: nat
  refcount :: nat
  object_flags :: int
  buf_id :: digest

definition MemoryBuffer_new :: memory_buffer where
  "MemoryBuffer_new = \<lparr>address = None, buf_size = 0, refcount = 0, object_flags = 0, buf_id = Any_new kAny kSuffixNone\<rparr>"

text \<open>
  The bytes of an \<open>AllocHeader\<close>: the version, the digest at offset 4 (its unused bytes are zero), the algorithm,
  the suffix, and padding to 32 bytes.
\<close>

definition sizeof_AllocHeader :: nat where
  "sizeof_AllocHeader = 32"

definition alg_of_index :: "nat \<Rightarrow> Algorithms" where
  "alg_of_index i = (if i = 0 then kMd5 else if i = 1 then kSha1 else if i = 2 then kRmd160 else if i = 3 then kShake128 else kAny)"

definition enc_header :: "alloc_header \<Rightarrow> nat list" where
  "enc_header a = [version a, 0, 0, 0] @ take 20 (bytes (header_id a) @ replicate 20 0) @
     le_bytes 4 (alg_index (algorithm (header_id a))) @ [of_char (suffix (header_id a)), 0, 0, 0]"

definition dec_header :: "nat list \<Rightarrow> alloc_header" where
  "dec_header bs = (let alg = alg_of_index (le_value (take 4 (drop 24 bs)))
     in \<lparr>version = bs ! 0, header_id = \<lparr>bytes = take (digest_size alg) (drop 4 bs), algorithm = alg, suffix = char_of (bs ! 28)\<rparr>\<rparr>)"

text \<open>Digests are compared without their suffix: this is the key under which a digest is found.\<close>

definition any_key :: "digest \<Rightarrow> digest" where
  "any_key d = d\<lparr>suffix := kSuffixNone\<rparr>"

definition hasher_any :: "digest \<Rightarrow> 32 word" where
  "hasher_any key = of_nat (le_value (take 4 (drop 4 (bytes key @ replicate 20 0))))"

datatype kv_allocator = kMallocLibc | kMallocHeap

record kv_counters =
  kc_sz_size :: int
  kc_n_getsize :: int
  kc_n_getrefcount :: int
  kc_n_incref :: int
  kc_n_unref :: int
  kc_n_read :: int
  kc_n_commit :: int
  kc_n_delete :: int
  kc_n_shrinkto :: int
  kc_sz_read :: int
  kc_sz_committed :: int
  kc_sz_deleted :: int
  kc_sz_shrunk :: int

type_synonym kv_entries = "(digest, memory_buffer) lru_cache"

record kv_store =
  allocator_kind :: kv_allocator
  used_bytes :: nat
  entry_count :: nat
  max_entries :: nat
  ents :: kv_entries
  kheap :: "malloc_heap option"
  libc :: "nat \<rightharpoonup> nat list"
  libc_malloc :: "nat \<Rightarrow> (nat \<rightharpoonup> nat list) \<Rightarrow> nat option"
  kcounters :: kv_counters

definition kCompactThreshold :: dbl where
  "kCompactThreshold = dbl_round 4 5"

definition dbl_less :: "dbl \<Rightarrow> dbl \<Rightarrow> bool" where
  "dbl_less x y = (fst x * snd y < fst y * snd x)"

definition kv_counters_new :: kv_counters where
  "kv_counters_new = \<lparr>kc_sz_size = 0, kc_n_getsize = 0, kc_n_getrefcount = 0, kc_n_incref = 0, kc_n_unref = 0, kc_n_read = 0,
     kc_n_commit = 0, kc_n_delete = 0, kc_n_shrinkto = 0, kc_sz_read = 0, kc_sz_committed = 0, kc_sz_deleted = 0, kc_sz_shrunk = 0\<rparr>"

text \<open>
  The constructor: \<open>sz_entry\<close>, \<open>tp\<close> and \<open>mem\<close> are the sizes and the initial memory of the LRU cache, \<open>fresh\<close> the
  mapped arena, \<open>mal\<close> the allocator of the C library.
\<close>

definition MemoryKvStore_new ::
  "nat \<Rightarrow> (digest, memory_buffer cache_entry) tparams \<Rightarrow> (nat \<Rightarrow> digest) \<Rightarrow> nat list \<Rightarrow>
   (nat \<Rightarrow> (nat \<rightharpoonup> nat list) \<Rightarrow> nat option) \<Rightarrow> nat \<Rightarrow> kv_allocator \<Rightarrow> nat \<Rightarrow> kv_store option" where
  "MemoryKvStore_new sz_entry tp mem fresh mal cache_entries alloc alloc_size = do {
     es \<leftarrow> LruCache_new sz_entry tp mem cache_entries (Any_new kAny kSuffixNone) hasher_any;
     h \<leftarrow> (case alloc of kMallocHeap \<Rightarrow> map_option Some (MallocHeap_new alloc_size fresh) | kMallocLibc \<Rightarrow> Some None);
     Some \<lparr>allocator_kind = alloc, used_bytes = 0, entry_count = 0, max_entries = cache_entries, ents = es, kheap = h,
           libc = Map.empty, libc_malloc = mal, kcounters = kv_counters_new\<rparr>
   }"

definition OnBlockMove :: "nat \<Rightarrow> nat list \<Rightarrow> kv_entries \<Rightarrow> kv_entries option" where
  "OnBlockMove ptr mem es = do {
     bs \<leftarrow> mem_read mem ptr sizeof_AllocHeader;
     let a = dec_header bs;
     assert_that (version a = 0);
     (found, es1) \<leftarrow> lru_Lookup (any_key (header_id a)) False es;
     (case found of None \<Rightarrow> None
      | Some buf \<Rightarrow> do {
          let buf1 = buf\<lparr>address := Some (ptr + sizeof_AllocHeader)\<rparr>;
          (ok, es2) \<leftarrow> lru_UpdateValue (any_key (buf_id buf1)) buf1 es1;
          assert_that ok;
          Some es2
        })
   }"

definition kv_Contains :: "digest \<Rightarrow> kv_store \<Rightarrow> (bool \<times> kv_store) option" where
  "kv_Contains oid st = do {
     (found, es) \<leftarrow> lru_Lookup (any_key oid) False (ents st);
     Some (found \<noteq> None, st\<lparr>ents := es\<rparr>)
   }"

text \<open>Memory of \<open>malloc\<close> is zero in the model; \<open>DoCommit\<close> fills it completely before anything reads it.\<close>

definition DoMalloc :: "memory_buffer \<Rightarrow> kv_store \<Rightarrow> (int \<times> memory_buffer \<times> kv_store) option" where
  "DoMalloc buf st = (let tmp = buf\<lparr>address := None\<rparr> in
     if buf_size tmp > 0 then (case allocator_kind st of
       kMallocLibc \<Rightarrow> (case libc_malloc st (buf_size tmp) (libc st) of
           None \<Rightarrow> Some (- ENOMEM, buf, st)
         | Some p \<Rightarrow> Some (0, tmp\<lparr>address := Some p\<rparr>, st\<lparr>libc := (libc st)(p \<mapsto> replicate (buf_size tmp) 0)\<rparr>))
     | kMallocHeap \<Rightarrow> (case kheap st of None \<Rightarrow> None
         | Some h \<Rightarrow> do {
             let a = \<lparr>version = 0, header_id = buf_id tmp\<rparr>;
             (p, h1) \<leftarrow> heap_Allocate (u64 (buf_size tmp + sizeof_AllocHeader)) (enc_header a) h;
             (case p of None \<Rightarrow> Some (- ENOMEM, buf, st\<lparr>kheap := Some h1\<rparr>)
              | Some q \<Rightarrow> Some (0, tmp\<lparr>address := Some (q + sizeof_AllocHeader)\<rparr>, st\<lparr>kheap := Some h1\<rparr>))
           }))
     else Some (0, tmp, st))"

definition DoFree :: "memory_buffer \<Rightarrow> kv_store \<Rightarrow> kv_store option" where
  "DoFree buf st = (case address buf of None \<Rightarrow> Some st
     | Some p \<Rightarrow> (case allocator_kind st of
         kMallocLibc \<Rightarrow> do { assert_that (libc st p \<noteq> None); Some (st\<lparr>libc := (libc st)(p := None)\<rparr>) }
       | kMallocHeap \<Rightarrow> (case kheap st of None \<Rightarrow> None
           | Some h \<Rightarrow> do {
               assert_that (sizeof_AllocHeader \<le> p);
               h1 \<leftarrow> MarkFree (p - sizeof_AllocHeader) h;
               Some (st\<lparr>kheap := Some h1\<rparr>)
             })))"

text \<open>A comparison with a quotient that is not a number is false.\<close>

definition CompactMemory :: "kv_store \<Rightarrow> (bool \<times> kv_store) option" where
  "CompactMemory st = (case allocator_kind st of
     kMallocHeap \<Rightarrow> (case kheap st of None \<Rightarrow> None
       | Some h \<Rightarrow> (case utilization h of
           Some u \<Rightarrow> if dbl_less u kCompactThreshold then do {
               (h1, es) \<leftarrow> Compact OnBlockMove h (ents st);
               Some (case utilization h1 of Some u1 \<Rightarrow> dbl_less u u1 | None \<Rightarrow> False, st\<lparr>kheap := Some h1, ents := es\<rparr>)
             } else Some (False, st)
         | None \<Rightarrow> Some (False, st)))
   | kMallocLibc \<Rightarrow> Some (False, st))"

definition kv_GetSize :: "digest \<Rightarrow> kv_store \<Rightarrow> (int \<times> kv_store) option" where
  "kv_GetSize oid st = do {
     let st = st\<lparr>kcounters := (kcounters st)\<lparr>kc_n_getsize := kc_n_getsize (kcounters st) + 1\<rparr>\<rparr>;
     (found, es) \<leftarrow> lru_Lookup (any_key oid) False (ents st);
     Some (case found of Some mem \<Rightarrow> int (buf_size mem) | None \<Rightarrow> - ENOENT, st\<lparr>ents := es\<rparr>)
   }"

definition kv_GetRefcount :: "digest \<Rightarrow> kv_store \<Rightarrow> (int \<times> kv_store) option" where
  "kv_GetRefcount oid st = do {
     let st = st\<lparr>kcounters := (kcounters st)\<lparr>kc_n_getrefcount := kc_n_getrefcount (kcounters st) + 1\<rparr>\<rparr>;
     (found, es) \<leftarrow> lru_Lookup (any_key oid) False (ents st);
     Some (case found of Some mem \<Rightarrow> int (refcount mem) | None \<Rightarrow> - ENOENT, st\<lparr>ents := es\<rparr>)
   }"

definition kv_IncRef :: "digest \<Rightarrow> kv_store \<Rightarrow> (bool \<times> kv_store) option" where
  "kv_IncRef oid st = do {
     let st = st\<lparr>kcounters := (kcounters st)\<lparr>kc_n_incref := kc_n_incref (kcounters st) + 1\<rparr>\<rparr>;
     (found, es) \<leftarrow> lru_Lookup (any_key oid) True (ents st);
     (case found of None \<Rightarrow> Some (False, st\<lparr>ents := es\<rparr>)
      | Some mem \<Rightarrow> do {
          assert_that (refcount mem < 4294967295);
          (_, es1) \<leftarrow> lru_Insert (any_key oid) (mem\<lparr>refcount := refcount mem + 1\<rparr>) es;
          Some (True, st\<lparr>ents := es1\<rparr>)
        })
   }"

definition kv_Unref :: "digest \<Rightarrow> kv_store \<Rightarrow> (bool \<times> kv_store) option" where
  "kv_Unref oid st = do {
     let st = st\<lparr>kcounters := (kcounters st)\<lparr>kc_n_unref := kc_n_unref (kcounters st) + 1\<rparr>\<rparr>;
     (found, es) \<leftarrow> lru_Lookup (any_key oid) True (ents st);
     (case found of None \<Rightarrow> Some (False, st\<lparr>ents := es\<rparr>)
      | Some mem \<Rightarrow> do {
          assert_that (refcount mem > 0);
          (_, es1) \<leftarrow> lru_Insert (any_key oid) (mem\<lparr>refcount := refcount mem - 1\<rparr>) es;
          Some (True, st\<lparr>ents := es1\<rparr>)
        })
   }"

text \<open>Copies from and to the memory of an entry; copying no bytes touches no memory.\<close>

definition kv_load :: "kv_store \<Rightarrow> nat option \<Rightarrow> nat \<Rightarrow> nat \<Rightarrow> nat list option" where
  "kv_load st addr off n = (if n = 0 then Some [] else case addr of None \<Rightarrow> None
     | Some p \<Rightarrow> (case allocator_kind st of
         kMallocLibc \<Rightarrow> Option.bind (libc st p) (\<lambda>block. mem_read block off n)
       | kMallocHeap \<Rightarrow> Option.bind (kheap st) (\<lambda>h. mem_read (arena h) (p + off) n)))"

definition kv_copy_in :: "nat option \<Rightarrow> nat list \<Rightarrow> kv_store \<Rightarrow> kv_store option" where
  "kv_copy_in addr src st = (if src = [] then Some st else case addr of None \<Rightarrow> None
     | Some p \<Rightarrow> (case allocator_kind st of
         kMallocLibc \<Rightarrow> do {
           block \<leftarrow> libc st p;
           block1 \<leftarrow> mem_write block 0 src;
           Some (st\<lparr>libc := (libc st)(p \<mapsto> block1)\<rparr>)
         }
       | kMallocHeap \<Rightarrow> do {
           h \<leftarrow> kheap st;
           mem \<leftarrow> mem_write (arena h) p src;
           Some (st\<lparr>kheap := Some (h\<lparr>arena := mem\<rparr>)\<rparr>)
         }))"

definition kv_Read :: "digest \<Rightarrow> nat \<Rightarrow> nat \<Rightarrow> kv_store \<Rightarrow> (int \<times> nat list \<times> kv_store) option" where
  "kv_Read oid sz offset st = do {
     let st = st\<lparr>kcounters := (kcounters st)\<lparr>kc_n_read := kc_n_read (kcounters st) + 1\<rparr>\<rparr>;
     (found, es) \<leftarrow> lru_Lookup (any_key oid) True (ents st);
     let st = st\<lparr>ents := es\<rparr>;
     (case found of None \<Rightarrow> Some (- ENOENT, [], st)
      | Some mem \<Rightarrow> if offset > buf_size mem then Some (0, [], st)
        else do {
          let copy_size = min (buf_size mem - offset) sz;
          xs \<leftarrow> kv_load st (address mem) offset copy_size;
          Some (int copy_size, xs, st\<lparr>kcounters := (kcounters st)\<lparr>kc_sz_read := kc_sz_read (kcounters st) + int copy_size\<rparr>\<rparr>)
        })
   }"

definition set_used :: "nat \<Rightarrow> kv_store \<Rightarrow> kv_store" where
  "set_used n st = st\<lparr>used_bytes := n, kcounters := (kcounters st)\<lparr>kc_sz_size := int n\<rparr>\<rparr>"

text \<open>
  \<open>DoCommit\<close>; \<open>src\<close> are the bytes at the address of the caller's buffer.  The part after the check for free entries is
  \<open>commit_new\<close>.
\<close>

definition commit_new :: "memory_buffer \<Rightarrow> nat list \<Rightarrow> kv_store \<Rightarrow> (int \<times> kv_store) option" where
  "commit_new mem src st = do {
     (rc, mem, st) \<leftarrow> DoMalloc mem st;
     if rc < 0 then Some (- EIO, st)
     else do {
       assert_that (u64 (9223372036854775807 + (2 ^ 64 - buf_size mem)) > used_bytes st);
       assert_that (buf_size mem \<le> length src);
       st \<leftarrow> kv_copy_in (address mem) (take (buf_size mem) src) st;
       (_, es) \<leftarrow> lru_Insert (any_key (buf_id mem)) mem (ents st);
       let st = set_used (u64 (used_bytes st + buf_size mem)) (st\<lparr>ents := es, entry_count := u32 (entry_count st + 1)\<rparr>);
       Some (0, st\<lparr>kcounters := (kcounters st)\<lparr>kc_sz_committed := kc_sz_committed (kcounters st) + int (buf_size mem)\<rparr>\<rparr>)
     }
   }"

definition DoCommit :: "memory_buffer \<Rightarrow> nat list \<Rightarrow> kv_store \<Rightarrow> (int \<times> kv_store) option" where
  "DoCommit buf src st0 = do {
     (_, st) \<leftarrow> CompactMemory st0;
     let st = st\<lparr>kcounters := (kcounters st)\<lparr>kc_n_commit := kc_n_commit (kcounters st) + 1\<rparr>\<rparr>;
     (found, es) \<leftarrow> lru_Lookup (any_key (buf_id buf)) True (ents st);
     let st = st\<lparr>ents := es\<rparr>;
     (mem, st) \<leftarrow> (case found of
        Some mem \<Rightarrow> do {
          st1 \<leftarrow> DoFree mem st;
          let st2 = set_used (u64 (used_bytes st1 + (2 ^ 64 - buf_size mem))) st1;
          Some (mem, st2\<lparr>entry_count := u32 (entry_count st2 + 4294967295)\<rparr>)
        }
      | None \<Rightarrow> Some (MemoryBuffer_new\<lparr>refcount := refcount buf\<rparr>, st));
     let mem = mem\<lparr>object_flags := object_flags buf, buf_id := buf_id buf, buf_size := buf_size buf\<rparr>;
     if entry_count st = max_entries st then Some (- ENFILE, st) else commit_new mem src st
   }"

definition kv_Commit :: "memory_buffer \<Rightarrow> nat list \<Rightarrow> kv_store \<Rightarrow> (int \<times> kv_store) option" where
  "kv_Commit buf src st = DoCommit buf src st"

definition DoDelete :: "digest \<Rightarrow> kv_store \<Rightarrow> (bool \<times> kv_store) option" where
  "DoDelete oid st = do {
     (found, es) \<leftarrow> lru_Lookup (any_key oid) True (ents st);
     let st = st\<lparr>ents := es\<rparr>;
     (case found of None \<Rightarrow> Some (False, st)
      | Some buf \<Rightarrow> if refcount buf > 0 then Some (False, st)
        else do {
          assert_that (entry_count st > 0);
          let st = set_used (u64 (used_bytes st + (2 ^ 64 - buf_size buf))) (st\<lparr>entry_count := entry_count st - 1\<rparr>);
          let st = st\<lparr>kcounters := (kcounters st)\<lparr>kc_sz_deleted := kc_sz_deleted (kcounters st) + int (buf_size buf)\<rparr>\<rparr>;
          st \<leftarrow> DoFree buf st;
          (_, es) \<leftarrow> lru_Forget (any_key oid) (ents st);
          Some (True, st\<lparr>ents := es\<rparr>)
        })
   }"

definition kv_Delete :: "digest \<Rightarrow> kv_store \<Rightarrow> (bool \<times> kv_store) option" where
  "kv_Delete oid st = DoDelete oid (st\<lparr>kcounters := (kcounters st)\<lparr>kc_n_delete := kc_n_delete (kcounters st) + 1\<rparr>\<rparr>)"

partial_function (option) shrink_loop :: "nat \<Rightarrow> kv_store \<Rightarrow> kv_store option" where
  "shrink_loop sz st =
     Option.bind (FilterNext (ents st)) (\<lambda>(more, es).
       let st = st\<lparr>ents := es\<rparr> in
       if \<not> more then Some st
       else if used_bytes st \<le> sz then Some st
       else Option.bind (FilterGet (ents st)) (\<lambda>(key, buf).
         if refcount buf > 0 then shrink_loop sz st
         else if entry_count st = 0 then None
         else Option.bind (FilterDelete (ents st)) (\<lambda>es.
           let st = st\<lparr>entry_count := entry_count st - 1, ents := es\<rparr>;
               n = u64 (used_bytes st + (2 ^ 64 - buf_size buf));
               st = set_used n (st\<lparr>kcounters := (kcounters st)\<lparr>kc_sz_shrunk := kc_sz_shrunk (kcounters st) + int (buf_size buf)\<rparr>\<rparr>)
           in Option.bind (DoFree buf st) (\<lambda>st. shrink_loop sz st))))"

definition ShrinkTo :: "nat \<Rightarrow> kv_store \<Rightarrow> (bool \<times> kv_store) option" where
  "ShrinkTo sz st = (let st = st\<lparr>kcounters := (kcounters st)\<lparr>kc_n_shrinkto := kc_n_shrinkto (kcounters st) + 1\<rparr>\<rparr> in
     if used_bytes st \<le> sz then Some (True, st)
     else do {
       es \<leftarrow> FilterBegin (ents st);
       st \<leftarrow> shrink_loop sz (st\<lparr>ents := es\<rparr>);
       es \<leftarrow> FilterEnd (ents st);
       let st = st\<lparr>ents := es\<rparr>;
       Some (used_bytes st \<le> sz, st)
     })"

definition GetUsed :: "kv_store \<Rightarrow> nat" where
  "GetUsed st = used_bytes st"

section \<open>The header of a block\<close>

lemma digest_size_le: "digest_size a \<le> 20"
  by (cases a) (simp_all add: kDigestSizes_def alg_index_def)

lemma alg_of_index: "alg_of_index (alg_index a) = a" "alg_index a < 256 ^ 4"
  by (cases a; simp add: alg_of_index_def alg_index_def)+

lemma enc_header_length [simp]: "length (enc_header a) = 32"
  by (simp add: enc_header_def)

lemma dec_enc_header:
  assumes "digest_ok (header_id a)"
  shows "dec_header (enc_header a @ rest) = a"
proof -
  obtain v d where a: "a = \<lparr>version = v, header_id = d\<rparr>" by (cases a)
  define bs where "bs = take 20 (bytes d @ replicate 20 0)"
  have len: "length bs = 20" by (simp add: bs_def)
  have bs: "take (digest_size (algorithm d)) bs = bytes d"
    using assms digest_size_le[of "algorithm d"] by (simp add: bs_def a digest_ok_def min_def)
  let ?al = "le_bytes 4 (alg_index (algorithm d))"
  have e: "enc_header a @ rest = [v, 0, 0, 0] @ bs @ ?al @ [of_char (suffix d), 0, 0, 0] @ rest"
    by (simp add: enc_header_def a bs_def)
  have "take 4 (drop 24 (enc_header a @ rest)) = ?al" "(enc_header a @ rest) ! 28 = of_char (suffix d)" "(enc_header a @ rest) ! 0 = v"
    unfolding e using len by (simp_all add: nth_append)
  moreover have "take (digest_size (algorithm d)) (drop 4 (enc_header a @ rest)) = bytes d"
    unfolding e using len bs digest_size_le[of "algorithm d"] by simp
  ultimately show ?thesis unfolding dec_header_def Let_def by (simp only: le_value_bytes alg_of_index) (simp add: a)
qed

section \<open>Memory\<close>

text \<open>
  The live memory, for both allocators: an address is mapped to the key of its owner and its bytes.
\<close>

type_synonym kv_memory = "nat \<rightharpoonup> digest \<times> nat list"

definition hdr_key :: "nat list \<Rightarrow> digest" where
  "hdr_key d = any_key (header_id (dec_header d))"

definition hdr_ok :: "nat list \<Rightarrow> bool" where
  "hdr_ok d \<longleftrightarrow> (\<exists>i rest. d = enc_header \<lparr>version = 0, header_id = i\<rparr> @ rest \<and> digest_ok i)"

definition payload :: "nat \<times> nat list \<Rightarrow> nat \<times> (digest \<times> nat list)" where
  "payload = (\<lambda>(a, d). (a + 32, (hdr_key d, drop 32 d)))"

definition hblocks :: "(nat \<times> nat list) list \<Rightarrow> kv_memory" where
  "hblocks L = map_of (map payload L)"

definition heap_mem :: "malloc_heap \<Rightarrow> kv_memory \<Rightarrow> bool" where
  "heap_mem h B \<longleftrightarrow> (\<exists>bs. heap_rep h bs \<and> B = hblocks (layout 0 bs) \<and> (\<forall>(a, d) \<in> set (layout 0 bs). hdr_ok d))"

definition libc_mem :: "(nat \<rightharpoonup> nat list) \<Rightarrow> kv_memory \<Rightarrow> bool" where
  "libc_mem m B \<longleftrightarrow> (\<forall>p. m p = map_option snd (B p))"

definition malloc_ok :: "(nat \<Rightarrow> (nat \<rightharpoonup> nat list) \<Rightarrow> nat option) \<Rightarrow> bool" where
  "malloc_ok mal \<longleftrightarrow> (\<forall>n m p. mal n m = Some p \<longrightarrow> m p = None)"

definition mem_rel :: "kv_store \<Rightarrow> kv_memory \<Rightarrow> bool" where
  "mem_rel st B \<longleftrightarrow> (case allocator_kind st of
     kMallocHeap \<Rightarrow> (\<exists>h. kheap st = Some h \<and> heap_mem h B)
   | kMallocLibc \<Rightarrow> libc_mem (libc st) B \<and> malloc_ok (libc_malloc st))"

definition mem_frame :: "kv_store \<Rightarrow> kv_store \<Rightarrow> bool" where
  "mem_frame st st' \<longleftrightarrow> (\<exists>h m. st' = st\<lparr>kheap := h, libc := m\<rparr>)"

lemma mem_frameD:
  assumes "mem_frame st st'"
  shows "allocator_kind st' = allocator_kind st" "used_bytes st' = used_bytes st" "entry_count st' = entry_count st"
    "max_entries st' = max_entries st" "ents st' = ents st" "libc_malloc st' = libc_malloc st" "kcounters st' = kcounters st"
  using assms by (auto simp: mem_frame_def)

lemma mem_rel_cong:
  assumes "mem_rel st B" "allocator_kind st' = allocator_kind st" "kheap st' = kheap st" "libc st' = libc st" "libc_malloc st' = libc_malloc st"
  shows "mem_rel st' B"
  using assms by (cases "allocator_kind st") (auto simp: mem_rel_def)

lemma mem_rel_simps [simp]:
  "mem_rel (st\<lparr>kcounters := c\<rparr>) = mem_rel st" "mem_rel (st\<lparr>ents := s\<rparr>) = mem_rel st"
  "mem_rel (st\<lparr>used_bytes := n\<rparr>) = mem_rel st" "mem_rel (st\<lparr>entry_count := m\<rparr>) = mem_rel st"
  by (auto simp: mem_rel_def fun_eq_iff split: kv_allocator.splits)

text \<open>Reserved blocks have distinct addresses; a block is found in the heap by its address.\<close>

lemma layout_ge: "(p, d) \<in> set (layout a bs) \<Longrightarrow> a + 8 \<le> p \<and> p \<le> a + length (encs bs)"
  by (induction bs arbitrary: a) (fastforce split: if_splits)+

lemma layout_distinct: "distinct (map fst (layout a bs))"
proof (induction bs arbitrary: a)
  case (Cons b bs)
  have "(a + 8, d) \<notin> set (layout (a + length (enc b)) bs)" for d using layout_ge[of "a + 8" d "a + length (enc b)" bs] by auto
  then show ?case using Cons by force
qed simp

lemma layout_split:
  "(p, d) \<in> set (layout a bs) \<Longrightarrow> \<exists>us vs. bs = us @ (True, d) # vs \<and> p = a + length (encs us) + 8"
proof (induction bs arbitrary: a)
  case (Cons b bs)
  show ?case
  proof (cases "(p, d) \<in> set (layout (a + length (enc b)) bs)")
    case True
    from Cons.IH[OF this] obtain us vs where "bs = us @ (True, d) # vs" "p = a + length (enc b) + length (encs us) + 8" by auto
    then show ?thesis by (intro exI[of _ "b # us"] exI[of _ vs]) simp
  next
    case False
    then have "b = (True, d)" "p = a + 8" using Cons.prems by (cases b; auto split: if_splits)+
    then show ?thesis by (intro exI[of _ "[]"] exI[of _ bs]) simp
  qed
qed simp

lemma hblocks_distinct: "distinct (map fst L) \<Longrightarrow> distinct (map fst (map payload L))"
  by (induction L) (force simp: payload_def)+

lemma hblocks_mid:
  assumes "distinct (map fst (A @ (p, d) # C))"
  shows "hblocks (A @ (p, d') # C) = (hblocks (A @ (p, d) # C))(p + 32 \<mapsto> (hdr_key d', drop 32 d'))"
    "hblocks (A @ C) = (hblocks (A @ (p, d) # C))(p + 32 := None)"
proof -
  have n: "map_of (map payload A) (p + 32) = None" "map_of (map payload C) (p + 32) = None"
    using assms by (force simp: map_of_eq_None_iff payload_def)+
  show "hblocks (A @ (p, d') # C) = (hblocks (A @ (p, d) # C))(p + 32 \<mapsto> (hdr_key d', drop 32 d'))"
    "hblocks (A @ C) = (hblocks (A @ (p, d) # C))(p + 32 := None)"
    using n by (auto simp: hblocks_def payload_def fun_eq_iff map_add_def split: option.splits)
qed

lemma hblocks_Some:
  assumes "hblocks L q = Some (k, xs)"
  obtains p d where "(p, d) \<in> set L" "q = p + 32" "k = hdr_key d" "xs = drop 32 d"
proof -
  have "(q, (k, xs)) \<in> set (map payload L)" using assms map_of_SomeD unfolding hblocks_def by metis
  then show thesis using that by (auto simp: payload_def)
qed

lemma hblocks_in:
  assumes "(p, d) \<in> set L" "distinct (map fst L)"
  shows "hblocks L (p + 32) = Some (hdr_key d, drop 32 d)"
proof -
  have "(p + 32, (hdr_key d, drop 32 d)) \<in> set (map payload L)" using assms(1) by (force simp: payload_def)
  then show ?thesis unfolding hblocks_def using map_of_is_SomeI[OF hblocks_distinct[OF assms(2)]] by metis
qed

lemma hdr_okD:
  assumes "hdr_ok d"
  obtains i rest where "d = enc_header \<lparr>version = 0, header_id = i\<rparr> @ rest" "digest_ok i" "hdr_key d = any_key i" "drop 32 d = rest"
  using assms by (auto simp: hdr_ok_def hdr_key_def dec_enc_header)

text \<open>The laws of the memory operations.\<close>

lemma heap_mem_block:
  assumes "heap_mem h B" "B q = Some (k, xs)"
  obtains us d vs where "heap_rep h (us @ (True, d) # vs)" "q = length (encs us) + 40" "hdr_ok d" "k = hdr_key d" "xs = drop 32 d"
    "\<And>h' d'. hdr_ok d' \<Longrightarrow> length d' = length d \<Longrightarrow> heap_rep h' (us @ (True, d') # vs) \<Longrightarrow> heap_mem h' (B(q \<mapsto> (hdr_key d', drop 32 d')))"
    "\<And>h'. heap_rep h' (us @ (False, d) # vs) \<Longrightarrow> heap_mem h' (B(q := None))"
proof -
  obtain bs where bs: "heap_rep h bs" "B = hblocks (layout 0 bs)" "\<forall>(a, d) \<in> set (layout 0 bs). hdr_ok d"
    using assms(1) by (auto simp: heap_mem_def)
  obtain p d where pd: "(p, d) \<in> set (layout 0 bs)" "q = p + 32" "k = hdr_key d" "xs = drop 32 d"
    using assms(2) bs(2) hblocks_Some by metis
  obtain us vs where us: "bs = us @ (True, d) # vs" "p = length (encs us) + 8" using layout_split[OF pd(1)] by auto
  let ?A = "layout 0 us" let ?C = "layout (length (encs us) + (8 + length d)) vs"
  have L: "layout 0 bs = ?A @ (p, d) # ?C" by (simp add: us layout_append)
  have dist: "distinct (map fst (?A @ (p, d) # ?C))" using layout_distinct[of 0 bs] L by simp
  show thesis
  proof
    show "heap_rep h (us @ (True, d) # vs)" "q = length (encs us) + 40" "hdr_ok d" "k = hdr_key d" "xs = drop 32 d"
      using bs pd us by auto
  next
    fix h' d' assume d': "hdr_ok d'" "length d' = length d" "heap_rep h' (us @ (True, d') # vs)"
    then have "layout 0 (us @ (True, d') # vs) = ?A @ (p, d') # ?C" by (simp add: us(2) layout_append)
    then show "heap_mem h' (B(q \<mapsto> (hdr_key d', drop 32 d')))"
      using d' bs(2,3) L hblocks_mid(1)[OF dist, of d'] pd(2) by (auto simp: heap_mem_def intro!: exI[of _ "us @ (True, d') # vs"])
  next
    fix h' assume "heap_rep h' (us @ (False, d) # vs)"
    moreover have "layout 0 (us @ (False, d) # vs) = ?A @ ?C" by (simp add: layout_append)
    ultimately show "heap_mem h' (B(q := None))"
      using bs(2,3) L hblocks_mid(2)[OF dist] pd(2) by (auto simp: heap_mem_def intro!: exI[of _ "us @ (False, d) # vs"])
  qed
qed

lemma DoFree_ok:
  assumes rel: "mem_rel st B" and p: "address buf = Some p" "B p = Some (k, xs)"
  shows "\<exists>st'. DoFree buf st = Some st' \<and> mem_rel st' (B(p := None)) \<and> mem_frame st st'"
proof (cases "allocator_kind st")
  case kMallocLibc
  then have m: "libc_mem (libc st) B" "malloc_ok (libc_malloc st)" using rel by (simp_all add: mem_rel_def)
  have "libc st p \<noteq> None" using m(1) p(2) by (simp add: libc_mem_def)
  moreover have "libc_mem ((libc st)(p := None)) (B(p := None))" using m(1) by (simp add: libc_mem_def)
  ultimately show ?thesis using kMallocLibc p(1) m(2)
    by (auto simp: DoFree_def mem_rel_def mem_frame_def intro!: exI[of _ "kheap st"])
next
  case kMallocHeap
  then obtain h where h: "kheap st = Some h" "heap_mem h B" using rel by (auto simp: mem_rel_def)
  obtain us d vs where D: "heap_rep h (us @ (True, d) # vs)" "p = length (encs us) + 40"
    "\<And>h'. heap_rep h' (us @ (False, d) # vs) \<Longrightarrow> heap_mem h' (B(p := None))"
    using heap_mem_block[OF h(2) p(2)] by metis
  obtain h' where h': "MarkFree (p - 32) h = Some h'" "heap_rep h' (us @ (False, d) # vs)"
    using MarkFree_ok[OF D(1)] D(2) by (auto simp: add_ac)
  moreover have "32 \<le> p" using D(2) by simp
  ultimately show ?thesis using kMallocHeap h(1) p(1) D(3)
    by (auto simp: DoFree_def mem_rel_def mem_frame_def sizeof_AllocHeader_def intro!: exI[of _ "libc st"])
qed

lemma kv_load_ok:
  assumes rel: "mem_rel st B" and p: "B p = Some (k, xs)" and fit: "off + n \<le> length xs"
  shows "kv_load st (Some p) off n = Some (take n (drop off xs))"
proof (cases "allocator_kind st")
  case kMallocLibc
  then have "libc st p = Some xs" using rel p by (simp add: mem_rel_def libc_mem_def)
  then show ?thesis using kMallocLibc fit by (simp add: kv_load_def mem_read_def)
next
  case kMallocHeap
  then obtain h where h: "kheap st = Some h" "heap_mem h B" using rel by (auto simp: mem_rel_def)
  obtain us d vs where D: "heap_rep h (us @ (True, d) # vs)" "p = length (encs us) + 40" "hdr_ok d" "xs = drop 32 d"
    using heap_mem_block[OF h(2) p] by metis
  have "32 \<le> length d" using D(3) by (auto simp: hdr_ok_def)
  then have "mem_read (arena h) (p + off) n = Some (take n (drop off xs))"
    using heap_load_ok[OF D(1), of "32 + off" n] fit D(2,4) by (simp add: add_ac)
  then show ?thesis using kMallocHeap h(1) by (simp add: kv_load_def)
qed

lemma kv_copy_in_ok:
  assumes rel: "mem_rel st B" and p: "B p = Some (k, xs)" and fit: "length src \<le> length xs"
  shows "\<exists>st'. kv_copy_in (Some p) src st = Some st' \<and> mem_rel st' (B(p \<mapsto> (k, src @ drop (length src) xs))) \<and> mem_frame st st'"
proof (cases "src = []")
  case True
  then have "B(p \<mapsto> (k, src @ drop (length src) xs)) = B" using p by auto
  then show ?thesis using True rel by (auto simp: kv_copy_in_def mem_frame_def intro!: exI[of _ "kheap st"] exI[of _ "libc st"])
next
  case ne: False
  show ?thesis
  proof (cases "allocator_kind st")
    case kMallocLibc
    then have m: "libc_mem (libc st) B" "malloc_ok (libc_malloc st)" using rel by (simp_all add: mem_rel_def)
    have "libc st p = Some xs" using m(1) p by (simp add: libc_mem_def)
    moreover have "mem_write xs 0 src = Some (src @ drop (length src) xs)" using fit by (simp add: mem_write_def)
    moreover have "libc_mem ((libc st)(p \<mapsto> src @ drop (length src) xs)) (B(p \<mapsto> (k, src @ drop (length src) xs)))"
      using m(1) by (simp add: libc_mem_def)
    ultimately show ?thesis using kMallocLibc ne m(2)
      by (auto simp: kv_copy_in_def mem_rel_def mem_frame_def intro!: exI[of _ "kheap st"])
  next
    case kMallocHeap
    then obtain h where h: "kheap st = Some h" "heap_mem h B" using rel by (auto simp: mem_rel_def)
    obtain us d vs where D: "heap_rep h (us @ (True, d) # vs)" "p = length (encs us) + 40" "hdr_ok d" "k = hdr_key d" "xs = drop 32 d"
      "\<And>h' d'. hdr_ok d' \<Longrightarrow> length d' = length d \<Longrightarrow> heap_rep h' (us @ (True, d') # vs) \<Longrightarrow> heap_mem h' (B(p \<mapsto> (hdr_key d', drop 32 d')))"
      using heap_mem_block[OF h(2) p] by metis
    obtain i rest where i: "d = enc_header \<lparr>version = 0, header_id = i\<rparr> @ rest" "digest_ok i" "hdr_key d = any_key i" "drop 32 d = rest"
      using hdr_okD[OF D(3)] .
    have rest: "rest = xs" using i(4) D(5) by simp
    define d' where "d' = enc_header \<lparr>version = 0, header_id = i\<rparr> @ src @ drop (length src) xs"
    have d': "hdr_ok d'" "hdr_key d' = k" "drop 32 d' = src @ drop (length src) xs" "length d' = length d"
      using i D(4) fit rest by (auto simp: d'_def hdr_ok_def hdr_key_def dec_enc_header)
    have "32 + length src \<le> length d" using i(1) rest fit by simp
    from heap_store_ok[OF D(1) this] obtain mem where mem: "mem_write (arena h) p src = Some mem"
      "heap_rep (h\<lparr>arena := mem\<rparr>) (us @ (True, take 32 d @ src @ drop (32 + length src) d) # vs)"
      using D(2) by (auto simp: add_ac)
    have "take 32 d @ src @ drop (32 + length src) d = d'" using i(1) rest by (simp add: d'_def)
    then have "heap_mem (h\<lparr>arena := mem\<rparr>) (B(p \<mapsto> (k, src @ drop (length src) xs)))" using D(6)[OF d'(1,4)] mem(2) d'(2,3) by simp
    then show ?thesis using kMallocHeap ne h(1) mem(1)
      by (auto simp: kv_copy_in_def mem_rel_def mem_frame_def intro!: exI[of _ "libc st"])
  qed
qed

lemma DoMalloc_ok:
  assumes rel: "mem_rel st B" and n: "0 < buf_size buf" "buf_size buf < 2 ^ 61" and i: "digest_ok (buf_id buf)"
  shows "DoMalloc buf st = Some (- ENOMEM, buf, st) \<or>
    (\<exists>p xs st'. DoMalloc buf st = Some (0, buf\<lparr>address := Some p\<rparr>, st') \<and> B p = None \<and> buf_size buf \<le> length xs \<and>
       mem_rel st' (B(p \<mapsto> (any_key (buf_id buf), xs))) \<and> mem_frame st st')"
proof (cases "allocator_kind st")
  case kMallocLibc
  then have m: "libc_mem (libc st) B" "malloc_ok (libc_malloc st)" using rel by (simp_all add: mem_rel_def)
  show ?thesis
  proof (cases "libc_malloc st (buf_size buf) (libc st)")
    case None
    then show ?thesis using kMallocLibc n by (simp add: DoMalloc_def)
  next
    case (Some p)
    let ?xs = "replicate (buf_size buf) (0 :: nat)" let ?st = "st\<lparr>libc := (libc st)(p \<mapsto> ?xs)\<rparr>"
    have "libc st p = None" using m(2) Some by (auto simp: malloc_ok_def)
    then have "B p = None" using m(1) by (simp add: libc_mem_def)
    moreover have "mem_rel ?st (B(p \<mapsto> (any_key (buf_id buf), ?xs)))" using m kMallocLibc by (simp add: mem_rel_def libc_mem_def)
    moreover have "mem_frame st ?st" by (auto simp: mem_frame_def intro!: exI[of _ "kheap st"])
    moreover have "DoMalloc buf st = Some (0, buf\<lparr>address := Some p\<rparr>, ?st)" using kMallocLibc n Some by (simp add: DoMalloc_def)
    ultimately show ?thesis by (intro disjI2 exI[of _ p] exI[of _ ?xs] exI[of _ ?st]) simp
  qed
next
  case kMallocHeap
  then obtain h bs where h: "kheap st = Some h" "heap_rep h bs" "B = hblocks (layout 0 bs)" "\<forall>(a, d) \<in> set (layout 0 bs). hdr_ok d"
    using rel by (auto simp: mem_rel_def heap_mem_def)
  let ?hd = "enc_header \<lparr>version = 0, header_id = buf_id buf\<rparr>" let ?n = "buf_size buf + 32"
  have u: "u64 (buf_size buf + sizeof_AllocHeader) = ?n" using n(2) by (simp add: sizeof_AllocHeader_def)
  show ?thesis
  proof (cases "gauge h + RoundUp8 ?n + 8 \<le> heap_capacity h")
    case False
    then have "heap_Allocate ?n ?hd h = Some (None, h)" using heap_Allocate_ok[OF h(2), of ?n ?hd] n(2) by simp
    then show ?thesis using kMallocHeap h(1) n(1) u by (simp add: DoMalloc_def)
  next
    case True
    then obtain data h' where A: "heap_Allocate ?n ?hd h = Some (Some (gauge h + 8), h')" "length data = RoundUp8 ?n"
      "take 32 data = ?hd" "heap_rep h' (bs @ [(True, data)])" using heap_Allocate_ok[OF h(2), of ?n ?hd] n(2) by auto
    have g: "gauge h = length (encs bs)" using h(2) by (simp add: heap_rep_def)
    define p where "p = length (encs bs) + 8 + 32"
    have data: "data = ?hd @ drop 32 data" using A(3) by (metis append_take_drop_id)
    have ok: "hdr_ok data" using data i unfolding hdr_ok_def by blast
    have key: "hdr_key data = any_key (buf_id buf)"
      using dec_enc_header[of "\<lparr>version = 0, header_id = buf_id buf\<rparr>" "drop 32 data"] data i by (simp add: hdr_key_def)
    have L: "layout 0 (bs @ [(True, data)]) = layout 0 bs @ [(length (encs bs) + 8, data)]" by (simp add: layout_append)
    then have dist: "distinct (map fst (layout 0 bs @ (length (encs bs) + 8, data) # []))" using layout_distinct[of 0 "bs @ [(True, data)]"] by simp
    have none: "B p = None"
      using h(3) hblocks_mid(2)[OF dist] by (simp add: p_def)
    have B': "hblocks (layout 0 (bs @ [(True, data)])) = B(p \<mapsto> (any_key (buf_id buf), drop 32 data))"
      using hblocks_mid(1)[OF dist, of data] hblocks_mid(2)[OF dist] h(3) key L by (simp add: p_def)
    let ?st = "st\<lparr>kheap := Some h'\<rparr>"
    have "heap_mem h' (B(p \<mapsto> (any_key (buf_id buf), drop 32 data)))"
      using A(4) B' h(4) ok L by (auto simp: heap_mem_def intro!: exI[of _ "bs @ [(True, data)]"])
    then have "mem_rel ?st (B(p \<mapsto> (any_key (buf_id buf), drop 32 data)))" using kMallocHeap by (simp add: mem_rel_def)
    moreover have "buf_size buf \<le> length (drop 32 data)" using A(2) RoundUp8_bounds(1)[of ?n] n(2) by simp
    moreover have "mem_frame st ?st" by (auto simp: mem_frame_def intro!: exI[of _ "libc st"])
    moreover have "DoMalloc buf st = Some (0, buf\<lparr>address := Some p\<rparr>, ?st)"
      using kMallocHeap h(1) n(1) u A(1) g by (simp add: DoMalloc_def p_def sizeof_AllocHeader_def)
    ultimately show ?thesis using none by (intro disjI2 exI[of _ p] exI[of _ "drop 32 data"] exI[of _ ?st]) simp
  qed
qed

section \<open>The entries and their memory\<close>

text \<open>
  \<open>objs_rel es B\<close>: every entry is filed under the key of its id and owns the block at its address, large enough for
  its size, and every block has an owner.
\<close>

definition entry_meta :: "digest \<times> memory_buffer \<Rightarrow> bool" where
  "entry_meta e \<longleftrightarrow> digest_ok (buf_id (snd e)) \<and> any_key (buf_id (snd e)) = fst e \<and> buf_size (snd e) < 2 ^ 61"

definition entry_ok :: "kv_memory \<Rightarrow> digest \<times> memory_buffer \<Rightarrow> bool" where
  "entry_ok B e \<longleftrightarrow> entry_meta e \<and>
     (if buf_size (snd e) = 0 then address (snd e) = None
      else \<exists>p xs. address (snd e) = Some p \<and> B p = Some (fst e, xs) \<and> buf_size (snd e) \<le> length xs)"

definition objs_rel :: "(digest \<times> memory_buffer) list \<Rightarrow> kv_memory \<Rightarrow> bool" where
  "objs_rel es B \<longleftrightarrow> distinct (map fst es) \<and> (\<forall>e \<in> set es. entry_ok B e) \<and>
     (\<forall>p k xs. B p = Some (k, xs) \<longrightarrow> (\<exists>b. (k, b) \<in> set es \<and> address b = Some p))"

definition obj_data :: "kv_memory \<Rightarrow> memory_buffer \<Rightarrow> nat list" where
  "obj_data B b = (case address b of None \<Rightarrow> [] | Some p \<Rightarrow> take (buf_size b) (case B p of Some (k, xs) \<Rightarrow> xs | None \<Rightarrow> []))"

text \<open>An object of the store: its bytes, reference count and flags.\<close>

record kv_object =
  obj_bytes :: "nat list"
  obj_refcount :: nat
  obj_flags :: int

definition kv_obj :: "kv_memory \<Rightarrow> digest \<times> memory_buffer \<Rightarrow> digest \<times> kv_object" where
  "kv_obj B e = (fst e, \<lparr>obj_bytes = obj_data B (snd e), obj_refcount = refcount (snd e), obj_flags = object_flags (snd e)\<rparr>)"

lemma obj_data_length: "entry_ok B (k, b) \<Longrightarrow> length (obj_data B b) = buf_size b"
  by (auto simp: entry_ok_def obj_data_def split: if_splits)

lemma kv_obj_fst [simp]: "fst (kv_obj B e) = fst e"
  by (simp add: kv_obj_def)

lemma map_kv_obj_keys [simp]: "map fst (map (kv_obj B) es) = map fst es"
  by simp

section \<open>Compaction moves the addresses\<close>

definition strip :: "digest \<times> memory_buffer \<Rightarrow> digest \<times> memory_buffer" where
  "strip e = (fst e, (snd e)\<lparr>address := None\<rparr>)"

definition owns_core :: "(digest \<times> memory_buffer) list \<Rightarrow> (nat \<times> nat list) list \<Rightarrow> bool" where
  "owns_core es L \<longleftrightarrow> distinct (map (hdr_key \<circ> snd) L) \<and>
     (\<forall>p d. (p, d) \<in> set L \<longrightarrow> hdr_ok d \<and> (\<exists>b. (hdr_key d, b) \<in> set es \<and> address b = Some (p + 32))) \<and>
     (\<forall>k b. (k, b) \<in> set es \<longrightarrow> entry_meta (k, b) \<and> (if buf_size b = 0 then address b = None
        else \<exists>p d. (p, d) \<in> set L \<and> hdr_key d = k \<and> buf_size b \<le> length (drop 32 d)))"

definition kv_owns :: "(digest \<times> memory_buffer) list \<Rightarrow> kv_entries \<Rightarrow> kv_entries \<Rightarrow> (nat \<times> nat list) list \<Rightarrow> bool" where
  "kv_owns E s0 s L \<longleftrightarrow> (\<exists>es. lru_open s es None \<and> map strip es = E \<and> lru_frame s0 s \<and>
     (\<forall>k \<in> fst ` set es. k \<noteq> empty_key (cache s0)) \<and> owns_core es L)"

lemma al_set_in:
  "distinct (map fst es) \<Longrightarrow> (k, b) \<in> set es \<Longrightarrow>
   (k', b') \<in> set (al_set k w es) \<longleftrightarrow> (if k' = k then b' = w else (k', b') \<in> set es)"
  by (auto simp: al_set_def image_iff)

lemma strip_al_set: "(k, b) \<in> set es \<Longrightarrow> distinct (map fst es) \<Longrightarrow> map strip (al_set k (b\<lparr>address := x\<rparr>) es) = map strip es"
  by (auto simp: al_set_def strip_def dest: eq_key_imp_eq_value)

lemma al_set_map_fst: "map fst (al_set k w es) = map fst es"
  by (induction es) (auto simp: al_set_def)

lemma al_set_keys [simp]: "fst ` set (al_set k w es) = fst ` set es"
  by (metis al_set_map_fst list.set_map)

lemma owns_coreD:
  assumes "owns_core es L"
  shows "distinct (map (hdr_key \<circ> snd) L)" "(p, d) \<in> set L \<Longrightarrow> hdr_ok d"
    "(p, d) \<in> set L \<Longrightarrow> \<exists>b. (hdr_key d, b) \<in> set es \<and> address b = Some (p + 32)"
    "(k, b) \<in> set es \<Longrightarrow> entry_meta (k, b)" "(k, b) \<in> set es \<Longrightarrow> buf_size b = 0 \<Longrightarrow> address b = None"
    "(k, b) \<in> set es \<Longrightarrow> buf_size b \<noteq> 0 \<Longrightarrow> \<exists>p d. (p, d) \<in> set L \<and> hdr_key d = k \<and> buf_size b \<le> length (drop 32 d)"
  using assms unfolding owns_core_def by (meson, meson, meson, meson, presburger, presburger)

lemma owns_coreI:
  assumes "distinct (map (hdr_key \<circ> snd) L)" "\<And>p d. (p, d) \<in> set L \<Longrightarrow> hdr_ok d"
    "\<And>p d. (p, d) \<in> set L \<Longrightarrow> \<exists>b. (hdr_key d, b) \<in> set es \<and> address b = Some (p + 32)"
    "\<And>k b. (k, b) \<in> set es \<Longrightarrow> entry_meta (k, b)" "\<And>k b. (k, b) \<in> set es \<Longrightarrow> buf_size b = 0 \<Longrightarrow> address b = None"
    "\<And>k b. (k, b) \<in> set es \<Longrightarrow> buf_size b \<noteq> 0 \<Longrightarrow> \<exists>p d. (p, d) \<in> set L \<and> hdr_key d = k \<and> buf_size b \<le> length (drop 32 d)"
  shows "owns_core es L"
  unfolding owns_core_def using assms by presburger

lemma owns_core_moved:
  assumes core: "owns_core es (us @ (a, d) # vs)" and dist: "distinct (map fst es)" and b: "(hdr_key d, b) \<in> set es"
  shows "owns_core (al_set (hdr_key d) (b\<lparr>address := Some (a' + 32)\<rparr>) es) (us @ (a', d) # vs)"
proof -
  let ?L = "us @ (a, d) # vs" let ?L' = "us @ (a', d) # vs" let ?b = "b\<lparr>address := Some (a' + 32)\<rparr>" let ?es = "al_set (hdr_key d) ?b es"
  note IN = al_set_in[OF dist b, of _ _ ?b]
  note C = owns_coreD[OF core]
  have "(a, d) \<in> set ?L" by simp
  from C(3)[OF this] have "address b \<noteq> None" using eq_key_imp_eq_value[OF dist b] by auto
  then have bs: "buf_size b \<noteq> 0" using C(5)[OF b] by metis
  have other: "hdr_key d' \<noteq> hdr_key d" "(p, d') \<in> set ?L" if "(p, d') \<in> set us \<union> set vs" for p d' using C(1) that by force+
  have moved: "(p, d') \<in> set us \<union> set vs \<or> p = a' \<and> d' = d" if "(p, d') \<in> set ?L'" for p d' using that by auto
  have old: "\<exists>p' x'. (p', x') \<in> set ?L' \<and> hdr_key x' = k \<and> n \<le> length (drop 32 x')"
    if ex: "\<exists>p x. (p, x) \<in> set ?L \<and> hdr_key x = k \<and> n \<le> length (drop 32 x)" for k n
  proof -
    obtain p x where x: "(p, x) \<in> set ?L" "hdr_key x = k" "n \<le> length (drop 32 x)" using ex by blast
    then have "(p, x) \<in> set ?L' \<or> (a', x) \<in> set ?L'" by auto
    then show ?thesis using x(2,3) by blast
  qed
  have same: "c = ?b" if "(hdr_key d, c) \<in> set ?es" for c using that IN by simp
  have in_es: "(k, c) \<in> set es" if "(k, c) \<in> set ?es" "k \<noteq> hdr_key d" for k c using that IN by simp
  show ?thesis
  proof (rule owns_coreI)
    show "distinct (map (hdr_key \<circ> snd) ?L')" using C(1) by simp
    show "hdr_ok d'" if "(p, d') \<in> set ?L'" for p d' using moved[OF that] other(2) C(2) \<open>(a, d) \<in> set ?L\<close> by blast
    show "\<exists>c. (hdr_key d', c) \<in> set ?es \<and> address c = Some (p + 32)" if "(p, d') \<in> set ?L'" for p d'
      using moved[OF that]
    proof
      assume x: "(p, d') \<in> set us \<union> set vs"
      then show ?thesis using C(3)[OF other(2)[OF x]] other(1)[OF x] IN by auto
    qed (use IN[of "hdr_key d" ?b] in auto)
    show "entry_meta (k, c)" if "(k, c) \<in> set ?es" for k c
      using same[of c] in_es[OF that] C(4) C(4)[OF b] that by (cases "k = hdr_key d") (auto simp: entry_meta_def)
    show "address c = None" if "(k, c) \<in> set ?es" "buf_size c = 0" for k c
      using same[of c] in_es[OF that(1)] C(5) that bs by (cases "k = hdr_key d") auto
    show "\<exists>p x. (p, x) \<in> set ?L' \<and> hdr_key x = k \<and> buf_size c \<le> length (drop 32 x)" if "(k, c) \<in> set ?es" "buf_size c \<noteq> 0" for k c
      using same[of c] in_es[OF that(1)] that bs old[OF C(6)[OF b bs]] old[OF C(6)] by (cases "k = hdr_key d") auto
  qed
qed

lemma kv_owner_moves:
  assumes own: "kv_owns E s0 s (us @ (a, d) # vs)" and mem: "mem_read mem a' (length d) = Some d"
  shows "\<exists>s'. OnBlockMove a' mem s = Some s' \<and> kv_owns E s0 s' (us @ (a', d) # vs)"
proof -
  obtain es where O: "lru_open s es None" "map strip es = E" "lru_frame s0 s" "\<forall>k \<in> fst ` set es. k \<noteq> empty_key (cache s0)"
    "owns_core es (us @ (a, d) # vs)"
    using own unfolding kv_owns_def by blast
  have dist: "distinct (map fst es)" using O(1) lru_rel_bound by (auto simp: lru_open_def)
  have hd: "hdr_ok d" "\<exists>b. (hdr_key d, b) \<in> set es" using owns_coreD(2,3)[OF O(5), of a d] by auto
  obtain i rest where i: "d = enc_header \<lparr>version = 0, header_id = i\<rparr> @ rest" "digest_ok i" "hdr_key d = any_key i"
    using hdr_okD[OF hd(1)] .
  define k where "k = hdr_key d"
  obtain b where b: "(k, b) \<in> set es" using hd(2) by (auto simp: k_def)
  have ke: "k \<noteq> empty_key (cache s)" using O(3,4) b by (force simp: lru_frame_def)
  have look: "map_of es k = Some b" using dist b by simp
  obtain s1 where s1: "lru_Lookup k False s = Some (Some b, s1)" "lru_open s1 es None" "lru_frame s s1"
    using lru.look_law[OF O(1) ke, of False] look by auto
  define b' where "b' = b\<lparr>address := Some (a' + 32)\<rparr>"
  have id: "any_key (buf_id b') = k" using owns_coreD(4)[OF O(5) b] by (simp add: b'_def entry_meta_def)
  have "k \<noteq> empty_key (cache s1)" using ke s1(3) by (simp add: lru_frame_def)
  then obtain s2 where s2: "lru_UpdateValue k b' s1 = Some (True, s2)" "lru_open s2 (al_set k b' es) None" "lru_frame s1 s2"
    using lru.setv_law[OF s1(2), of k b'] look by auto
  have "mem_read mem a' 32 = Some (enc_header \<lparr>version = 0, header_id = i\<rparr>)"
    using mem_read_prefix[of mem a' "length d" "enc_header \<lparr>version = 0, header_id = i\<rparr>" rest] mem i(1) by simp
  moreover have "dec_header (enc_header \<lparr>version = 0, header_id = i\<rparr>) = \<lparr>version = 0, header_id = i\<rparr>"
    using dec_enc_header[of "\<lparr>version = 0, header_id = i\<rparr>" "[]"] i(2) by simp
  ultimately have "OnBlockMove a' mem s = Some s2"
    using s1(1) s2(1) i(3) id by (simp add: OnBlockMove_def sizeof_AllocHeader_def k_def[symmetric] b'_def[symmetric])
  moreover have "kv_owns E s0 s2 (us @ (a', d) # vs)"
    unfolding kv_owns_def
  proof (intro exI conjI)
    show "map strip (al_set k b' es) = E" using strip_al_set[OF b dist] O(2) by (simp add: b'_def)
    show "lru_frame s0 s2" using O(3) s1(3) s2(3) by (simp add: lru_frame_def)
    show "\<forall>k \<in> fst ` set (al_set k b' es). k \<noteq> empty_key (cache s0)" using O(4) by simp
    show "owns_core (al_set k b' es) (us @ (a', d) # vs)"
      using owns_core_moved[OF O(5) dist b[unfolded k_def], of a'] by (simp add: k_def b'_def)
  qed (rule s2(2))
  ultimately show ?thesis by blast
qed

interpretation kv: block_owner "kv_owns E s0" OnBlockMove for E s0
  by unfold_locales (rule kv_owner_moves)

section \<open>The invariant of the store\<close>

abbreviation kv_null :: digest where
  "kv_null \<equiv> Any_new kAny kSuffixNone"

definition kv_rel :: "kv_store \<Rightarrow> (digest \<times> memory_buffer) list \<Rightarrow> kv_memory \<Rightarrow> bool" where
  "kv_rel st es B \<longleftrightarrow> lru_open (ents st) es None \<and> mem_rel st B \<and> objs_rel es B \<and>
     (\<forall>k \<in> fst ` set es. k \<noteq> kv_null) \<and> empty_key (cache (ents st)) = kv_null \<and>
     used_bytes st = sum_list (map (buf_size \<circ> snd) es) \<and> used_bytes st < 2 ^ 63 \<and>
     entry_count st = length es \<and> max_entries st = cache_size (ents st)"

lemma map_snd_layout: "map snd (layout a bs) = map snd (filter fst bs)"
  by (induction bs arbitrary: a) auto

lemma objs_relD:
  assumes "objs_rel es B"
  shows "distinct (map fst es)" "(k, b) \<in> set es \<Longrightarrow> entry_ok B (k, b)"
    "B p = Some (k, xs) \<Longrightarrow> \<exists>b. (k, b) \<in> set es \<and> address b = Some p"
  using assms unfolding objs_rel_def by blast+

lemma objs_owns:
  assumes rel: "objs_rel es (hblocks L)" and L: "distinct (map fst L)" "\<forall>(a, d) \<in> set L. hdr_ok d"
  shows "owns_core es L"
proof -
  note D = objs_relD[OF rel]
  have own: "\<exists>b. (hdr_key d, b) \<in> set es \<and> address b = Some (p + 32)" if "(p, d) \<in> set L" for p d
    using hblocks_in[OF that L(1)] D(3) by blast
  have "inj_on (hdr_key \<circ> snd) (set L)"
  proof (rule inj_onI, clarsimp)
    fix p d p' d' assume x: "(p, d) \<in> set L" "(p', d') \<in> set L" "hdr_key d = hdr_key d'"
    have "p = p'" using own[OF x(1)] own[OF x(2)] x(3) eq_key_imp_eq_value[OF D(1)] by fastforce
    then show "p = p' \<and> d = d'" using x L(1) eq_key_imp_eq_value[OF L(1)] by blast
  qed
  then have dk: "distinct (map (hdr_key \<circ> snd) L)" using L(1) by (simp add: distinct_map)
  show ?thesis
  proof (rule owns_coreI[OF dk])
    fix k b assume kb: "(k, b) \<in> set es"
    note E = D(2)[OF kb]
    show "entry_meta (k, b)" using E by (simp add: entry_ok_def)
    show "address b = None" if "buf_size b = 0" using E that by (simp add: entry_ok_def)
    show "\<exists>p d. (p, d) \<in> set L \<and> hdr_key d = k \<and> buf_size b \<le> length (drop 32 d)" if sz: "buf_size b \<noteq> 0"
    proof -
      obtain p xs where "hblocks L p = Some (k, xs)" "buf_size b \<le> length xs" using E sz by (auto simp: entry_ok_def)
      then show ?thesis using hblocks_Some by metis
    qed
  qed (use own L(2) in auto)
qed

lemma owns_objs:
  assumes core: "owns_core es L" and dist: "distinct (map fst es)" "distinct (map fst L)"
  shows "objs_rel es (hblocks L)"
proof -
  note C = owns_coreD[OF core]
  have "entry_ok (hblocks L) (k, b)" if kb: "(k, b) \<in> set es" for k b
  proof (cases "buf_size b = 0")
    case True
    then show ?thesis using C(4,5)[OF kb] by (simp add: entry_ok_def)
  next
    case False
    obtain p d where d: "(p, d) \<in> set L" "hdr_key d = k" "buf_size b \<le> length (drop 32 d)" using C(6)[OF kb False] by blast
    have "address b = Some (p + 32)" using C(3)[OF d(1)] d(2) eq_key_imp_eq_value[OF dist(1) kb] by auto
    then show ?thesis using hblocks_in[OF d(1) dist(2)] d C(4)[OF kb] False by (simp add: entry_ok_def)
  qed
  moreover have "\<exists>b. (k, b) \<in> set es \<and> address b = Some p" if "hblocks L p = Some (k, xs)" for p k xs
    using hblocks_Some[OF that] C(3) by metis
  ultimately show ?thesis unfolding objs_rel_def using dist(1) by auto
qed

text \<open>The bytes of an entry are found through its key alone, wherever the block lies.\<close>

lemma obj_data_core:
  assumes core: "owns_core es L" and dist: "distinct (map fst es)" "distinct (map fst L)" and kb: "(k, b) \<in> set es"
  shows "obj_data (hblocks L) b = (case map_of (map (\<lambda>d. (hdr_key d, d)) (map snd L)) k of None \<Rightarrow> [] | Some d \<Rightarrow> take (buf_size b) (drop 32 d))"
proof (cases "buf_size b = 0")
  case True
  then show ?thesis using owns_coreD(5)[OF core kb True] by (simp add: obj_data_def split: option.splits)
next
  case False
  note C = owns_coreD[OF core]
  obtain p d where d: "(p, d) \<in> set L" "hdr_key d = k" using C(6)[OF kb False] by blast
  have a: "address b = Some (p + 32)" using C(3)[OF d(1)] d(2) eq_key_imp_eq_value[OF dist(1) kb] by auto
  have "distinct (map fst (map (\<lambda>d. (hdr_key d, d)) (map snd L)))" using C(1) by (simp add: comp_def)
  moreover have "(k, d) \<in> set (map (\<lambda>d. (hdr_key d, d)) (map snd L))" using d by force
  ultimately have "map_of (map (\<lambda>d. (hdr_key d, d)) (map snd L)) k = Some d" by (rule map_of_is_SomeI)
  then show ?thesis using a hblocks_in[OF d(1) dist(2)] by (simp add: obj_data_def)
qed

lemma map_obj_core:
  assumes "owns_core es L" "owns_core es' L'" "map strip es' = map strip es" "map snd L' = map snd L"
    "distinct (map fst es)" "distinct (map fst es')" "distinct (map fst L)" "distinct (map fst L')"
  shows "map (kv_obj (hblocks L')) es' = map (kv_obj (hblocks L)) es"
proof -
  define G where "G e = (fst e, \<lparr>obj_bytes = (case map_of (map (\<lambda>d. (hdr_key d, d)) (map snd L)) (fst e) of None \<Rightarrow> []
    | Some d \<Rightarrow> take (buf_size (snd e)) (drop 32 d)), obj_refcount = refcount (snd e), obj_flags = object_flags (snd e)\<rparr>)"
    for e :: "digest \<times> memory_buffer"
  have 1: "map (kv_obj (hblocks L)) es = map G (map strip es)"
    using obj_data_core[OF assms(1,5,7)] by (auto simp: kv_obj_def G_def strip_def cong: option.case_cong)
  have 2: "map (kv_obj (hblocks L')) es' = map G (map strip es')"
    using obj_data_core[OF assms(2,6,8)] unfolding assms(4) by (auto simp: kv_obj_def G_def strip_def cong: option.case_cong)
  show ?thesis unfolding 1 2 assms(3) ..
qed

lemma CompactMemory_ok:
  assumes rel: "kv_rel st es B"
  shows "\<exists>r st' es' B'. CompactMemory st = Some (r, st') \<and> kv_rel st' es' B' \<and> map (kv_obj B') es' = map (kv_obj B) es \<and>
    map fst es' = map fst es \<and> used_bytes st' = used_bytes st \<and> entry_count st' = entry_count st \<and> max_entries st' = max_entries st"
proof (cases "allocator_kind st")
  case kMallocLibc
  then show ?thesis using rel by (auto simp: CompactMemory_def)
next
  case heap: kMallocHeap
  note R = rel[unfolded kv_rel_def]
  obtain h bs where h: "kheap st = Some h" "heap_rep h bs" "B = hblocks (layout 0 bs)" "\<forall>(a, d) \<in> set (layout 0 bs). hdr_ok d"
    using R heap by (auto simp: mem_rel_def heap_mem_def)
  show ?thesis
  proof (cases "\<exists>u. utilization h = Some u \<and> dbl_less u kCompactThreshold")
    case False
    then have "CompactMemory st = Some (False, st)" using heap h(1) by (auto simp: CompactMemory_def split: option.splits)
    then show ?thesis using rel by blast
  next
    case True
    let ?L = "layout 0 bs" let ?L' = "layout 0 (filter fst bs)"
    have core: "owns_core es ?L" using R h(3,4) by (intro objs_owns layout_distinct) auto
    then have "kv_owns (map strip es) (ents st) (ents st) ?L" unfolding kv_owns_def using R by (auto simp: lru_frame_def)
    from kv.Compact_ok[OF h(2) this] obtain h' s' where C: "Compact OnBlockMove h (ents st) = Some (h', s')" "heap_rep h' (filter fst bs)"
      "kv_owns (map strip es) (ents st) s' ?L'" by blast
    obtain es' where E: "lru_open s' es' None" "map strip es' = map strip es" "lru_frame (ents st) s'" "owns_core es' ?L'"
      using C(3) unfolding kv_owns_def by blast
    have dist: "distinct (map fst es)" "distinct (map fst es')" using R E(1) lru_rel_bound by (auto simp: lru_open_def)
    have keys: "map fst es' = map fst es" and sizes: "map (buf_size \<circ> snd) es' = map (buf_size \<circ> snd) es"
      using arg_cong[OF E(2), of "map fst"] arg_cong[OF E(2), of "map (buf_size \<circ> snd)"] by (simp_all add: strip_def comp_def)
    have len: "length es' = length es" "fst ` set es' = fst ` set es" using keys by (metis length_map, metis list.set_map)
    have hm: "heap_mem h' (hblocks ?L')" using C(2) owns_coreD(2)[OF E(4)] by (auto simp: heap_mem_def)
    let ?st = "st\<lparr>kheap := Some h', ents := s'\<rparr>"
    have "kv_rel ?st es' (hblocks ?L')"
      using R E(1,3) heap hm owns_objs[OF E(4) dist(2) layout_distinct] keys sizes len
      by (simp add: kv_rel_def mem_rel_def lru_frame_def)
    moreover have "map (kv_obj (hblocks ?L')) es' = map (kv_obj B) es"
      using map_obj_core[OF core E(4,2) _ dist layout_distinct layout_distinct] h(3) by (simp add: map_snd_layout)
    moreover have "\<exists>r. CompactMemory st = Some (r, ?st)" using True heap h(1) C(1) by (auto simp: CompactMemory_def)
    ultimately show ?thesis using keys by fastforce
  qed
qed

end
