(* ===== verification/KvRefine.thy ===== *)
theory KvRefine
  imports KvStore
begin

text \<open>
  Refinement of the key-value store: every operation of \<^verbatim>\<open>cvmfs/kvstore.cc\<close> acts on the objects of the store as
  an operation on an association list ordered by last use, whatever the allocator and wherever
  compaction has moved the bytes.
\<close>

section \<open>Refinement of the operations\<close>

text \<open>\<open>kv_view st os\<close>: the store holds the objects \<open>os\<close>, in the order of their last use.\<close>

definition kv_view :: "kv_store \<Rightarrow> (digest \<times> kv_object) list \<Rightarrow> bool" where
  "kv_view st os \<longleftrightarrow> (\<exists>es B. kv_rel st es B \<and> os = map (kv_obj B) es)"

definition kv_frame :: "kv_store \<Rightarrow> kv_store \<Rightarrow> bool" where
  "kv_frame st st' \<longleftrightarrow> max_entries st' = max_entries st"

lemma kv_viewI: "kv_rel st es B \<Longrightarrow> kv_view st (map (kv_obj B) es)"
  unfolding kv_view_def by blast

lemma kv_rel_counters [simp]: "kv_rel (st\<lparr>kcounters := c\<rparr>) es B = kv_rel st es B"
  by (simp add: kv_rel_def)

lemma es_split:
  assumes "distinct (map fst es)" "map_of es k = Some b"
  obtains us vs where "es = us @ (k, b) # vs" "al_remove k es = us @ vs" "al_touch k es = us @ vs @ [(k, b)]" "k \<notin> fst ` set (us @ vs)"
proof -
  obtain us vs where es: "es = us @ (k, b) # vs" using split_list[OF map_of_SomeD[OF assms(2)]] by blast
  have n: "k \<notin> fst ` set (us @ vs)" using assms(1) by (auto simp: es)
  then have "filter (\<lambda>e. fst e \<noteq> k) us = us" "filter (\<lambda>e. fst e \<noteq> k) vs = vs" by (auto simp: filter_id_conv)
  then have "al_remove k es = us @ vs" by (simp add: al_remove_def es)
  then show thesis using that[OF es _ _ n] assms(2) by (simp add: al_touch_def)
qed

lemma map_of_obj: "map_of (map (kv_obj B) es) k = map_option (\<lambda>b. snd (kv_obj B (k, b))) (map_of es k)"
  by (induction es) (auto simp: kv_obj_def)

lemma al_remove_obj: "al_remove k (map (kv_obj B) es) = map (kv_obj B) (al_remove k es)"
  by (simp add: al_remove_def filter_map comp_def)

lemma al_touch_obj: "al_touch k (map (kv_obj B) es) = map (kv_obj B) (al_touch k es)"
  by (simp add: al_touch_def map_of_obj al_remove_obj kv_obj_def split: option.split)

lemma kv_relD:
  assumes "kv_rel st es B"
  shows "lru_open (ents st) es None" "mem_rel st B" "objs_rel es B" "distinct (map fst es)" "empty_key (cache (ents st)) = kv_null"
    "used_bytes st = sum_list (map (buf_size \<circ> snd) es)" "used_bytes st < 2 ^ 63" "entry_count st = length es"
    "max_entries st = cache_size (ents st)" "length es \<le> cache_size (ents st)" "\<forall>k \<in> fst ` set es. k \<noteq> kv_null"
  using assms objs_relD(1)[of es B] lru_rel_bound[of "ents st" es None] unfolding kv_rel_def lru_open_def by blast+

lemma kv_lookup:
  assumes rel: "kv_rel st es B" and k: "k \<noteq> kv_null"
  shows "\<exists>s'. lru_Lookup k upd (ents st) = Some (map_of es k, s') \<and> kv_rel (st\<lparr>ents := s'\<rparr>) (if upd then al_touch k es else es) B \<and>
    lru_frame (ents st) s'"
proof -
  note R = kv_relD[OF rel]
  obtain s' where s': "lru_Lookup k upd (ents st) = Some (map_of es k, s')" "lru_open s' (if upd then al_touch k es else es) None" "lru_frame (ents st) s'"
    using lru.look_law[OF R(1), of k upd] k R(5) by auto
  have "kv_rel (st\<lparr>ents := s'\<rparr>) (if upd then al_touch k es else es) B"
  proof (cases "upd \<and> map_of es k \<noteq> None")
    case False
    then have "(if upd then al_touch k es else es) = es" by (auto simp: al_touch_def split: option.splits)
    then show ?thesis using rel s'(2,3) by (simp add: kv_rel_def lru_frame_def)
  next
    case True
    then obtain b us vs where es: "es = us @ (k, b) # vs" "al_touch k es = us @ vs @ [(k, b)]" using es_split[OF R(4)] by blast
    have "objs_rel (us @ vs @ [(k, b)]) B" using R(3) by (auto simp: objs_rel_def es(1))
    then show ?thesis using rel s'(2,3) True es by (auto simp: kv_rel_def lru_frame_def)
  qed
  then show ?thesis using s' by blast
qed

text \<open>Replacing the value of a present key by one with the same memory moves the entry to the end.\<close>

lemma kv_replace:
  assumes rel: "kv_rel st es B" and b: "map_of es k = Some b" and k: "k \<noteq> kv_null"
    and same: "address b' = address b" "buf_size b' = buf_size b" "buf_id b' = buf_id b"
  shows "\<exists>s'. lru_Insert k b' (ents st) = Some (False, s') \<and> kv_rel (st\<lparr>ents := s'\<rparr>) (al_remove k es @ [(k, b')]) B"
proof -
  note R = kv_relD[OF rel]
  obtain us vs where es: "es = us @ (k, b) # vs" "al_remove k es = us @ vs" using es_split[OF R(4) b] by blast
  obtain s' where s': "lru_Insert k b' (ents st) = Some (False, s')" "lru_open s' (al_remove k es @ [(k, b')]) None" "lru_frame (ents st) s'"
    using lru.ins_law[OF R(1), of k b'] k R(5) b by (auto simp: al_insert_def)
  have "entry_ok B (k, b') = entry_ok B (k, b)" using same by (simp add: entry_ok_def entry_meta_def)
  then have "objs_rel (us @ vs @ [(k, b')]) B" using R(3) same(1) unfolding objs_rel_def es(1) by (auto; metis)
  then show ?thesis using rel s' es same(2) by (auto simp: kv_rel_def lru_frame_def)
qed

definition kv_key_ok :: "digest \<Rightarrow> bool" where
  "kv_key_ok i \<longleftrightarrow> digest_ok i \<and> algorithm i \<noteq> kAny"

lemma kv_key_okD: "kv_key_ok i \<Longrightarrow> any_key i \<noteq> kv_null"
  by (cases i) (auto simp: kv_key_ok_def any_key_def Any_new_def)

lemma kv_Contains_ok:
  assumes "kv_view st os" "kv_key_ok i"
  shows "\<exists>st'. kv_Contains i st = Some (map_of os (any_key i) \<noteq> None, st') \<and> kv_view st' os \<and> kv_frame st st'"
proof -
  obtain es B where v: "kv_rel st es B" "os = map (kv_obj B) es" using assms(1) by (auto simp: kv_view_def)
  from kv_lookup[OF v(1) kv_key_okD[OF assms(2)], of False] v(2) show ?thesis
    by (auto simp: kv_Contains_def map_of_obj kv_frame_def intro: kv_viewI)
qed

lemma kv_GetSize_ok:
  assumes "kv_view st os" "kv_key_ok i"
  shows "\<exists>st'. kv_GetSize i st = Some (case map_of os (any_key i) of Some ob \<Rightarrow> int (length (obj_bytes ob)) | None \<Rightarrow> - ENOENT, st') \<and>
    kv_view st' os \<and> kv_frame st st'"
proof -
  obtain es B where v: "kv_rel st es B" "os = map (kv_obj B) es" using assms(1) by (auto simp: kv_view_def)
  define st1 where "st1 = st\<lparr>kcounters := (kcounters st)\<lparr>kc_n_getsize := kc_n_getsize (kcounters st) + 1\<rparr>\<rparr>"
  have r: "kv_rel st1 es B" using v(1) by (simp add: st1_def)
  obtain s' where s': "lru_Lookup (any_key i) False (ents st1) = Some (map_of es (any_key i), s')" "kv_rel (st1\<lparr>ents := s'\<rparr>) es B"
    using kv_lookup[OF r kv_key_okD[OF assms(2)], of False] by auto
  have "length (obj_data B b) = buf_size b" if "map_of es (any_key i) = Some b" for b
    using that objs_relD(2)[OF kv_relD(3)[OF v(1)]] obj_data_length map_of_SomeD by metis
  then have "kv_GetSize i st = Some (case map_of os (any_key i) of Some ob \<Rightarrow> int (length (obj_bytes ob)) | None \<Rightarrow> - ENOENT, st1\<lparr>ents := s'\<rparr>)"
    using s'(1) v(2) by (auto simp: kv_GetSize_def st1_def map_of_obj kv_obj_def split: option.splits)
  then show ?thesis using kv_viewI[OF s'(2)] v(2) by (auto simp: kv_frame_def st1_def)
qed

text \<open>The object under a key, and what the entry tells of it.\<close>

lemma view_object:
  assumes "kv_rel st es B" "map_of es k = Some b"
  shows "length (obj_data B b) = buf_size b" "snd (kv_obj B (k, b)) = \<lparr>obj_bytes = obj_data B b, obj_refcount = refcount b, obj_flags = object_flags b\<rparr>"
  using objs_relD(2)[OF kv_relD(3)[OF assms(1)] map_of_SomeD[OF assms(2)]] obj_data_length by (auto simp: kv_obj_def)

lemma al_touch_remove: "al_remove k (al_touch k es) = al_remove k es"
  by (auto simp: al_touch_def al_remove_def split: option.split)

lemma map_of_touch: "map_of (al_touch k es) k = map_of es k"
proof (cases "map_of es k")
  case (Some v)
  have "map_of (filter (\<lambda>e. fst e \<noteq> k) es) k = None" by (auto simp: map_of_eq_None_iff)
  then show ?thesis using Some by (simp add: al_touch_def al_remove_def map_add_def)
qed (simp add: al_touch_def)

text \<open>\<open>IncRef\<close> and \<open>Unref\<close>: a lookup, then the entry with a new reference count.\<close>

lemma kv_set_refcount:
  assumes rel: "kv_rel st es B" and b: "map_of es k = Some b" and k: "k \<noteq> kv_null"
  shows "\<exists>s1 s2. lru_Lookup k True (ents st) = Some (Some b, s1) \<and> lru_Insert k (b\<lparr>refcount := n\<rparr>) s1 = Some (False, s2) \<and>
    kv_view (st\<lparr>ents := s2\<rparr>) (al_remove k (map (kv_obj B) es) @ [(k, (snd (kv_obj B (k, b)))\<lparr>obj_refcount := n\<rparr>)])"
proof -
  obtain s1 where s1: "lru_Lookup k True (ents st) = Some (Some b, s1)" "kv_rel (st\<lparr>ents := s1\<rparr>) (al_touch k es) B"
    using kv_lookup[OF rel k, of True] b by auto
  obtain s2 where s2: "lru_Insert k (b\<lparr>refcount := n\<rparr>) s1 = Some (False, s2)"
    "kv_rel (st\<lparr>ents := s2\<rparr>) (al_remove k (al_touch k es) @ [(k, b\<lparr>refcount := n\<rparr>)]) B"
    using kv_replace[OF s1(2) _ k, of b "b\<lparr>refcount := n\<rparr>"] b by (auto simp: map_of_touch)
  have "al_remove k (map (kv_obj B) es) @ [(k, (snd (kv_obj B (k, b)))\<lparr>obj_refcount := n\<rparr>)] =
    map (kv_obj B) (al_remove k (al_touch k es) @ [(k, b\<lparr>refcount := n\<rparr>)])"
    by (simp add: al_remove_obj al_touch_remove kv_obj_def obj_data_def split: option.split)
  then show ?thesis using s1(1) s2 unfolding kv_view_def by metis
qed

lemma kv_view_counters [simp]: "kv_view (st\<lparr>kcounters := c\<rparr>) os = kv_view st os"
  by (simp add: kv_view_def)

lemma kv_IncRef_ok:
  assumes v: "kv_view st os" and i: "kv_key_ok i"
  shows "(case map_of os (any_key i) of
      None \<Rightarrow> \<exists>st'. kv_IncRef i st = Some (False, st') \<and> kv_view st' os \<and> kv_frame st st'
    | Some ob \<Rightarrow> if obj_refcount ob < 4294967295
        then \<exists>st'. kv_IncRef i st = Some (True, st') \<and> kv_frame st st' \<and>
          kv_view st' (al_remove (any_key i) os @ [(any_key i, ob\<lparr>obj_refcount := obj_refcount ob + 1\<rparr>)])
        else kv_IncRef i st = None)"
proof -
  obtain es B where V: "kv_rel st es B" "os = map (kv_obj B) es" using v by (auto simp: kv_view_def)
  define st1 where "st1 = st\<lparr>kcounters := (kcounters st)\<lparr>kc_n_incref := kc_n_incref (kcounters st) + 1\<rparr>\<rparr>"
  have r: "kv_rel st1 es B" using V(1) by (simp add: st1_def)
  note k = kv_key_okD[OF i]
  show ?thesis
  proof (cases "map_of es (any_key i)")
    case None
    then show ?thesis using kv_lookup[OF r k, of True] V(2)
      by (auto simp: map_of_obj kv_IncRef_def st1_def[symmetric] kv_frame_def al_touch_def intro!: kv_viewI) (auto simp: st1_def)
  next
    case (Some b)
    from kv_set_refcount[OF r Some k, of "refcount b + 1"] show ?thesis using Some V(2)
      by (auto simp: map_of_obj kv_IncRef_def st1_def[symmetric] kv_frame_def kv_obj_def assert_that_def) (auto simp: st1_def)
  qed
qed

lemma kv_Unref_ok:
  assumes v: "kv_view st os" and i: "kv_key_ok i"
  shows "(case map_of os (any_key i) of
      None \<Rightarrow> \<exists>st'. kv_Unref i st = Some (False, st') \<and> kv_view st' os \<and> kv_frame st st'
    | Some ob \<Rightarrow> if obj_refcount ob > 0
        then \<exists>st'. kv_Unref i st = Some (True, st') \<and> kv_frame st st' \<and>
          kv_view st' (al_remove (any_key i) os @ [(any_key i, ob\<lparr>obj_refcount := obj_refcount ob - 1\<rparr>)])
        else kv_Unref i st = None)"
proof -
  obtain es B where V: "kv_rel st es B" "os = map (kv_obj B) es" using v by (auto simp: kv_view_def)
  define st1 where "st1 = st\<lparr>kcounters := (kcounters st)\<lparr>kc_n_unref := kc_n_unref (kcounters st) + 1\<rparr>\<rparr>"
  have r: "kv_rel st1 es B" using V(1) by (simp add: st1_def)
  note k = kv_key_okD[OF i]
  show ?thesis
  proof (cases "map_of es (any_key i)")
    case None
    then show ?thesis using kv_lookup[OF r k, of True] V(2)
      by (auto simp: map_of_obj kv_Unref_def st1_def[symmetric] kv_frame_def al_touch_def intro!: kv_viewI) (auto simp: st1_def)
  next
    case (Some b)
    from kv_set_refcount[OF r Some k, of "refcount b - 1"] show ?thesis using Some V(2)
      by (auto simp: map_of_obj kv_Unref_def st1_def[symmetric] kv_frame_def kv_obj_def assert_that_def) (auto simp: st1_def)
  qed
qed

lemma kv_Read_ok:
  assumes v: "kv_view st os" and i: "kv_key_ok i"
  shows "\<exists>st'. kv_Read i n off st = Some (case map_of os (any_key i) of
      None \<Rightarrow> (- ENOENT, [], st')
    | Some ob \<Rightarrow> (int (length (take n (drop off (obj_bytes ob)))), take n (drop off (obj_bytes ob)), st')) \<and>
    kv_view st' (al_touch (any_key i) os) \<and> kv_frame st st'"
proof -
  obtain es B where V: "kv_rel st es B" "os = map (kv_obj B) es" using v by (auto simp: kv_view_def)
  define st1 where "st1 = st\<lparr>kcounters := (kcounters st)\<lparr>kc_n_read := kc_n_read (kcounters st) + 1\<rparr>\<rparr>"
  have r: "kv_rel st1 es B" using V(1) by (simp add: st1_def)
  note k = kv_key_okD[OF i]
  obtain s where s: "lru_Lookup (any_key i) True (ents st1) = Some (map_of es (any_key i), s)" "kv_rel (st1\<lparr>ents := s\<rparr>) (al_touch (any_key i) es) B"
    using kv_lookup[OF r k, of True] by auto
  have view: "kv_view (st1\<lparr>ents := s, kcounters := c\<rparr>) (al_touch (any_key i) os)" for c
    using kv_viewI[OF s(2)] V(2) by (simp add: al_touch_obj)
  show ?thesis
  proof (cases "map_of es (any_key i)")
    case None
    then show ?thesis using s(1) view[of "kcounters st1"] V(2)
      by (auto simp: kv_Read_def st1_def[symmetric] map_of_obj kv_frame_def) (auto simp: st1_def)
  next
    case (Some b)
    let ?m = "min (buf_size b - off) n"
    note O = view_object[OF V(1) Some]
    have load: "kv_load (st1\<lparr>ents := s\<rparr>) (address b) off ?m = Some (take n (drop off (obj_data B b)))" if "off \<le> buf_size b"
    proof (cases "?m = 0")
      case True
      then have "take n (drop off (obj_data B b)) = []" using O(1) by (auto simp: min_def split: if_splits)
      then show ?thesis using True by (simp add: kv_load_def)
    next
      case False
      then have "buf_size b \<noteq> 0" by auto
      then obtain p xs where p: "address b = Some p" "B p = Some (any_key i, xs)" "buf_size b \<le> length xs"
        using objs_relD(2)[OF kv_relD(3)[OF V(1)] map_of_SomeD[OF Some]] by (auto simp: entry_ok_def)
      have "kv_load (st1\<lparr>ents := s\<rparr>) (Some p) off ?m = Some (take ?m (drop off xs))"
        using p(3) that by (intro kv_load_ok[OF kv_relD(2)[OF s(2)] p(2)]) simp
      moreover have "take ?m (drop off xs) = take n (drop off (take (buf_size b) xs))" by (simp add: drop_take min.commute)
      ultimately show ?thesis using p by (simp add: obj_data_def)
    qed
    have len: "length (take n (drop off (obj_data B b))) = ?m" using O(1) by simp
    show ?thesis
    proof (cases "off \<le> buf_size b")
      case True
      then show ?thesis using Some s(1) load len view V(2) O(2)
        by (auto simp: kv_Read_def st1_def[symmetric] map_of_obj kv_frame_def Let_def) (auto simp: st1_def)
    next
      case False
      then have "take n (drop off (obj_data B b)) = []" using O(1) by simp
      then show ?thesis using False Some s(1) view[of "kcounters st1"] V(2) O(2)
        by (auto simp: kv_Read_def st1_def[symmetric] map_of_obj kv_frame_def) (auto simp: st1_def)
    qed
  qed
qed

section \<open>Release and allocation of the memory of an entry\<close>

lemma entry_ok_other:
  assumes "entry_ok B (k', c)" "\<And>p xs. B p = Some (k', xs) \<Longrightarrow> B' p = Some (k', xs)"
  shows "entry_ok B' (k', c)" "kv_obj B' (k', c) = kv_obj B (k', c)"
proof -
  show "entry_ok B' (k', c)" using assms by (auto simp: entry_ok_def split: if_splits)
  show "kv_obj B' (k', c) = kv_obj B (k', c)"
    using assms by (auto simp: entry_ok_def kv_obj_def obj_data_def split: if_splits)
qed

lemma objs_other:
  assumes "\<forall>e \<in> set es. entry_ok B e" "\<And>k p xs. k \<in> fst ` set es \<Longrightarrow> B p = Some (k, xs) \<Longrightarrow> B' p = Some (k, xs)"
  shows "\<forall>e \<in> set es. entry_ok B' e" "map (kv_obj B') es = map (kv_obj B) es"
proof -
  have "entry_ok B' (k, c) \<and> kv_obj B' (k, c) = kv_obj B (k, c)" if "(k, c) \<in> set es" for k c
  proof -
    have "entry_ok B (k, c)" "k \<in> fst ` set es" using assms(1) that by force+
    then show ?thesis using entry_ok_other[of B k c B'] assms(2)[of k] by blast
  qed
  then show "\<forall>e \<in> set es. entry_ok B' e" "map (kv_obj B') es = map (kv_obj B) es" by auto
qed

lemma mem_frame_trans: "mem_frame a b \<Longrightarrow> mem_frame b c \<Longrightarrow> mem_frame a c"
proof -
  assume "mem_frame a b" "mem_frame b c"
  then obtain h m h' m' where "b = a\<lparr>kheap := h, libc := m\<rparr>" "c = b\<lparr>kheap := h', libc := m'\<rparr>" by (auto simp: mem_frame_def)
  then have "c = a\<lparr>kheap := h', libc := m'\<rparr>" by simp
  then show ?thesis unfolding mem_frame_def by blast
qed

lemma DoFree_entry:
  assumes mem: "mem_rel st B" and objs: "objs_rel (us @ (k, b) # vs) B"
  shows "\<exists>st' B'. DoFree b st = Some st' \<and> mem_frame st st' \<and> mem_rel st' B' \<and> objs_rel (us @ vs) B' \<and>
    map (kv_obj B') (us @ vs) = map (kv_obj B) (us @ vs)"
proof -
  note O = objs_relD[OF objs]
  have kb: "entry_ok B (k, b)" using O(2)[of k b] by simp
  have k: "k \<notin> fst ` set (us @ vs)" using O(1) by auto
  have ok: "\<forall>e \<in> set (us @ vs). entry_ok B e" using objs by (auto simp: objs_rel_def)
  show ?thesis
  proof (cases "address b")
    case None
    have "objs_rel (us @ vs) B"
      using objs None unfolding objs_rel_def by (auto; metis option.distinct(1))
    then show ?thesis using None mem
      by (auto simp: DoFree_def mem_frame_def intro!: exI[of _ st] exI[of _ B] exI[of _ "kheap st"] exI[of _ "libc st"])
  next
    case (Some p)
    then obtain xs where p: "B p = Some (k, xs)" using kb by (auto simp: entry_ok_def split: if_splits)
    obtain st' where st': "DoFree b st = Some st'" "mem_rel st' (B(p := None))" "mem_frame st st'"
      using DoFree_ok[OF mem Some p] by blast
    have keep: "(B(p := None)) q = Some (k', ys)" if "k' \<in> fst ` set (us @ vs)" "B q = Some (k', ys)" for k' q ys
      using that p k by (metis fun_upd_apply option.inject prod.inject)
    have own: "\<exists>c. (k', c) \<in> set (us @ vs) \<and> address c = Some q" if q: "(B(p := None)) q = Some (k', ys)" for q k' ys
    proof -
      have "B q = Some (k', ys)" "q \<noteq> p" using q by (auto split: if_splits)
      then obtain c where c: "(k', c) \<in> set (us @ (k, b) # vs)" "address c = Some q" using O(3) by blast
      moreover have "(k', c) \<noteq> (k, b)" using Some c(2) \<open>q \<noteq> p\<close> by auto
      ultimately show ?thesis by auto
    qed
    have oth: "\<forall>e \<in> set (us @ vs). entry_ok (B(p := None)) e" "map (kv_obj (B(p := None))) (us @ vs) = map (kv_obj B) (us @ vs)"
      using objs_other[OF ok, of "B(p := None)"] keep by blast+
    have "objs_rel (us @ vs) (B(p := None))"
      using oth(1) own O(1) unfolding objs_rel_def by auto
    then show ?thesis using st' oth(2) by blast
  qed
qed

lemma DoMalloc_entry:
  assumes mem: "mem_rel st B" and objs: "objs_rel es B" and k: "any_key (buf_id buf) \<notin> fst ` set es"
    and buf: "digest_ok (buf_id buf)" "buf_size buf < 2 ^ 61" "buf_size buf \<le> length src"
  shows "DoMalloc buf st = Some (- ENOMEM, buf, st) \<or>
    (\<exists>a st1 st2 B'. DoMalloc buf st = Some (0, buf\<lparr>address := a\<rparr>, st1) \<and> kv_copy_in a (take (buf_size buf) src) st1 = Some st2 \<and>
      mem_frame st st1 \<and> mem_frame st st2 \<and> mem_rel st2 B' \<and> objs_rel (es @ [(any_key (buf_id buf), buf\<lparr>address := a\<rparr>)]) B' \<and>
      map (kv_obj B') es = map (kv_obj B) es \<and> obj_data B' (buf\<lparr>address := a\<rparr>) = take (buf_size buf) src)"
proof (cases "buf_size buf = 0")
  case True
  have "entry_ok B (any_key (buf_id buf), buf\<lparr>address := None\<rparr>)" using True buf by (simp add: entry_ok_def entry_meta_def)
  then have "objs_rel (es @ [(any_key (buf_id buf), buf\<lparr>address := None\<rparr>)]) B"
    using objs k objs_relD(3)[OF objs] unfolding objs_rel_def by (auto; blast)
  then show ?thesis using True mem
    by (intro disjI2 exI[of _ None] exI[of _ st] exI[of _ B])
      (auto simp: DoMalloc_def kv_copy_in_def mem_frame_def obj_data_def intro!: exI[of _ "kheap st"] exI[of _ "libc st"])
next
  case False
  let ?k = "any_key (buf_id buf)" let ?src = "take (buf_size buf) src"
  consider "DoMalloc buf st = Some (- ENOMEM, buf, st)" |
    p xs st1 where "DoMalloc buf st = Some (0, buf\<lparr>address := Some p\<rparr>, st1)" "B p = None" "buf_size buf \<le> length xs"
      "mem_rel st1 (B(p \<mapsto> (?k, xs)))" "mem_frame st st1"
    using DoMalloc_ok[OF mem _ buf(2,1)] False by auto
  then show ?thesis
  proof cases
    case 2
    have src: "length ?src = buf_size buf" using buf(3) by simp
    define B' where "B' = B(p \<mapsto> (?k, ?src @ drop (buf_size buf) xs))"
    obtain st2 where st2: "kv_copy_in (Some p) ?src st1 = Some st2" "mem_rel st2 B'" "mem_frame st1 st2"
      using kv_copy_in_ok[OF 2(4), of p ?k xs ?src] 2(3) src by (auto simp: B'_def)
    have ok: "\<forall>e \<in> set es. entry_ok B e" using objs by (simp add: objs_rel_def)
    have keep: "B' q = Some (k', ys)" if "k' \<in> fst ` set es" "B q = Some (k', ys)" for k' q ys
      using that 2(2) by (auto simp: B'_def)
    have own: "\<exists>c. (k', c) \<in> set (es @ [(?k, buf\<lparr>address := Some p\<rparr>)]) \<and> address c = Some q" if "B' q = Some (k', ys)" for q k' ys
      using that objs_relD(3)[OF objs, of q k' ys] by (auto simp: B'_def split: if_splits)
    have new: "entry_ok B' (?k, buf\<lparr>address := Some p\<rparr>)"
      using False buf src by (simp add: entry_ok_def entry_meta_def B'_def)
    have oth: "\<forall>e \<in> set es. entry_ok B' e" "map (kv_obj B') es = map (kv_obj B) es"
      using objs_other[OF ok, of B'] keep by blast+
    have "objs_rel (es @ [(?k, buf\<lparr>address := Some p\<rparr>)]) B'"
      using oth(1) own new k objs unfolding objs_rel_def by auto
    moreover have "obj_data B' (buf\<lparr>address := Some p\<rparr>) = ?src" using src by (simp add: obj_data_def B'_def)
    moreover have "mem_frame st st2" using 2(5) st2(3) by (rule mem_frame_trans)
    ultimately show ?thesis using 2(1,5) st2 oth(2) by blast
  qed simp
qed

end
