(* ===== verification/KvSpec.thy ===== *)
theory KvSpec
  imports KvRefine
begin

text \<open>
  The operations of the key-value store that release and allocate memory: \<open>Delete\<close>, \<open>Commit\<close>, \<open>ShrinkTo\<close> and
  the construction of the store.
\<close>

section \<open>Delete\<close>

lemma set_used_simps [simp]:
  "ents (set_used n st) = ents st" "used_bytes (set_used n st) = n" "entry_count (set_used n st) = entry_count st"
  "max_entries (set_used n st) = max_entries st" "mem_rel (set_used n st) B = mem_rel st B"
  by (simp_all add: set_used_def)

lemma used_minus:
  assumes "kv_rel st es B" "(k, b) \<in> set es"
  shows "u64 (used_bytes st + (2 ^ 64 - buf_size b)) = used_bytes st - buf_size b" "buf_size b \<le> used_bytes st"
proof -
  note R = kv_relD[OF assms(1)]
  show le: "buf_size b \<le> used_bytes st"
    unfolding R(6) using assms(2) by (intro member_le_sum_list) force+
  show "u64 (used_bytes st + (2 ^ 64 - buf_size b)) = used_bytes st - buf_size b"
    using u64_minus[OF le] R(7) by simp
qed

lemma kv_Delete_ok:
  assumes v: "kv_view st os" and i: "kv_key_ok i"
  shows "\<exists>st'. kv_frame st st' \<and> (case map_of os (any_key i) of
      None \<Rightarrow> kv_Delete i st = Some (False, st') \<and> kv_view st' os
    | Some ob \<Rightarrow> if obj_refcount ob > 0 then kv_Delete i st = Some (False, st') \<and> kv_view st' (al_touch (any_key i) os)
        else kv_Delete i st = Some (True, st') \<and> kv_view st' (al_remove (any_key i) os))"
proof -
  obtain es B where V: "kv_rel st es B" "os = map (kv_obj B) es" using v by (auto simp: kv_view_def)
  let ?k = "any_key i"
  define st1 where "st1 = st\<lparr>kcounters := (kcounters st)\<lparr>kc_n_delete := kc_n_delete (kcounters st) + 1\<rparr>\<rparr>"
  have r: "kv_rel st1 es B" using V(1) by (simp add: st1_def)
  note k = kv_key_okD[OF i]
  obtain s where s: "lru_Lookup ?k True (ents st1) = Some (map_of es ?k, s)" "kv_rel (st1\<lparr>ents := s\<rparr>) (al_touch ?k es) B"
    using kv_lookup[OF r k, of True] by auto
  define st2 where "st2 = st1\<lparr>ents := s\<rparr>"
  have f2: "kv_frame st st2" by (simp add: kv_frame_def st2_def st1_def)
  have view: "kv_view st2 (al_touch ?k os)" using kv_viewI[OF s(2)] V(2) by (simp add: st2_def al_touch_obj)
  show ?thesis
  proof (cases "map_of es ?k")
    case None
    then have "al_touch ?k os = os" "map_of os ?k = None" using V(2) by (simp_all add: al_touch_def map_of_obj)
    moreover have "kv_Delete i st = Some (False, st2)" using s(1) None by (simp add: kv_Delete_def DoDelete_def st1_def[symmetric] st2_def)
    ultimately show ?thesis using view f2 by auto
  next
    case (Some b)
    have ob: "map_of os ?k = Some (snd (kv_obj B (?k, b)))" using Some V(2) by (simp add: map_of_obj)
    show ?thesis
    proof (cases "refcount b > 0")
      case True
      then have "kv_Delete i st = Some (False, st2)" using s(1) Some by (simp add: kv_Delete_def DoDelete_def st1_def[symmetric] st2_def)
      then show ?thesis using view f2 ob True by (auto simp: kv_obj_def)
    next
      case False
      obtain us vs where es: "al_remove ?k es = us @ vs" "al_touch ?k es = us @ vs @ [(?k, b)]" "?k \<notin> fst ` set (us @ vs)"
        using es_split[OF kv_relD(4)[OF V(1)] Some] by metis
      have r2: "kv_rel st2 (us @ vs @ [(?k, b)]) B" using s(2) es(2) by (simp add: st2_def)
      note R2 = kv_relD[OF r2] and U = used_minus[OF r2, of ?k b]
      define st3 where "st3 = (set_used (used_bytes st2 - buf_size b) (st2\<lparr>entry_count := entry_count st2 - 1\<rparr>))"
      define st4 where "st4 = st3\<lparr>kcounters := (kcounters st3)\<lparr>kc_sz_deleted := kc_sz_deleted (kcounters st3) + int (buf_size b)\<rparr>\<rparr>"
      have "mem_rel st4 B" using R2(2) by (simp add: st4_def st3_def)
      then obtain st5 B' where F: "DoFree b st4 = Some st5" "mem_frame st4 st5" "mem_rel st5 B'" "objs_rel (us @ vs) B'"
        "map (kv_obj B') (us @ vs) = map (kv_obj B) (us @ vs)"
        using DoFree_entry[of st4 B "us @ vs" ?k b "[]"] R2(3) by auto
      note M = mem_frameD[OF F(2)]
      have e5: "ents st5 = s" using M(5) by (simp add: st4_def st3_def st2_def)
      have rem: "al_remove ?k (us @ vs @ [(?k, b)]) = us @ vs" using es by (metis al_touch_remove)
      have "map_of (us @ vs @ [(?k, b)]) ?k = Some b" using es(2) Some by (metis map_of_touch)
      then obtain s' where s': "lru_Forget ?k s = Some (True, s')" "lru_open s' (us @ vs) None" "lru_frame s s'"
        using lru.fgt_law[of s "us @ vs @ [(?k, b)]" ?k] R2(1,5) k rem by (auto simp: st2_def)
      have "kv_Delete i st = Some (True, st5\<lparr>ents := s'\<rparr>)"
        using s(1) Some False R2(8)[unfolded st2_def] U(1)[unfolded st2_def] F(1)[unfolded st4_def st3_def st2_def] e5 s'(1)
        by (simp add: kv_Delete_def DoDelete_def st1_def[symmetric] Let_def)
      moreover have "kv_rel (st5\<lparr>ents := s'\<rparr>) (us @ vs) B'"
        using M s'(2,3) F(3,4) R2 U(2) by (auto simp: kv_rel_def st4_def st3_def st2_def lru_frame_def)
      from kv_viewI[OF this] have "kv_view (st5\<lparr>ents := s'\<rparr>) (al_remove ?k os)"
        unfolding F(5) V(2) by (simp add: al_remove_obj es(1))
      moreover have "kv_frame st (st5\<lparr>ents := s'\<rparr>)" using M(4) by (simp add: kv_frame_def st4_def st3_def st2_def st1_def)
      ultimately show ?thesis using ob False by (auto simp: kv_obj_def)
    qed
  qed
qed

section \<open>Commit\<close>

lemma commit_new_ok:
  assumes open_es: "lru_open (ents st) es None" and mem: "mem_rel st B" "objs_rel ks B"
    and ins: "\<And>v. al_insert (cache_size (ents st)) k v es = ks @ [(k, v)]" and k: "k = any_key (buf_id buf)" "k \<notin> fst ` set ks" "k \<noteq> kv_null"
    and buf: "digest_ok (buf_id buf)" "buf_size buf < 2 ^ 61" "buf_size buf \<le> length src"
    and st: "empty_key (cache (ents st)) = kv_null" "used_bytes st = sum_list (map (buf_size \<circ> snd) ks)" "entry_count st = length ks"
      "max_entries st = cache_size (ents st)" "length ks < max_entries st" "max_entries st < 2 ^ 32" "\<forall>k \<in> fst ` set ks. k \<noteq> kv_null"
    and room: "used_bytes st + buf_size buf < 2 ^ 63 - 1"
  shows "commit_new buf src st = Some (- EIO, st) \<or>
    (\<exists>st' B' a. commit_new buf src st = Some (0, st') \<and> kv_rel st' (ks @ [(k, buf\<lparr>address := a\<rparr>)]) B' \<and>
      map (kv_obj B') ks = map (kv_obj B) ks \<and> obj_data B' (buf\<lparr>address := a\<rparr>) = take (buf_size buf) src \<and> max_entries st' = max_entries st)"
proof -
  have "any_key (buf_id buf) \<notin> fst ` set ks" using k by simp
  from DoMalloc_entry[OF mem this buf] consider "DoMalloc buf st = Some (- ENOMEM, buf, st)"
    | a st1 st2 B' where "DoMalloc buf st = Some (0, buf\<lparr>address := a\<rparr>, st1)" "kv_copy_in a (take (buf_size buf) src) st1 = Some st2"
      "mem_frame st st1" "mem_frame st st2" "mem_rel st2 B'" "objs_rel (ks @ [(any_key (buf_id buf), buf\<lparr>address := a\<rparr>)]) B'"
      "map (kv_obj B') ks = map (kv_obj B) ks" "obj_data B' (buf\<lparr>address := a\<rparr>) = take (buf_size buf) src"
    by blast
  then show ?thesis
  proof cases
    case 1
    then show ?thesis by (simp add: commit_new_def errno_defs)
  next
    case 2
    let ?b = "buf\<lparr>address := a\<rparr>"
    note M1 = mem_frameD[OF 2(3)] and M2 = mem_frameD[OF 2(4)]
    obtain r s' where s': "lru_Insert k ?b (ents st2) = Some (r, s')" "lru_open s' (ks @ [(k, ?b)]) None" "lru_frame (ents st) s'"
      using lru.ins_law[OF open_es, of k ?b] k(3) st(1) ins M2(5) by auto
    have a1: "u64 (9223372036854775807 + (2 ^ 64 - buf_size buf)) = 9223372036854775807 - buf_size buf"
      using u64_minus[of "buf_size buf" 9223372036854775807] buf(2) by simp
    define st3 where "st3 = set_used (u64 (used_bytes st2 + buf_size ?b)) (st2\<lparr>ents := s', entry_count := u32 (entry_count st2 + 1)\<rparr>)"
    define st4 where "st4 = st3\<lparr>kcounters := (kcounters st3)\<lparr>kc_sz_committed := kc_sz_committed (kcounters st3) + int (buf_size ?b)\<rparr>\<rparr>"
    have u: "u64 (used_bytes st + buf_size buf) = used_bytes st + buf_size buf" "u32 (entry_count st + 1) = length ks + 1"
      using room st(3,5,6) by simp_all
    have "commit_new buf src st = Some (0, st4)"
      using 2(1,2) s'(1) a1 room M1(2) M2(2) k(1) buf(3)
      by (simp add: commit_new_def st4_def st3_def Let_def)
    moreover have "kv_rel st4 (ks @ [(k, ?b)]) B'"
      using s'(2,3) 2(5,6) k st u room M2 by (simp add: kv_rel_def st4_def st3_def lru_frame_def)
    moreover have "max_entries st4 = max_entries st" using M2(4) by (simp add: st4_def st3_def)
    ultimately show ?thesis using 2(7,8) by blast
  qed
qed

text \<open>
  The object a commit creates: the bytes of the caller; an existing object keeps its reference count.
\<close>

definition committed :: "memory_buffer \<Rightarrow> nat list \<Rightarrow> (digest \<times> kv_object) list \<Rightarrow> (digest \<times> kv_object) list" where
  "committed buf src os = (let k = any_key (buf_id buf) in
     al_remove k os @ [(k, \<lparr>obj_bytes = take (buf_size buf) src,
       obj_refcount = (case map_of os k of Some ob \<Rightarrow> obj_refcount ob | None \<Rightarrow> refcount buf), obj_flags = object_flags buf\<rparr>)])"

definition kv_used :: "(digest \<times> kv_object) list \<Rightarrow> nat" where
  "kv_used os = sum_list (map (length \<circ> obj_bytes \<circ> snd) os)"

lemma kv_rel_used:
  assumes "kv_rel st es B"
  shows "used_bytes st = kv_used (map (kv_obj B) es)"
proof -
  have "length (obj_data B b) = buf_size b" if "(k, b) \<in> set es" for k b
    using obj_data_length[OF objs_relD(2)[OF kv_relD(3)[OF assms] that]] .
  then have "map (length \<circ> obj_bytes \<circ> snd) (map (kv_obj B) es) = map (buf_size \<circ> snd) es"
    by (auto simp: kv_obj_def)
  then have "kv_used (map (kv_obj B) es) = sum_list (map (buf_size \<circ> snd) es)" unfolding kv_used_def by (simp only:)
  then show ?thesis using kv_relD(6)[OF assms] by simp
qed

lemma kv_rel_bound:
  assumes "kv_rel st es B"
  shows "max_entries st < 2 ^ 32" "length es \<le> max_entries st"
proof -
  obtain ns where "lru_rep (ents st) ns None" using kv_relD(1)[OF assms] by (auto simp: lru_open_def lru_rel_def)
  then show "max_entries st < 2 ^ 32" using core_repD(9)[OF lru_repD(1)] kv_relD(9)[OF assms] by simp
  show "length es \<le> max_entries st" using kv_relD(9,10)[OF assms] by simp
qed

lemma al_remove_absent: "map_of es k = None \<Longrightarrow> al_remove k es = es \<and> al_touch k es = es"
  by (simp add: al_touch_def) (force simp: al_remove_def map_of_eq_None_iff filter_id_conv)

text \<open>Committing under a new key.\<close>

lemma commit_absent:
  assumes rel: "kv_rel st es B" and k: "k = any_key (buf_id buf)" "map_of es k = None" "k \<noteq> kv_null"
    and buf: "digest_ok (buf_id buf)" "buf_size buf < 2 ^ 61" "buf_size buf \<le> length src"
    and room: "length es < max_entries st" "used_bytes st + buf_size buf < 2 ^ 63 - 1"
  shows "commit_new buf src st = Some (- EIO, st) \<or>
    (\<exists>st'. commit_new buf src st = Some (0, st') \<and> max_entries st' = max_entries st \<and>
      kv_view st' (map (kv_obj B) es @ [(k, \<lparr>obj_bytes = take (buf_size buf) src, obj_refcount = refcount buf, obj_flags = object_flags buf\<rparr>)]))"
proof -
  note R = kv_relD[OF rel]
  have n: "k \<notin> fst ` set es" using k(2) by (simp add: map_of_eq_None_iff)
  have ins: "al_insert (cache_size (ents st)) k v es = es @ [(k, v)]" for v using k(2) room(1) R(9) by (simp add: al_insert_def)
  from commit_new_ok[OF R(1-3) ins k(1) n k(3) buf R(5,6,8,9) room(1) kv_rel_bound(1)[OF rel] R(11) room(2)]
  show ?thesis
  proof (elim disjE exE conjE)
    fix st' B' a assume C: "commit_new buf src st = Some (0, st')" "kv_rel st' (es @ [(k, buf\<lparr>address := a\<rparr>)]) B'"
      "map (kv_obj B') es = map (kv_obj B) es" "obj_data B' (buf\<lparr>address := a\<rparr>) = take (buf_size buf) src" "max_entries st' = max_entries st"
    have "map (kv_obj B') (es @ [(k, buf\<lparr>address := a\<rparr>)]) =
      map (kv_obj B) es @ [(k, \<lparr>obj_bytes = take (buf_size buf) src, obj_refcount = refcount buf, obj_flags = object_flags buf\<rparr>)]"
      using C(3,4) by (simp add: kv_obj_def)
    then show ?thesis using C(1,5) kv_viewI[OF C(2)] by metis
  qed simp
qed

text \<open>
  Committing over an existing object: its memory is released before the new memory is allocated, so a
  failing allocation leaves the entry without memory.
\<close>

lemma commit_present:
  assumes rel: "kv_rel st (ks @ [(k, b)]) B" and k: "k = any_key (buf_id buf)" "k \<noteq> kv_null"
    and buf: "digest_ok (buf_id buf)" "buf_size buf < 2 ^ 61" "buf_size buf \<le> length src"
    and room: "used_bytes st + buf_size buf < 2 ^ 63 - 1"
  shows "\<exists>st1 st2. DoFree b st = Some st1 \<and> st2 = set_used (u64 (used_bytes st1 + (2 ^ 64 - buf_size b))) st1 \<and>
    (let st3 = st2\<lparr>entry_count := u32 (entry_count st2 + 4294967295)\<rparr> in
      entry_count st3 < max_entries st3 \<and> max_entries st3 = max_entries st \<and>
      (commit_new buf src st3 = Some (- EIO, st3) \<or>
       (\<exists>st'. commit_new buf src st3 = Some (0, st') \<and> max_entries st' = max_entries st \<and>
         kv_view st' (map (kv_obj B) ks @ [(k, \<lparr>obj_bytes = take (buf_size buf) src, obj_refcount = refcount buf, obj_flags = object_flags buf\<rparr>)]))))"
proof -
  note R = kv_relD[OF rel] and U = used_minus[OF rel, of k b] and bd = kv_rel_bound[OF rel]
  have n: "k \<notin> fst ` set ks" using R(4) by auto
  obtain st1 B' where F: "DoFree b st = Some st1" "mem_frame st st1" "mem_rel st1 B'" "objs_rel ks B'" "map (kv_obj B') ks = map (kv_obj B) ks"
    using DoFree_entry[of st B ks k b "[]"] R(2,3) by auto
  note M = mem_frameD[OF F(2)]
  define st2 where "st2 = set_used (u64 (used_bytes st1 + (2 ^ 64 - buf_size b))) st1"
  define st3 where "st3 = st2\<lparr>entry_count := u32 (entry_count st2 + 4294967295)\<rparr>"
  have used: "used_bytes st3 = sum_list (map (buf_size \<circ> snd) ks)" using U R(6) M(2) by (simp add: st3_def st2_def)
  have cnt: "entry_count st3 = length ks" using u32_pred[of "Suc (length ks)"] R(8) M(3) bd by (simp add: st3_def st2_def)
  have S: "ents st3 = ents st" "max_entries st3 = max_entries st" "mem_rel st3 B'" using M F(3) by (simp_all add: st3_def st2_def)
  have "filter (\<lambda>e. fst e \<noteq> k) ks = ks" using n by (auto simp: filter_id_conv)
  moreover have "map_of (ks @ [(k, b)]) k = Some b" using n by (simp add: map_of_eq_None_iff[symmetric] map_add_def)
  ultimately have ins: "al_insert (cache_size (ents st3)) k v (ks @ [(k, b)]) = ks @ [(k, v)]" for v by (simp add: al_insert_def al_remove_def)
  have open3: "lru_open (ents st3) (ks @ [(k, b)]) None" and null: "empty_key (cache (ents st3)) = kv_null"
    and mx: "max_entries st3 = cache_size (ents st3)" "length ks < max_entries st3" "max_entries st3 < 2 ^ 32"
    and keys: "\<forall>k \<in> fst ` set ks. k \<noteq> kv_null" and rm: "used_bytes st3 + buf_size buf < 2 ^ 63 - 1"
    using S R(1,5,9,11) bd used U(2) R(6) room by auto
  from commit_new_ok[OF open3 S(3) F(4) ins k(1) n k(2) buf null used cnt mx keys rm]
  have "commit_new buf src st3 = Some (- EIO, st3) \<or>
       (\<exists>st'. commit_new buf src st3 = Some (0, st') \<and> max_entries st' = max_entries st \<and>
         kv_view st' (map (kv_obj B) ks @ [(k, \<lparr>obj_bytes = take (buf_size buf) src, obj_refcount = refcount buf, obj_flags = object_flags buf\<rparr>)]))"
  proof (elim disjE exE conjE)
    fix st' B'' a assume C: "commit_new buf src st3 = Some (0, st')" "kv_rel st' (ks @ [(k, buf\<lparr>address := a\<rparr>)]) B''"
      "map (kv_obj B'') ks = map (kv_obj B') ks" "obj_data B'' (buf\<lparr>address := a\<rparr>) = take (buf_size buf) src" "max_entries st' = max_entries st3"
    have "map (kv_obj B'') (ks @ [(k, buf\<lparr>address := a\<rparr>)]) =
      map (kv_obj B) ks @ [(k, \<lparr>obj_bytes = take (buf_size buf) src, obj_refcount = refcount buf, obj_flags = object_flags buf\<rparr>)]"
      using C(3,4) F(5) by (simp add: kv_obj_def)
    then show ?thesis using C(1,5) S(2) kv_viewI[OF C(2)] by metis
  qed simp
  then show ?thesis using F(1) cnt mx(2) S(2) unfolding Let_def st3_def st2_def by auto
qed

text \<open>The allocator has no room for an object of \<open>n\<close> bytes; a commit that returns \<open>-EIO\<close> has just met this.\<close>

definition kv_no_memory :: "nat \<Rightarrow> kv_store \<Rightarrow> bool" where
  "kv_no_memory n st \<longleftrightarrow> (case allocator_kind st of
     kMallocLibc \<Rightarrow> libc_malloc st n (libc st) = None
   | kMallocHeap \<Rightarrow> (case kheap st of None \<Rightarrow> False
       | Some h \<Rightarrow> u64 (gauge h + u64 (RoundUp8 (u64 (n + sizeof_AllocHeader)) + sizeof_Tag)) > heap_capacity h))"

lemma DoMalloc_fails: "DoMalloc buf st = Some (r, buf', st') \<Longrightarrow> r < 0 \<Longrightarrow> st' = st \<and> kv_no_memory (buf_size buf) st"
  by (auto simp: DoMalloc_def kv_no_memory_def heap_Allocate_def Let_def ENOMEM_def assert_that_def
    split: if_splits option.splits kv_allocator.splits Option.bind_splits)

lemma commit_new_fails: "commit_new buf src st = Some (- EIO, st') \<Longrightarrow> st' = st \<and> kv_no_memory (buf_size buf) st"
  by (auto simp: commit_new_def EIO_def Let_def split: if_splits Option.bind_splits dest: DoMalloc_fails)

lemma kv_Commit_ok:
  assumes v: "kv_view st os" and i: "kv_key_ok (buf_id buf)" and n: "buf_size buf < 2 ^ 61" "buf_size buf \<le> length src"
    and room: "kv_used os + buf_size buf < 2 ^ 63 - 1"
  shows "\<exists>r st'. kv_Commit buf src st = Some (r, st') \<and> kv_frame st st' \<and>
    (r = 0 \<and> kv_view st' (committed buf src os) \<or>
     r = - ENFILE \<and> map_of os (any_key (buf_id buf)) = None \<and> length os = max_entries st \<and> kv_view st' os \<or>
     r = - EIO \<and> kv_no_memory (buf_size buf) st' \<and> (map_of os (any_key (buf_id buf)) = None \<longrightarrow> kv_view st' os))"
proof -
  let ?k = "any_key (buf_id buf)"
  obtain es0 B0 where V: "kv_rel st es0 B0" "os = map (kv_obj B0) es0" using v by (auto simp: kv_view_def)
  have k: "digest_ok (buf_id buf)" "?k \<noteq> kv_null" using i kv_key_okD[OF i] by (simp_all add: kv_key_ok_def)
  obtain r0 sc es B where C: "CompactMemory st = Some (r0, sc)" "kv_rel sc es B" "os = map (kv_obj B) es" "max_entries sc = max_entries st"
    using CompactMemory_ok[OF V(1)] V(2) by metis
  define st1 where "st1 = sc\<lparr>kcounters := (kcounters sc)\<lparr>kc_n_commit := kc_n_commit (kcounters sc) + 1\<rparr>\<rparr>"
  have r1: "kv_rel st1 es B" using C(2) by (simp add: st1_def)
  obtain s where s: "lru_Lookup ?k True (ents st1) = Some (map_of es ?k, s)" "kv_rel (st1\<lparr>ents := s\<rparr>) (al_touch ?k es) B"
    using kv_lookup[OF r1 k(2), of True] by auto
  define st2 where "st2 = st1\<lparr>ents := s\<rparr>"
  have m: "max_entries st2 = max_entries st" and u: "used_bytes st2 = kv_used os"
    using C(3,4) kv_rel_used[OF r1] by (simp_all add: st2_def st1_def)
  have L: "length os = length es" "map_of os ?k = map_option (snd \<circ> kv_obj B \<circ> Pair ?k) (map_of es ?k)"
    using C(3) by (auto simp: map_of_obj kv_obj_def comp_def)
  show ?thesis
  proof (cases "map_of es ?k")
    case None
    have r2: "kv_rel st2 es B" using s(2) al_remove_absent[OF None] by (simp add: st2_def)
    define mem where "mem = MemoryBuffer_new\<lparr>refcount := refcount buf, object_flags := object_flags buf, buf_id := buf_id buf, buf_size := buf_size buf\<rparr>"
    have K: "kv_Commit buf src st = (if entry_count st2 = max_entries st2 then Some (- ENFILE, st2) else commit_new mem src st2)"
      using C(1) s(1) None by (simp add: kv_Commit_def DoCommit_def st2_def st1_def mem_def Let_def)
    show ?thesis
    proof (cases "entry_count st2 = max_entries st2")
      case True
      then show ?thesis using K m L None kv_relD(8)[OF r2] kv_viewI[OF r2] C(3) by (simp add: kv_frame_def)
    next
      case False
      then have lt: "length es < max_entries st2" using kv_relD(8)[OF r2] kv_rel_bound(2)[OF r2] by simp
      have "committed buf src os = map (kv_obj B) es @ [(?k, \<lparr>obj_bytes = take (buf_size mem) src, obj_refcount = refcount mem, obj_flags = object_flags mem\<rparr>)]"
        using None C(3) L al_remove_absent[of es ?k] by (simp add: committed_def Let_def mem_def al_remove_obj)
      moreover have "any_key (buf_id mem) = ?k" "digest_ok (buf_id mem)" "buf_size mem = buf_size buf" using k by (simp_all add: mem_def)
      ultimately show ?thesis using commit_absent[OF r2, of ?k mem src] None k n room u lt K False m kv_viewI[OF r2] C(3) commit_new_fails[of mem src st2 st2]
        by (auto simp: kv_frame_def)
    qed
  next
    case (Some b)
    obtain us vs where E: "es = us @ (?k, b) # vs" "al_remove ?k es = us @ vs" "al_touch ?k es = us @ vs @ [(?k, b)]"
      using es_split[OF kv_relD(4)[OF r1] Some] by metis
    have r2: "kv_rel st2 ((us @ vs) @ [(?k, b)]) B" using s(2) E(3) by (simp add: st2_def)
    define mem where "mem = b\<lparr>object_flags := object_flags buf, buf_id := buf_id buf, buf_size := buf_size buf\<rparr>"
    have P: "any_key (buf_id mem) = ?k" "digest_ok (buf_id mem)" "buf_size mem = buf_size buf" "refcount mem = refcount b"
      "object_flags mem = object_flags buf" using k by (simp_all add: mem_def)
    have D: "committed buf src os = map (kv_obj B) (us @ vs) @ [(?k, \<lparr>obj_bytes = take (buf_size mem) src, obj_refcount = refcount mem, obj_flags = object_flags mem\<rparr>)]"
      using Some C(3) L E(2) P by (simp add: committed_def Let_def al_remove_obj kv_obj_def)
    obtain s1 s2 s3 where F: "DoFree b st2 = Some s1" "s2 = set_used (u64 (used_bytes s1 + (2 ^ 64 - buf_size b))) s1"
      "s3 = s2\<lparr>entry_count := u32 (entry_count s2 + 4294967295)\<rparr>"
      "entry_count s3 < max_entries s3" "max_entries s3 = max_entries st2"
      "commit_new mem src s3 = Some (- EIO, s3) \<or> (\<exists>st'. commit_new mem src s3 = Some (0, st') \<and> max_entries st' = max_entries st2 \<and> kv_view st' (committed buf src os))"
      using commit_present[OF r2, of mem src] k n room u P D unfolding Let_def by metis
    have "kv_Commit buf src st = commit_new mem src s3"
      using C(1) s(1) Some F(1-4) by (simp add: kv_Commit_def DoCommit_def st2_def st1_def mem_def Let_def)
    then show ?thesis using F(5,6) m L Some P(3) commit_new_fails[of mem src s3 s3] by (auto simp: kv_frame_def)
  qed
qed

section \<open>Shrinking\<close>

text \<open>
  Objects are visited from the least recently used on; unreferenced ones are dropped as long as the
  store holds more than the requested number of bytes.
\<close>

fun shrunk :: "nat \<Rightarrow> nat \<Rightarrow> (digest \<times> kv_object) list \<Rightarrow> (digest \<times> kv_object) list" where
  "shrunk sz n [] = []"
| "shrunk sz n ((k, ob) # os) =
     (if n \<le> sz then (k, ob) # os
      else if obj_refcount ob > 0 then (k, ob) # shrunk sz n os
      else shrunk sz (n - length (obj_bytes ob)) os)"

text \<open>The relation of a store while its entries are scanned: the scan has passed the first \<open>i\<close> entries.\<close>

definition kv_scan :: "kv_store \<Rightarrow> (digest \<times> memory_buffer) list \<Rightarrow> kv_memory \<Rightarrow> nat \<Rightarrow> bool" where
  "kv_scan st es B i \<longleftrightarrow> lru_rel (ents st) es (Some i) \<and> \<not> paused (ents st) \<and> mem_rel st B \<and> objs_rel es B \<and>
     (\<forall>k \<in> fst ` set es. k \<noteq> kv_null) \<and> empty_key (cache (ents st)) = kv_null \<and>
     used_bytes st = sum_list (map (buf_size \<circ> snd) es) \<and> used_bytes st < 2 ^ 63 \<and>
     entry_count st = length es \<and> max_entries st = cache_size (ents st)"

lemma scan_step:
  assumes sc: "kv_scan st (us @ (k, b) # vs) B (Suc (length us))"
  shows "FilterGet (ents st) = Some (k, b)"
    "\<exists>s st1 B'. FilterDelete (ents st) = Some s \<and>
      DoFree b (set_used (u64 (used_bytes st + (2 ^ 64 - buf_size b))) (st\<lparr>entry_count := entry_count st - 1, ents := s, kcounters := c\<rparr>)) = Some st1 \<and>
      kv_scan st1 (us @ vs) B' (length us) \<and> map (kv_obj B') (us @ vs) = map (kv_obj B) (us @ vs) \<and>
      used_bytes st1 = used_bytes st - buf_size b \<and> max_entries st1 = max_entries st"
proof -
  let ?es = "us @ (k, b) # vs"
  note S = sc[unfolded kv_scan_def]
  show "FilterGet (ents st) = Some (k, b)" using filter_get_ok[of "ents st" ?es "length us"] S by simp
  obtain s where s: "FilterDelete (ents st) = Some s" "lru_rel s (us @ vs) (Some (length us))" "lru_frame (ents st) s"
    using filter_delete_ok[of "ents st" ?es "length us"] S by auto
  define n where "n = u64 (used_bytes st + (2 ^ 64 - buf_size b))"
  have n: "n = used_bytes st - buf_size b" "n = sum_list (map (buf_size \<circ> snd) (us @ vs))"
    using S u64_minus[of "buf_size b" "used_bytes st"] by (auto simp: n_def)
  define st0 where "st0 = set_used n (st\<lparr>entry_count := entry_count st - 1, ents := s, kcounters := c\<rparr>)"
  have "mem_rel st0 B" "objs_rel ?es B" using S by (simp_all add: st0_def)
  then obtain st1 B' where F: "DoFree b st0 = Some st1" "mem_frame st0 st1" "mem_rel st1 B'" "objs_rel (us @ vs) B'"
    "map (kv_obj B') (us @ vs) = map (kv_obj B) (us @ vs)" using DoFree_entry by blast
  note M = mem_frameD[OF F(2)]
  have "kv_scan st1 (us @ vs) B' (length us)"
    using S s(2,3) F(3,4) M n unfolding kv_scan_def by (simp add: st0_def lru_frame_def ball_Un)
  moreover have "used_bytes st1 = used_bytes st - buf_size b" "max_entries st1 = max_entries st" using M n by (simp_all add: st0_def)
  ultimately show "\<exists>s st1 B'. FilterDelete (ents st) = Some s \<and>
      DoFree b (set_used (u64 (used_bytes st + (2 ^ 64 - buf_size b))) (st\<lparr>entry_count := entry_count st - 1, ents := s, kcounters := c\<rparr>)) = Some st1 \<and>
      kv_scan st1 (us @ vs) B' (length us) \<and> map (kv_obj B') (us @ vs) = map (kv_obj B) (us @ vs) \<and>
      used_bytes st1 = used_bytes st - buf_size b \<and> max_entries st1 = max_entries st"
    using s(1) F(1,5) unfolding st0_def n_def by blast
qed

lemma shrink_loop_ok:
  assumes "kv_scan st (us @ vs) B (length us)"
  shows "\<exists>st' es' B' j. shrink_loop sz st = Some st' \<and> kv_scan st' es' B' j \<and> max_entries st' = max_entries st \<and>
    map (kv_obj B') es' = map (kv_obj B) us @ shrunk sz (used_bytes st) (map (kv_obj B) vs)"
  using assms
proof (induction vs arbitrary: st us B)
  case Nil
  then obtain s where s: "FilterNext (ents st) = Some (False, s)" "lru_rel s us (Some 0)" "lru_frame (ents st) s"
    using filter_next_ok[of "ents st" us "length us"] by (auto simp: kv_scan_def)
  have "shrink_loop sz st = Some (st\<lparr>ents := s\<rparr>)" using s(1) by (simp add: shrink_loop.simps)
  moreover have "kv_scan (st\<lparr>ents := s\<rparr>) us B 0" using Nil s(2,3) by (simp add: kv_scan_def lru_frame_def)
  ultimately show ?case by auto
next
  case (Cons e vs)
  obtain k b where e: "e = (k, b)" by (cases e)
  let ?es = "us @ (k, b) # vs"
  obtain s where s: "FilterNext (ents st) = Some (True, s)" "lru_rel s ?es (Some (Suc (length us)))" "lru_frame (ents st) s"
    using filter_next_ok[of "ents st" ?es "length us"] Cons.prems e by (auto simp: kv_scan_def)
  define st1 where "st1 = st\<lparr>ents := s\<rparr>"
  have sc: "kv_scan st1 ?es B (Suc (length us))" using Cons.prems s(2,3) e by (simp add: st1_def kv_scan_def lru_frame_def)
  have b: "length (obj_data B b) = buf_size b" using obj_data_length[OF objs_relD(2)[of "?es" B k b]] sc by (simp add: kv_scan_def)
  note step = scan_step[OF sc]
  consider "used_bytes st \<le> sz" | "\<not> used_bytes st \<le> sz" "refcount b > 0" | "\<not> used_bytes st \<le> sz" "refcount b = 0" by fastforce
  then show ?case
  proof cases
    case 1
    then have "shrink_loop sz st = Some st1" using s(1) by (simp add: shrink_loop.simps[of _ st] st1_def)
    then show ?thesis using sc 1 e by (auto simp: st1_def kv_obj_def intro!: exI[of _ ?es] exI[of _ B])
  next
    case 2
    have "shrink_loop sz st = shrink_loop sz st1" using s(1) 2 step(1) by (simp add: shrink_loop.simps[of _ st] st1_def Let_def)
    then show ?thesis using Cons.IH[of st1 "us @ [(k, b)]" B] sc 2 e by (simp add: st1_def kv_obj_def)
  next
    case 3
    define c where "c = (kcounters st1)\<lparr>kc_sz_shrunk := kc_sz_shrunk (kcounters st1) + int (buf_size b)\<rparr>"
    obtain s' st2 B' where D: "FilterDelete (ents st1) = Some s'"
      "DoFree b (set_used (u64 (used_bytes st1 + (2 ^ 64 - buf_size b))) (st1\<lparr>entry_count := entry_count st1 - 1, ents := s', kcounters := c\<rparr>)) = Some st2"
      "kv_scan st2 (us @ vs) B' (length us)" "map (kv_obj B') (us @ vs) = map (kv_obj B) (us @ vs)"
      "used_bytes st2 = used_bytes st1 - buf_size b" "max_entries st2 = max_entries st1" using step(2)[of c] by blast
    have ne: "entry_count st \<noteq> 0" using sc by (simp add: kv_scan_def st1_def)
    have "shrink_loop sz st = shrink_loop sz st2"
      using s(1) 3 step(1) D(1,2) ne by (simp add: shrink_loop.simps[of _ st] st1_def Let_def c_def)
    moreover have "shrunk sz (used_bytes st) (map (kv_obj B) ((k, b) # vs)) = shrunk sz (used_bytes st2) (map (kv_obj B) vs)"
      using 3 b D(5) by (simp add: st1_def kv_obj_def)
    moreover have "map (kv_obj B') us = map (kv_obj B) us" "map (kv_obj B') vs = map (kv_obj B) vs" using D(4) by simp_all
    ultimately show ?thesis using Cons.IH[OF D(3)] D(6) e by (simp only: st1_def) simp
  qed
qed

lemma shrunk_used_le: "kv_used os \<le> sz \<Longrightarrow> shrunk sz (kv_used os) os = os"
  by (cases os) auto

lemma ShrinkTo_ok:
  assumes v: "kv_view st os"
  shows "\<exists>st'. ShrinkTo sz st = Some (kv_used (shrunk sz (kv_used os) os) \<le> sz, st') \<and>
    kv_view st' (shrunk sz (kv_used os) os) \<and> kv_frame st st'"
proof -
  obtain es B where V: "kv_rel st es B" "os = map (kv_obj B) es" using v by (auto simp: kv_view_def)
  define st1 where "st1 = st\<lparr>kcounters := (kcounters st)\<lparr>kc_n_shrinkto := kc_n_shrinkto (kcounters st) + 1\<rparr>\<rparr>"
  have r: "kv_rel st1 es B" using V(1) by (simp add: st1_def)
  have u: "used_bytes st1 = kv_used os" using kv_rel_used[OF r] V(2) by simp
  note R = kv_relD[OF r]
  show ?thesis
  proof (cases "used_bytes st1 \<le> sz")
    case True
    then have "ShrinkTo sz st = Some (True, st1)" by (simp add: ShrinkTo_def st1_def)
    then show ?thesis using True u kv_viewI[OF r] V(2) shrunk_used_le[of os sz] by (simp add: kv_frame_def st1_def)
  next
    case False
    obtain s where s: "FilterBegin (ents st1) = Some s" "lru_rel s es (Some 0)" "lru_frame (ents st1) s"
      using filter_begin_ok[of "ents st1" es] R(1) by (auto simp: lru_open_def)
    have "kv_scan (st1\<lparr>ents := s\<rparr>) ([] @ es) B (length [])"
      using r s(2,3) by (simp add: kv_scan_def kv_rel_def lru_frame_def lru_open_def)
    then obtain st2 es' B' j where L: "shrink_loop sz (st1\<lparr>ents := s\<rparr>) = Some st2" "kv_scan st2 es' B' j" "max_entries st2 = max_entries st1"
      "map (kv_obj B') es' = shrunk sz (used_bytes st1) os" using shrink_loop_ok[of "st1\<lparr>ents := s\<rparr>" "[]" es B sz] V(2) by auto
    obtain s2 where s2: "FilterEnd (ents st2) = Some s2" "lru_rel s2 es' None" "lru_frame (ents st2) s2"
      using filter_end_ok[of "ents st2" es' j] L(2) unfolding kv_scan_def by blast
    have r2: "kv_rel (st2\<lparr>ents := s2\<rparr>) es' B'"
      using L(2) s2(2,3) by (simp add: kv_scan_def kv_rel_def lru_frame_def lru_open_def)
    have "ShrinkTo sz st = Some (used_bytes st2 \<le> sz, st2\<lparr>ents := s2\<rparr>)"
      using False s(1) L(1) s2(1) by (simp add: ShrinkTo_def st1_def Let_def)
    then show ?thesis using kv_viewI[OF r2] kv_rel_used[OF r2] L(3,4) u by (simp add: kv_frame_def st1_def)
  qed
qed

lemma shrunk_protects:
  "(k, ob) \<in> set os \<Longrightarrow> obj_refcount ob > 0 \<Longrightarrow> (k, ob) \<in> set (shrunk sz n os)"
  by (induction sz n os rule: shrunk.induct) auto

lemma shrunk_subset: "subseq (shrunk sz n os) os"
  by (induction sz n os rule: shrunk.induct) auto

lemma shrunk_reaches:
  assumes "kv_used os \<le> n" "kv_used (shrunk sz n os) + (n - kv_used os) > sz"
  shows "\<forall>(k, ob) \<in> set (shrunk sz n os). obj_refcount ob > 0"
  using assms
proof (induction sz n os rule: shrunk.induct)
  case (2 sz n k ob os)
  then show ?case by (auto simp: kv_used_def split: if_splits)
qed simp

text \<open>
  The store after a walk over its \<open>m\<close> least recently used objects.  \<open>shrunk\<close> is the shortest walk that
  reaches the requested size, or the walk over the whole store.
\<close>

definition evict_oldest :: "nat \<Rightarrow> (digest \<times> kv_object) list \<Rightarrow> (digest \<times> kv_object) list" where
  "evict_oldest m os = filter (\<lambda>(k, ob). obj_refcount ob > 0) (take m os) @ drop m os"

lemma evict_oldest_0 [simp]: "evict_oldest 0 os = os"
  by (simp add: evict_oldest_def)

lemma evict_oldest_Suc [simp]:
  "evict_oldest (Suc m) ((k, ob) # os) = (if obj_refcount ob > 0 then (k, ob) # evict_oldest m os else evict_oldest m os)"
  by (simp add: evict_oldest_def)

lemma shrunk_oldest:
  assumes "kv_used os \<le> n"
  shows "\<exists>m \<le> length os. shrunk sz n os = evict_oldest m os \<and>
    (\<forall>i < m. kv_used (evict_oldest i os) + (n - kv_used os) > sz) \<and>
    (m < length os \<longrightarrow> kv_used (evict_oldest m os) + (n - kv_used os) \<le> sz)"
  using assms
proof (induction sz n os rule: shrunk.induct)
  case (1 sz n)
  then show ?case by simp
next
  case (2 sz n k ob os)
  show ?case
  proof (cases "n \<le> sz")
    case True
    then show ?thesis using "2.prems" by (intro exI[of _ 0]) simp
  next
    case False
    let ?n = "if obj_refcount ob > 0 then n else n - length (obj_bytes ob)"
    have le: "kv_used os \<le> ?n" "\<not> n \<le> sz" using "2.prems" False by (auto simp: kv_used_def)
    have "\<exists>m \<le> length os. shrunk sz ?n os = evict_oldest m os \<and>
      (\<forall>i < m. kv_used (evict_oldest i os) + (?n - kv_used os) > sz) \<and>
      (m < length os \<longrightarrow> kv_used (evict_oldest m os) + (?n - kv_used os) \<le> sz)"
      using "2.IH" le by (cases "obj_refcount ob > 0") simp_all
    then obtain m where m: "m \<le> length os" "shrunk sz ?n os = evict_oldest m os"
      "\<forall>i < m. kv_used (evict_oldest i os) + (?n - kv_used os) > sz"
      "m < length os \<longrightarrow> kv_used (evict_oldest m os) + (?n - kv_used os) \<le> sz" by blast
    have step: "kv_used (evict_oldest (Suc i) ((k, ob) # os)) + (n - kv_used ((k, ob) # os)) =
      kv_used (evict_oldest i os) + (?n - kv_used os)" for i
      using "2.prems" by (auto simp: kv_used_def)
    have "kv_used (evict_oldest i ((k, ob) # os)) + (n - kv_used ((k, ob) # os)) > sz" if "i < Suc m" for i
      using that False "2.prems" m(3) step by (cases i) auto
    then show ?thesis using m step le(2) by (intro exI[of _ "Suc m"]) auto
  qed
qed

section \<open>Construction\<close>

lemma MemoryKvStore_new_ok:
  assumes n: "64 dvd n" "128 \<le> n" "n \<le> 2 ^ 31" "tparams_ok tp" "0 < sz" "sz * n < 2 ^ 32"
    and alloc: "alloc = kMallocLibc \<and> malloc_ok mal \<or> alloc = kMallocHeap \<and> 1024 < cap \<and> 8 dvd cap \<and> cap < 2 ^ 62 \<and> length fresh = cap"
  shows "\<exists>st. MemoryKvStore_new sz tp mem fresh mal n alloc cap = Some st \<and> kv_view st [] \<and> max_entries st = n \<and>
    allocator_kind st = alloc \<and> libc_malloc st = mal"
proof -
  obtain c :: kv_entries where c: "LruCache_new sz tp mem n kv_null hasher_any = Some c" "lru_rel c [] None" "\<not> paused c" "cache_size c = n"
    "empty_key (cache c) = kv_null" using LruCache_new_ok[OF n, of mem kv_null hasher_any] by blast
  have objs: "objs_rel [] Map.empty" by (simp add: objs_rel_def)
  from alloc show ?thesis
  proof (elim disjE conjE)
    assume A: "alloc = kMallocLibc" "malloc_ok mal"
    define st where "st = \<lparr>allocator_kind = kMallocLibc, used_bytes = 0, entry_count = 0, max_entries = n, ents = c, kheap = None,
           libc = Map.empty, libc_malloc = mal, kcounters = kv_counters_new\<rparr>"
    have "kv_rel st [] Map.empty" using c A objs by (simp add: st_def kv_rel_def lru_open_def mem_rel_def libc_mem_def)
    from kv_viewI[OF this] show ?thesis using A c by (simp add: MemoryKvStore_new_def st_def)
  next
    assume A: "alloc = kMallocHeap" "1024 < cap" "8 dvd cap" "cap < 2 ^ 62" "length fresh = cap"
    obtain h where h: "MallocHeap_new cap fresh = Some h" "heap_rep h []" using heap_new_ok[OF A(2-5)] by blast
    define st where "st = \<lparr>allocator_kind = kMallocHeap, used_bytes = 0, entry_count = 0, max_entries = n, ents = c, kheap = Some h,
           libc = Map.empty, libc_malloc = mal, kcounters = kv_counters_new\<rparr>"
    have "heap_mem h Map.empty" using h(2) by (auto simp: heap_mem_def hblocks_def intro!: exI[of _ "[]"])
    then have "kv_rel st [] Map.empty" using c objs by (simp add: st_def kv_rel_def lru_open_def mem_rel_def)
    from kv_viewI[OF this] show ?thesis using A c h by (simp add: MemoryKvStore_new_def st_def)
  qed
qed

section \<open>Consequences\<close>

lemma map_of_committed:
  "map_of (committed buf src os) (any_key (buf_id buf)) = Some \<lparr>obj_bytes = take (buf_size buf) src,
     obj_refcount = (case map_of os (any_key (buf_id buf)) of Some ob \<Rightarrow> obj_refcount ob | None \<Rightarrow> refcount buf), obj_flags = object_flags buf\<rparr>"
  "k \<noteq> any_key (buf_id buf) \<Longrightarrow> map_of (committed buf src os) k = map_of os k"
proof -
  have "map_of (al_remove j os) j = None" for j by (force simp: al_remove_def map_of_eq_None_iff)
  then show "map_of (committed buf src os) (any_key (buf_id buf)) = Some \<lparr>obj_bytes = take (buf_size buf) src,
     obj_refcount = (case map_of os (any_key (buf_id buf)) of Some ob \<Rightarrow> obj_refcount ob | None \<Rightarrow> refcount buf), obj_flags = object_flags buf\<rparr>"
    by (simp add: committed_def Let_def map_add_def)
  assume k: "k \<noteq> any_key (buf_id buf)"
  then have "map_of (al_remove (any_key (buf_id buf)) os) k = map_of os k" by (induction os) (auto simp: al_remove_def)
  then show "map_of (committed buf src os) k = map_of os k" using k by (simp add: committed_def Let_def map_add_def split: option.split)
qed

lemma view_distinct: "kv_view st os \<Longrightarrow> distinct (map fst os)"
proof -
  assume "kv_view st os"
  then obtain es B where "kv_rel st es B" "os = map (kv_obj B) es" by (auto simp: kv_view_def)
  moreover have "map fst (map (kv_obj B) es) = map fst es" by (simp add: kv_obj_def)
  ultimately show ?thesis using kv_relD(4) by metis
qed

lemma view_used: "kv_view st os \<Longrightarrow> GetUsed st = kv_used os"
  using kv_rel_used by (auto simp: GetUsed_def kv_view_def)

end
