(* ===== verification/KvProps.thy ===== *)
theory KvProps
  imports KvSpec
begin

text \<open>
  The properties of the key-value store: what is committed can be read, references protect objects,
  shrinking is bounded and ordered, and a failed overwrite leaves a dangling entry.
\<close>

section \<open>Properties\<close>

definition kv_reads :: "kv_store \<Rightarrow> digest \<Rightarrow> nat list option \<Rightarrow> bool" where
  "kv_reads st i c \<longleftrightarrow> (\<forall>n off. \<exists>st'. kv_Read i n off st = Some (case c of
      None \<Rightarrow> (- ENOENT, [], st')
    | Some bs \<Rightarrow> (int (length (take n (drop off bs))), take n (drop off bs), st')))"

lemma view_reads: "kv_view st os \<Longrightarrow> kv_key_ok i \<Longrightarrow> kv_reads st i (map_option obj_bytes (map_of os (any_key i)))"
  unfolding kv_reads_def using kv_Read_ok by (fastforce split: option.splits)

definition kv_demo_params :: "(digest, memory_buffer cache_entry) tparams" where
  "kv_demo_params = \<lparr>sizeof_key = 24, sizeof_value = 64, default_key = kv_null, default_value = \<lparr>list_entry = 0, entry_value = MemoryBuffer_new\<rparr>\<rparr>"

definition kv_demo_id :: "nat \<Rightarrow> digest" where
  "kv_demo_id b = \<lparr>bytes = replicate 20 b, algorithm = kSha1, suffix = kSuffixNone\<rparr>"

definition kv_demo_buf :: "nat \<Rightarrow> nat \<Rightarrow> memory_buffer" where
  "kv_demo_buf b n = MemoryBuffer_new\<lparr>buf_size := n, buf_id := kv_demo_id b\<rparr>"

lemma kv_demo_key: "b < 256 \<Longrightarrow> kv_key_ok (kv_demo_id b)"
  by (simp add: kv_key_ok_def kv_demo_id_def digest_ok_def kDigestSizes_def alg_index_def)

text \<open>The parameters of a store do not change.\<close>

definition kv_env :: "kv_store \<Rightarrow> kv_store \<Rightarrow> bool" where
  "kv_env st st' \<longleftrightarrow> allocator_kind st' = allocator_kind st \<and> libc_malloc st' = libc_malloc st \<and> max_entries st' = max_entries st"

lemma kv_env_steps:
  "DoMalloc buf st = Some (r, buf', st') \<Longrightarrow> kv_env st st'"
  "kv_copy_in a src st = Some st' \<Longrightarrow> kv_env st st'"
  "DoFree buf st = Some st' \<Longrightarrow> kv_env st st'"
  "CompactMemory st = Some (b, st') \<Longrightarrow> kv_env st st'"
  unfolding kv_env_def
  by (auto simp: DoMalloc_def kv_copy_in_def DoFree_def CompactMemory_def Let_def
    split: if_splits option.splits kv_allocator.splits Option.bind_splits)

lemma commit_new_env:
  assumes "commit_new buf src st = Some (r, st')"
  shows "kv_env st st'"
proof -
  obtain rc mem st1 where m: "DoMalloc buf st = Some (rc, mem, st1)" using assms by (auto simp: commit_new_def bind_eq_Some_conv)
  note e1 = kv_env_steps(1)[OF m]
  show ?thesis
  proof (cases "rc < 0")
    case True
    then show ?thesis using assms m e1 by (simp add: commit_new_def)
  next
    case False
    then obtain st2 x es where "kv_copy_in (address mem) (take (buf_size mem) src) st1 = Some st2"
      "lru_Insert (any_key (buf_id mem)) mem (ents st2) = Some (x, es)"
      "st' = (let st = set_used (u64 (used_bytes st2 + buf_size mem)) (st2\<lparr>ents := es, entry_count := u32 (entry_count st2 + 1)\<rparr>)
         in st\<lparr>kcounters := (kcounters st)\<lparr>kc_sz_committed := kc_sz_committed (kcounters st) + int (buf_size mem)\<rparr>\<rparr>)"
      using assms m by (auto simp: commit_new_def bind_eq_Some_conv assert_that_def Let_def)
    then show ?thesis using e1 kv_env_steps(2) by (auto simp: kv_env_def set_used_def Let_def)
  qed
qed

lemma kv_Commit_env:
  assumes "kv_Commit buf src st = Some (r, st')"
  shows "kv_env st st'"
proof -
  obtain x st1 found es where c: "CompactMemory st = Some (x, st1)" "lru_Lookup (any_key (buf_id buf)) True (ents st1) = Some (found, es)"
    using assms by (auto simp: kv_Commit_def DoCommit_def bind_eq_Some_conv Let_def)
  note e1 = kv_env_steps(4)[OF c(1)]
  define st2 where "st2 = st1\<lparr>kcounters := (kcounters st1)\<lparr>kc_n_commit := kc_n_commit (kcounters st1) + 1\<rparr>, ents := es\<rparr>"
  have e2: "kv_env st1 st2" by (simp add: kv_env_def st2_def)
  have "\<exists>mem s. kv_env st2 s \<and> (if entry_count s = max_entries s then Some (- ENFILE, s) else commit_new mem src s) = Some (r, st')"
  proof (cases found)
    case None
    define mem where "mem = MemoryBuffer_new\<lparr>refcount := refcount buf, object_flags := object_flags buf, buf_id := buf_id buf, buf_size := buf_size buf\<rparr>"
    have "(if entry_count st2 = max_entries st2 then Some (- ENFILE, st2) else commit_new mem src st2) = Some (r, st')"
      using assms c None by (simp add: kv_Commit_def DoCommit_def Let_def st2_def mem_def split: if_splits)
    then show ?thesis by (intro exI[of _ mem] exI[of _ st2]) (simp add: kv_env_def)
  next
    case (Some b)
    then obtain s where s: "DoFree b st2 = Some s" using assms c by (auto simp: kv_Commit_def DoCommit_def Let_def st2_def bind_eq_Some_conv)
    define s2 where "s2 = set_used (u64 (used_bytes s + (2 ^ 64 - buf_size b))) s"
    define s3 where "s3 = s2\<lparr>entry_count := u32 (entry_count s2 + 4294967295)\<rparr>"
    define mem where "mem = b\<lparr>object_flags := object_flags buf, buf_id := buf_id buf, buf_size := buf_size buf\<rparr>"
    have "(if entry_count s3 = max_entries s3 then Some (- ENFILE, s3) else commit_new mem src s3) = Some (r, st')"
      using assms c s Some by (simp add: kv_Commit_def DoCommit_def Let_def st2_def mem_def s3_def s2_def split: if_splits)
    moreover have "kv_env st2 s3" using kv_env_steps(3)[OF s] by (simp add: kv_env_def set_used_def s3_def s2_def)
    ultimately show ?thesis by (intro exI[of _ mem] exI[of _ s3]) simp
  qed
  then obtain mem s where "kv_env st2 s" "(if entry_count s = max_entries s then Some (- ENFILE, s) else commit_new mem src s) = Some (r, st')" by blast
  moreover have "kv_env s st'" using calculation(2) commit_new_env[of mem src s r st'] by (auto simp: kv_env_def split: if_splits)
  ultimately show ?thesis using e1 e2 by (simp add: kv_env_def)
qed

lemma kv_env_trans: "kv_env st st' \<Longrightarrow> kv_env st' st'' \<Longrightarrow> kv_env st st''"
  by (simp add: kv_env_def)

lemma shrink_loop_env:
  assumes run: "shrink_loop sz st = Some st'"
  shows "kv_env st st'"
proof (rule shrink_loop.raw_induct[where P = "\<lambda>sz st st'. kv_env st st'", OF _ run], goal_cases)
  case step: (1 loop sz st r)
  from step(2) obtain more es where n: "FilterNext (ents st) = Some (more, es)" by (auto simp: bind_eq_Some_conv)
  show ?case
  proof (cases "\<not> more \<or> used_bytes st \<le> sz")
    case True
    then show ?thesis using step(2) n by (auto simp: kv_env_def Let_def split: if_splits)
  next
    case False
    then obtain key buf where g: "FilterGet es = Some (key, buf)" using step(2) n by (auto simp: bind_eq_Some_conv Let_def)
    show ?thesis
    proof (cases "refcount buf > 0")
      case True
      then have "loop sz (st\<lparr>ents := es\<rparr>) = Some r" using step(2) n g False by (simp add: Let_def)
      from step(1)[OF this] show ?thesis by (simp add: kv_env_def)
    next
      case nr: False
      then obtain es2 st2 c k where "DoFree buf (set_used k (st\<lparr>entry_count := entry_count st - 1, ents := es2, kcounters := c\<rparr>)) = Some st2" "loop sz st2 = Some r"
        using step(2) n g False by (auto simp: bind_eq_Some_conv Let_def split: if_splits)
      from kv_env_trans[OF kv_env_steps(3)[OF this(1)] step(1)[OF this(2)]] show ?thesis by (simp add: kv_env_def set_used_def)
    qed
  qed
qed

lemma ShrinkTo_env: "ShrinkTo sz st = Some (b, st') \<Longrightarrow> kv_env st st'"
  by (auto simp: ShrinkTo_def Let_def bind_eq_Some_conv kv_env_def dest!: shrink_loop_env split: if_splits)

definition kv_demo_malloc :: "nat \<Rightarrow> (nat \<rightharpoonup> nat list) \<Rightarrow> nat option" where
  "kv_demo_malloc n m = (if n < 100 \<and> m 8 = None then Some 8 else None)"

lemma kv_demo_libc:
  "\<exists>st. MemoryKvStore_new 24 kv_demo_params (\<lambda>_. kv_null) [] kv_demo_malloc 128 kMallocLibc 0 = Some st \<and>
     kv_view st [] \<and> max_entries st = 128 \<and> allocator_kind st = kMallocLibc \<and> libc_malloc st = kv_demo_malloc"
proof -
  have "tparams_ok kv_demo_params" by (simp add: tparams_ok_def kv_demo_params_def)
  moreover have "malloc_ok kv_demo_malloc" by (simp add: malloc_ok_def kv_demo_malloc_def)
  ultimately show ?thesis by (intro MemoryKvStore_new_ok) auto
qed

lemma empty_view_libc:
  assumes "kv_view st []" "allocator_kind st = kMallocLibc"
  shows "libc st p = None"
proof -
  obtain B where "kv_rel st [] B" using assms(1) by (auto simp: kv_view_def)
  then have "libc_mem (libc st) B" "objs_rel [] B" using kv_relD(2,3)[of st "[]" B] assms(2) by (simp_all add: mem_rel_def)
  moreover from this(2) have "B p = None" using objs_relD(3)[of "[]" B p] by (cases "B p") auto
  ultimately show ?thesis by (simp add: libc_mem_def)
qed

lemma kv_demo_object:
  "\<exists>st st'. MemoryKvStore_new 24 kv_demo_params (\<lambda>_. kv_null) [] kv_demo_malloc 128 kMallocLibc 0 = Some st \<and>
     kv_Commit (kv_demo_buf 7 3) [1, 2, 3, 4] st = Some (0, st') \<and> allocator_kind st' = kMallocLibc \<and> libc_malloc st' = kv_demo_malloc \<and>
     kv_view st' [(any_key (kv_demo_id 7), \<lparr>obj_bytes = [1, 2, 3], obj_refcount = refcount MemoryBuffer_new, obj_flags = object_flags MemoryBuffer_new\<rparr>)]"
proof -
  obtain st where st: "MemoryKvStore_new 24 kv_demo_params (\<lambda>_. kv_null) [] kv_demo_malloc 128 kMallocLibc 0 = Some st"
    "kv_view st []" "max_entries st = 128" "allocator_kind st = kMallocLibc" "libc_malloc st = kv_demo_malloc" using kv_demo_libc by blast
  let ?b = "kv_demo_buf 7 3"
  have b: "kv_key_ok (buf_id ?b)" using kv_demo_key[of 7] by (simp add: kv_demo_buf_def)
  obtain r st' where C: "kv_Commit ?b [1, 2, 3, 4] st = Some (r, st')"
    "r = 0 \<and> kv_view st' (committed ?b [1, 2, 3, 4] []) \<or> kv_no_memory 3 st' \<and> kv_view st' []"
    using kv_Commit_ok[OF st(2) b, of "[1, 2, 3, 4]"] st(3) by (auto simp: kv_demo_buf_def kv_used_def)
  note E = kv_Commit_env[OF C(1), unfolded kv_env_def]
  have "\<not> (kv_no_memory 3 st' \<and> kv_view st' [])" using E st(4,5) empty_view_libc[of st'] by (auto simp: kv_no_memory_def kv_demo_malloc_def)
  with C(2) have "r = 0" "kv_view st' (committed ?b [1, 2, 3, 4] [])" by auto
  then show ?thesis using st(1,4,5) C(1) E by (simp add: committed_def al_remove_def kv_demo_buf_def Let_def)
qed

text \<open>
  C4.  Committing an object and reading it back.  \<open>Commit\<close> always returns.  When it returns 0 the store maps the
  object's hash to the first \<open>size\<close> bytes of the source: \<open>Read\<close> returns any requested range of them, and every
  other object reads as before.  It refuses with \<open>-ENFILE\<close> only a new object in a store that holds its maximum number of
  entries, and a refused or failed (\<open>-EIO\<close>) commit of a new object leaves the contents unchanged.
\<close>

theorem kv_commit_read:
  assumes v: "kv_view st os" and i: "kv_key_ok (buf_id buf)" and n: "buf_size buf < 2 ^ 61" "buf_size buf \<le> length src"
    and room: "kv_used os + buf_size buf < 2 ^ 63 - 1"
  shows "\<exists>r st'. kv_Commit buf src st = Some (r, st') \<and>
    (r = 0 \<and> kv_reads st' (buf_id buf) (Some (take (buf_size buf) src)) \<and>
       (\<forall>j. kv_key_ok j \<and> any_key j \<noteq> any_key (buf_id buf) \<longrightarrow> kv_reads st' j (map_option obj_bytes (map_of os (any_key j)))) \<or>
     r = - ENFILE \<and> map_of os (any_key (buf_id buf)) = None \<and> length os = max_entries st \<and> kv_view st' os \<or>
     r = - EIO \<and> kv_no_memory (buf_size buf) st' \<and> (map_of os (any_key (buf_id buf)) = None \<longrightarrow> kv_view st' os))"
proof -
  obtain r st' where R: "kv_Commit buf src st = Some (r, st')"
    "r = 0 \<and> kv_view st' (committed buf src os) \<or>
     r = - ENFILE \<and> map_of os (any_key (buf_id buf)) = None \<and> length os = max_entries st \<and> kv_view st' os \<or>
     r = - EIO \<and> kv_no_memory (buf_size buf) st' \<and> (map_of os (any_key (buf_id buf)) = None \<longrightarrow> kv_view st' os)" using kv_Commit_ok[OF assms] by (elim exE conjE) (rule that)
  have "kv_reads st' (buf_id buf) (Some (take (buf_size buf) src))" if "kv_view st' (committed buf src os)"
    using view_reads[OF that i] by (simp add: map_of_committed(1))
  moreover have "kv_reads st' j (map_option obj_bytes (map_of os (any_key j)))"
    if "kv_view st' (committed buf src os)" "kv_key_ok j" "any_key j \<noteq> any_key (buf_id buf)" for j
    using view_reads[OF that(1,2)] that(3) by (simp add: map_of_committed(2))
  ultimately show ?thesis using R(2) by (intro exI[of _ r] exI[of _ st'] conjI[OF R(1)]) (elim disjE conjE; simp)
qed

theorem kv_commit_read_witness:
  "\<exists>st st'. MemoryKvStore_new 24 kv_demo_params (\<lambda>_. kv_null) [] kv_demo_malloc 128 kMallocLibc 0 = Some st \<and>
    kv_Commit (kv_demo_buf 7 3) [1, 2, 3, 4] st = Some (0, st') \<and> kv_reads st' (kv_demo_id 7) (Some [1, 2, 3])"
proof -
  obtain st where st: "MemoryKvStore_new 24 kv_demo_params (\<lambda>_. kv_null) [] kv_demo_malloc 128 kMallocLibc 0 = Some st"
    "kv_view st []" "max_entries st = 128" "allocator_kind st = kMallocLibc" "libc_malloc st = kv_demo_malloc" using kv_demo_libc by blast
  have b: "kv_key_ok (buf_id (kv_demo_buf 7 3))" using kv_demo_key[of 7] by (simp add: kv_demo_buf_def)
  have "\<not> kv_no_memory 3 st'" if "kv_Commit (kv_demo_buf 7 3) [1, 2, 3, 4] st = Some (r, st')" "kv_view st' []" for r st'
    using kv_Commit_env[OF that(1)] st(4,5) empty_view_libc[OF that(2)] unfolding kv_env_def by (simp add: kv_no_memory_def kv_demo_malloc_def)
  with kv_commit_read[OF st(2) b, of "[1, 2, 3, 4]"] st(1,3) show ?thesis by (auto simp: kv_demo_buf_def kv_used_def)
qed

text \<open>
  C12.  \<open>ShrinkTo\<close> always returns.  It walks the objects from the least recently used on and removes those that
  are not referenced: afterwards the store holds the referenced ones of the \<open>m\<close> oldest objects and all younger
  ones, in their order and with their contents.  It stops as early as it can: before each object it visits
  the store still uses more than the requested number of bytes.  It returns true exactly if the store uses no more
  than that afterwards; it returns false only after a walk over all objects, so that only referenced ones are left.
\<close>

theorem kv_shrinks:
  assumes v: "kv_view st os"
  shows "\<exists>ok st' os'. ShrinkTo sz st = Some (ok, st') \<and> kv_view st' os' \<and> ok = (GetUsed st' \<le> sz) \<and>
    (\<exists>m \<le> length os. os' = filter (\<lambda>(k, ob). obj_refcount ob > 0) (take m os) @ drop m os \<and>
      (\<forall>i < m. sz < kv_used (filter (\<lambda>(k, ob). obj_refcount ob > 0) (take i os) @ drop i os)) \<and>
      (\<not> ok \<longrightarrow> m = length os))"
proof -
  let ?os = "shrunk sz (kv_used os) os"
  obtain st' where S: "ShrinkTo sz st = Some (kv_used ?os \<le> sz, st')" "kv_view st' ?os" using ShrinkTo_ok[OF v] by blast
  note u = view_used[OF S(2)]
  obtain m where m: "m \<le> length os" "?os = evict_oldest m os" "\<forall>i < m. sz < kv_used (evict_oldest i os)"
    "m < length os \<longrightarrow> kv_used (evict_oldest m os) \<le> sz" using shrunk_oldest[of os "kv_used os" sz] by auto
  have "\<not> kv_used ?os \<le> sz \<longrightarrow> m = length os" using m(1,2,4) by force
  then have "\<exists>m \<le> length os. ?os = evict_oldest m os \<and> (\<forall>i < m. sz < kv_used (evict_oldest i os)) \<and> (\<not> kv_used ?os \<le> sz \<longrightarrow> m = length os)"
    using m(1-3) by blast
  then show ?thesis using S u unfolding evict_oldest_def by (intro exI[of _ "kv_used ?os \<le> sz"] exI[of _ st'] exI[of _ ?os]) simp
qed

theorem kv_shrinks_witness:
  "\<exists>st st1 st2. MemoryKvStore_new 24 kv_demo_params (\<lambda>_. kv_null) [] kv_demo_malloc 128 kMallocLibc 0 = Some st \<and>
    kv_Commit (kv_demo_buf 7 3) [1, 2, 3, 4] st = Some (0, st1) \<and> ShrinkTo 1 st1 = Some (True, st2) \<and> kv_view st2 []"
proof -
  obtain st st1 where C: "MemoryKvStore_new 24 kv_demo_params (\<lambda>_. kv_null) [] kv_demo_malloc 128 kMallocLibc 0 = Some st"
    "kv_Commit (kv_demo_buf 7 3) [1, 2, 3, 4] st = Some (0, st1)"
    "kv_view st1 [(any_key (kv_demo_id 7), \<lparr>obj_bytes = [1, 2, 3], obj_refcount = refcount MemoryBuffer_new, obj_flags = object_flags MemoryBuffer_new\<rparr>)]"
    (is "kv_view st1 [?e]") using kv_demo_object by (elim exE conjE) (rule that)
  obtain ok st2 os' m where S: "ShrinkTo 1 st1 = Some (ok, st2)" "kv_view st2 os'" "ok = (GetUsed st2 \<le> 1)"
    "m \<le> length [?e]" "os' = filter (\<lambda>(k, ob). obj_refcount ob > 0) (take m [?e]) @ drop m [?e]"
    "\<not> ok \<longrightarrow> m = length [?e]" using kv_shrinks[OF C(3), of 1] by (elim exE conjE) (rule that)
  have "m = 1" using S(3-6) view_used[OF S(2)] by (cases m) (auto simp: kv_used_def)
  then have "os' = []" using S(5) by (simp add: MemoryBuffer_new_def)
  then have "ok" "kv_view st2 []" using S(2,3) view_used[OF S(2)] by (simp_all add: kv_used_def)
  then show ?thesis using C(1,2) S(1) by (intro exI conjI) simp_all
qed

text \<open>
  C13.  A reference protects an object.  After \<open>IncRef\<close> on a stored object, \<open>Delete\<close> and \<open>ShrinkTo\<close> return without
  removing it and it still reads as before; once an equal number of \<open>Unref\<close> has brought the count back to zero, \<open>Delete\<close> removes it.
\<close>

theorem kv_reference_protects:
  assumes v: "kv_view st os" and i: "kv_key_ok i" and ob: "map_of os (any_key i) = Some ob" "obj_refcount ob = 0"
  shows "\<exists>st1 st2 ok st3 st4 st5. kv_IncRef i st = Some (True, st1) \<and> kv_Delete i st1 = Some (False, st2) \<and>
    ShrinkTo sz st2 = Some (ok, st3) \<and> kv_reads st3 i (Some (obj_bytes ob)) \<and>
    kv_Unref i st3 = Some (True, st4) \<and> kv_Delete i st4 = Some (True, st5) \<and> kv_reads st5 i None"
proof -
  let ?k = "any_key i" let ?ob = "ob\<lparr>obj_refcount := 1\<rparr>"
  define os1 where "os1 = al_remove ?k os @ [(?k, ?ob)]"
  obtain st1 where s1: "kv_IncRef i st = Some (True, st1)" "kv_view st1 os1" using kv_IncRef_ok[OF v i] ob by (auto simp: os1_def)
  have no: "map_of (al_remove ?k xs) ?k = None" for xs :: "(digest \<times> kv_object) list" by (force simp: al_remove_def map_of_eq_None_iff)
  have m1: "map_of os1 ?k = Some ?ob" by (simp add: os1_def map_add_def no)
  obtain st2 where s2: "kv_Delete i st1 = Some (False, st2)" "kv_view st2 (al_touch ?k os1)" using kv_Delete_ok[OF s1(2) i] m1 by auto
  have m2: "map_of (al_touch ?k os1) ?k = Some ?ob" using m1 by (simp add: map_of_touch)
  define os3 where "os3 = shrunk sz (kv_used (al_touch ?k os1)) (al_touch ?k os1)"
  obtain ok st3 where s3: "ShrinkTo sz st2 = Some (ok, st3)" "kv_view st3 os3" using ShrinkTo_ok[OF s2(2), of sz] by (auto simp: os3_def)
  have "(?k, ?ob) \<in> set os3" using shrunk_protects[OF map_of_SomeD[OF m2]] by (simp add: os3_def)
  then have m3: "map_of os3 ?k = Some ?ob" using view_distinct[OF s3(2)] by simp
  obtain st4 where s4: "kv_Unref i st3 = Some (True, st4)" "kv_view st4 (al_remove ?k os3 @ [(?k, ?ob\<lparr>obj_refcount := 0\<rparr>)])"
    using kv_Unref_ok[OF s3(2) i] m3 by auto
  have m4: "map_of (al_remove ?k os3 @ [(?k, ?ob\<lparr>obj_refcount := 0\<rparr>)]) ?k = Some (?ob\<lparr>obj_refcount := 0\<rparr>)" by (simp add: map_add_def no)
  obtain st5 os5 where s5: "kv_Delete i st4 = Some (True, st5)" "kv_view st5 (al_remove ?k os5)" using kv_Delete_ok[OF s4(2) i] m4 by auto
  have "kv_reads st3 i (Some (obj_bytes ob))" "kv_reads st5 i None" using view_reads[OF s3(2) i] view_reads[OF s5(2) i] m3 no by simp_all
  then show ?thesis using s1(1) s2(1) s3(1) s4(1) s5(1) by blast
qed

theorem kv_reference_protects_witness:
  "\<exists>st st1 st2 st3 st4 ok st5. MemoryKvStore_new 24 kv_demo_params (\<lambda>_. kv_null) [] kv_demo_malloc 128 kMallocLibc 0 = Some st \<and>
    kv_Commit (kv_demo_buf 7 3) [1, 2, 3, 4] st = Some (0, st1) \<and> kv_IncRef (kv_demo_id 7) st1 = Some (True, st2) \<and>
    kv_Delete (kv_demo_id 7) st2 = Some (False, st3) \<and> ShrinkTo 0 st3 = Some (ok, st4) \<and> kv_reads st4 (kv_demo_id 7) (Some [1, 2, 3]) \<and>
    kv_Unref (kv_demo_id 7) st4 = Some (True, st5)"
proof -
  obtain st st1 where C: "MemoryKvStore_new 24 kv_demo_params (\<lambda>_. kv_null) [] kv_demo_malloc 128 kMallocLibc 0 = Some st"
    "kv_Commit (kv_demo_buf 7 3) [1, 2, 3, 4] st = Some (0, st1)"
    "kv_view st1 [(any_key (kv_demo_id 7), \<lparr>obj_bytes = [1, 2, 3], obj_refcount = refcount MemoryBuffer_new, obj_flags = object_flags MemoryBuffer_new\<rparr>)]"
    using kv_demo_object by (elim exE conjE) (rule that)
  have k: "kv_key_ok (kv_demo_id 7)" by (rule kv_demo_key) simp
  have z: "obj_refcount \<lparr>obj_bytes = [1, 2, 3], obj_refcount = refcount MemoryBuffer_new, obj_flags = object_flags MemoryBuffer_new\<rparr> = 0"
    by (simp add: MemoryBuffer_new_def)
  from kv_reference_protects[OF C(3) k _ z, of 0] obtain st2 st3 ok st4 st5 where "kv_IncRef (kv_demo_id 7) st1 = Some (True, st2)"
    "kv_Delete (kv_demo_id 7) st2 = Some (False, st3)" "ShrinkTo 0 st3 = Some (ok, st4)" "kv_reads st4 (kv_demo_id 7) (Some [1, 2, 3])"
    "kv_Unref (kv_demo_id 7) st4 = Some (True, st5)" by auto
  with C(1,2) show ?thesis by (intro exI conjI) assumption+
qed

text \<open>
  C35.  A failed overwrite leaves a dangling entry in a store on the libc allocator, the non-default choice
  \<open>CVMFS_CACHE_MALLOC=libc\<close>.  Committing over an object that is already stored frees its memory before the memory of
  the new object is allocated.  If that allocation fails, \<open>Commit\<close> returns \<open>-EIO\<close> with the entry
  still in the table: \<open>Contains\<close> still returns true, and a \<open>Read\<close> from the object's start accesses freed memory.
\<close>

theorem kv_recommit_dangles:
  assumes v: "kv_view st os" and i: "kv_key_ok (buf_id buf)" and ob: "map_of os (any_key (buf_id buf)) = Some ob" "obj_bytes ob \<noteq> []"
    and libc: "allocator_kind st = kMallocLibc" "\<forall>m. libc_malloc st (buf_size buf) m = None"
    and n: "0 < buf_size buf" "buf_size buf < 2 ^ 61" "buf_size buf \<le> length src" "kv_used os + buf_size buf < 2 ^ 63 - 1"
  shows "\<exists>st' es. kv_Commit buf src st = Some (- EIO, st') \<and> kv_Contains (buf_id buf) st' = Some (True, es) \<and>
    (\<forall>k>0. kv_Read (buf_id buf) k 0 st' = None)"
proof -
  let ?k = "any_key (buf_id buf)"
  have k: "digest_ok (buf_id buf)" "?k \<noteq> kv_null" using i kv_key_okD[OF i] by (simp_all add: kv_key_ok_def)
  obtain es B where V: "kv_rel st es B" "os = map (kv_obj B) es" using v by (auto simp: kv_view_def)
  define st1 where "st1 = st\<lparr>kcounters := (kcounters st)\<lparr>kc_n_commit := kc_n_commit (kcounters st) + 1\<rparr>\<rparr>"
  have r1: "kv_rel st1 es B" using V(1) by (simp add: st1_def)
  obtain b where b: "map_of es ?k = Some b" "ob = snd (kv_obj B (?k, b))" using ob(1) V(2) by (auto simp: map_of_obj)
  obtain s where s: "lru_Lookup ?k True (ents st1) = Some (Some b, s)" "kv_rel (st1\<lparr>ents := s\<rparr>) (al_touch ?k es) B"
    using kv_lookup[OF r1 k(2), of True] b(1) by auto
  define st2 where "st2 = st1\<lparr>ents := s\<rparr>"
  obtain ks where ks: "al_touch ?k es = ks @ [(?k, b)]" using b(1) by (auto simp: al_touch_def)
  have r2: "kv_rel st2 (ks @ [(?k, b)]) B" using s(2) ks by (simp add: st2_def)
  define mem where "mem = b\<lparr>object_flags := object_flags buf, buf_id := buf_id buf, buf_size := buf_size buf\<rparr>"
  have "used_bytes st2 = kv_used os" using kv_rel_used[OF V(1)] V(2) by (simp add: st2_def st1_def)
  then obtain s1 s2 s3 where F: "DoFree b st2 = Some s1" "s2 = set_used (u64 (used_bytes s1 + (2 ^ 64 - buf_size b))) s1"
      "s3 = s2\<lparr>entry_count := u32 (entry_count s2 + 4294967295)\<rparr>" "entry_count s3 < max_entries s3"
    using commit_present[OF r2, of mem src] k n unfolding Let_def by (auto simp: mem_def)
  have "entry_ok B (?k, b)" using objs_relD(2)[OF kv_relD(3)[OF r2]] by simp
  moreover have "length (obj_data B b) = buf_size b" using obj_data_length[OF calculation] .
  ultimately obtain p where p: "address b = Some p" "0 < buf_size b" using b(2) ob(2) by (auto simp: entry_ok_def kv_obj_def split: if_splits)
  have S: "ents s3 = s" "allocator_kind s3 = kMallocLibc" "libc_malloc s3 = libc_malloc st" "libc s3 p = None"
    using F(1-3) libc(1) p by (auto simp: DoFree_def st2_def st1_def set_used_def assert_that_def split: if_splits)
  have "commit_new mem src s3 = Some (- EIO, s3)"
    using S(2,3) libc(2) n(1) by (simp add: commit_new_def DoMalloc_def mem_def ENOMEM_def)
  then have K: "kv_Commit buf src st = Some (- EIO, s3)"
    using F s(1) libc(1) by (simp add: kv_Commit_def DoCommit_def CompactMemory_def st2_def st1_def mem_def Let_def)
  have o: "lru_open (ents s3) (ks @ [(?k, b)]) None" "empty_key (cache (ents s3)) = kv_null" using kv_relD(1,5)[OF r2] S(1) by (simp_all add: st2_def)
  have m: "map_of (ks @ [(?k, b)]) ?k = Some b" using b(1) ks by (metis map_of_touch)
  have look: "\<exists>es. lru_Lookup ?k upd (ents s3) = Some (Some b, es)" for upd using lru.look_law[OF o(1), of ?k upd] o(2) k(2) m by auto
  have "\<exists>es. kv_Contains (buf_id buf) s3 = Some (True, es)" using look[of False] by (auto simp: kv_Contains_def)
  moreover have "kv_Read (buf_id buf) j 0 s3 = None" if "j > 0" for j
    using look[of True] that S(2,4) p by (auto simp: kv_Read_def kv_load_def Let_def)
  ultimately show ?thesis using K by blast
qed

theorem kv_recommit_dangles_witness:
  "\<exists>st st1 st2 es. MemoryKvStore_new 24 kv_demo_params (\<lambda>_. kv_null) [] kv_demo_malloc 128 kMallocLibc 0 = Some st \<and>
    kv_Commit (kv_demo_buf 7 3) [1, 2, 3, 4] st = Some (0, st1) \<and>
    kv_Commit (kv_demo_buf 7 200) (replicate 200 0) st1 = Some (- EIO, st2) \<and>
    kv_Contains (kv_demo_id 7) st2 = Some (True, es) \<and> kv_Read (kv_demo_id 7) 3 0 st2 = None"
proof -
  obtain st st1 where C: "MemoryKvStore_new 24 kv_demo_params (\<lambda>_. kv_null) [] kv_demo_malloc 128 kMallocLibc 0 = Some st"
    "kv_Commit (kv_demo_buf 7 3) [1, 2, 3, 4] st = Some (0, st1)" "allocator_kind st1 = kMallocLibc" "libc_malloc st1 = kv_demo_malloc"
    "kv_view st1 [(any_key (kv_demo_id 7), \<lparr>obj_bytes = [1, 2, 3], obj_refcount = refcount MemoryBuffer_new, obj_flags = object_flags MemoryBuffer_new\<rparr>)]"
    using kv_demo_object by (elim exE conjE) (rule that)
  let ?b = "kv_demo_buf 7 200"
  have i: "kv_key_ok (buf_id ?b)" using kv_demo_key[of 7] by (simp add: kv_demo_buf_def)
  have m: "\<forall>m. libc_malloc st1 (buf_size ?b) m = None" using C(4) by (simp add: kv_demo_malloc_def kv_demo_buf_def)
  have "\<exists>st' es. kv_Commit ?b (replicate 200 0) st1 = Some (- EIO, st') \<and> kv_Contains (buf_id ?b) st' = Some (True, es) \<and>
    (\<forall>k>0. kv_Read (buf_id ?b) k 0 st' = None)"
    by (rule kv_recommit_dangles[OF C(5) i _ _ C(3) m, of
        "\<lparr>obj_bytes = [1, 2, 3], obj_refcount = refcount MemoryBuffer_new, obj_flags = object_flags MemoryBuffer_new\<rparr>"])
      (simp_all add: kv_demo_buf_def kv_used_def)
  then obtain st2 es where "kv_Commit ?b (replicate 200 0) st1 = Some (- EIO, st2)" "kv_Contains (buf_id ?b) st2 = Some (True, es)"
    "\<forall>k>0. kv_Read (buf_id ?b) k 0 st2 = None" by (elim exE conjE) (rule that)
  then show ?thesis using C(1,2) by (intro exI[of _ st] exI[of _ st1] exI[of _ st2] exI[of _ es]) (simp add: kv_demo_buf_def)
qed

end
