(* ===== verification/RamCache.thy ===== *)
theory RamCache
  imports KvSpec FdTable
begin

unbundle bit_operations_syntax

text \<open>
  The in-memory cache manager, \<^verbatim>\<open>cvmfs/cache_ram.cc\<close> and \<^verbatim>\<open>cvmfs/cache_ram.h\<close>, and the operations that the
  base class in \<^verbatim>\<open>cvmfs/cache.cc\<close> builds from the ones of a cache manager.

  The cache has two key-value stores, for regular and for volatile objects, and a table of open
  descriptors.  New objects are staged in a transaction, which the caller holds; \<open>tx_mem\<close> is the memory at its
  buffer's address (\<open>None\<close> for a null pointer).  The memory of transactions comes from \<^verbatim>\<open>malloc\<close> and \<^verbatim>\<open>realloc\<close>, which
  are a parameter (\<open>heap_env\<close>).  The lock and the log messages are left out.
\<close>

section \<open>The code\<close>

record label =
  label_flags :: int
  label_size :: nat
  zip_algorithm :: nat
  range_offset :: int
  label_path :: string

record labeled_object =
  object_id :: digest
  object_label :: label

definition kSizeUnknown :: nat where "kSizeUnknown = 2 ^ 64 - 1"
definition kPageSize :: nat where "kPageSize = 4096"

definition kLabelCatalog :: int where "kLabelCatalog = 0x01"
definition kLabelPinned :: int where "kLabelPinned = 0x02"
definition kLabelVolatile :: int where "kLabelVolatile = 0x04"
definition kLabelExternal :: int where "kLabelExternal = 0x08"
definition kLabelChunked :: int where "kLabelChunked = 0x10"
definition kLabelCertificate :: int where "kLabelCertificate = 0x20"
definition kLabelMetainfo :: int where "kLabelMetainfo = 0x40"
definition kLabelHistory :: int where "kLabelHistory = 0x80"

definition Label_new :: label where
  "Label_new = \<lparr>label_flags = 0, label_size = kSizeUnknown, zip_algorithm = 0, range_offset = - 1, label_path = ''''\<rparr>"

definition has_flag :: "int \<Rightarrow> int \<Rightarrow> bool" where
  "has_flag flags f \<longleftrightarrow> flags AND f \<noteq> 0"

definition GetDescription :: "label \<Rightarrow> string" where
  "GetDescription l =
     (if has_flag (label_flags l) kLabelCatalog then ''file catalog at '' @ label_path l
      else if has_flag (label_flags l) kLabelCertificate then ''certificate for '' @ label_path l
      else if has_flag (label_flags l) kLabelMetainfo then ''metainfo for '' @ label_path l
      else if has_flag (label_flags l) kLabelHistory then ''tag database for '' @ label_path l
      else if has_flag (label_flags l) kLabelChunked then ''Part of '' @ label_path l
      else label_path l)"

datatype ram_counter = N_getsize | N_close | N_pread | N_dup | N_readahead | N_starttxn | N_write | N_reset | N_aborttxn
  | N_committxn | N_enfile | N_openregular | N_openvolatile | N_openmiss | N_overrun | N_full | N_realloc

definition ram_counters_new :: "ram_counter \<Rightarrow> int" where
  "ram_counters_new = (\<lambda>_. 0)"

record read_only_handle =
  ro_handle :: digest
  is_volatile :: bool

definition kInvalidHandle :: digest where
  "kInvalidHandle = Any_new kAny kSuffixNone"

definition ReadOnlyHandle_new :: read_only_handle where
  "ReadOnlyHandle_new = \<lparr>ro_handle = kInvalidHandle, is_volatile = False\<rparr>"

definition handle_equal :: "read_only_handle \<Rightarrow> read_only_handle \<Rightarrow> bool" where
  "handle_equal h h' \<longleftrightarrow> any_key (ro_handle h) = any_key (ro_handle h')"

record heap_env =
  env_malloc :: "nat \<Rightarrow> nat list option"
  env_realloc :: "nat list option \<Rightarrow> nat \<Rightarrow> nat list option"

record transaction =
  tx_buffer :: memory_buffer
  tx_mem :: "nat list option"
  expected_size :: nat
  pos :: nat
  description :: string

record ram_cache =
  max_size :: nat
  ram_fds :: "read_only_handle fd_table"
  regular_entries :: kv_store
  volatile_entries :: kv_store
  ram_counters :: "ram_counter \<Rightarrow> int"

definition Inc :: "ram_counter \<Rightarrow> ram_cache \<Rightarrow> ram_cache" where
  "Inc n c = c\<lparr>ram_counters := (ram_counters c)(n := ram_counters c n + 1)\<rparr>"

text \<open>
  The constructor of the stores takes the size of the heap as a 32-bit number; the parameters before \<open>max_sz\<close> are those
  of \<open>MemoryKvStore_new\<close>.
\<close>

definition RamCacheManager_new ::
  "nat \<Rightarrow> (digest, memory_buffer cache_entry) tparams \<Rightarrow> (nat \<Rightarrow> digest) \<Rightarrow> nat list \<Rightarrow> (nat \<Rightarrow> (nat \<rightharpoonup> nat list) \<Rightarrow> nat option) \<Rightarrow>
   nat \<Rightarrow> nat \<Rightarrow> kv_allocator \<Rightarrow> ram_cache option" where
  "RamCacheManager_new sz_entry tp mem fresh mal max_sz max_ents alloc = do {
     t \<leftarrow> FdTable_new handle_equal max_ents ReadOnlyHandle_new;
     r \<leftarrow> MemoryKvStore_new sz_entry tp mem fresh mal max_ents alloc (u32 max_sz);
     v \<leftarrow> MemoryKvStore_new sz_entry tp mem fresh mal max_ents alloc (u32 max_sz);
     Some \<lparr>max_size = max_sz, ram_fds = t, regular_entries = r, volatile_entries = v, ram_counters = ram_counters_new\<rparr>
   }"

definition AddFd :: "read_only_handle \<Rightarrow> ram_cache \<Rightarrow> (int \<times> ram_cache) option" where
  "AddFd h c = do {
     (result, t) \<leftarrow> OpenFd h (ram_fds c);
     let c = c\<lparr>ram_fds := t\<rparr>;
     Some (result, if result = - ENFILE then Inc N_enfile c else c)
   }"

definition GetStore :: "read_only_handle \<Rightarrow> ram_cache \<Rightarrow> kv_store" where
  "GetStore h c = (if is_volatile h then volatile_entries c else regular_entries c)"

definition put_store :: "bool \<Rightarrow> kv_store \<Rightarrow> ram_cache \<Rightarrow> ram_cache" where
  "put_store vol s c = (if vol then c\<lparr>volatile_entries := s\<rparr> else c\<lparr>regular_entries := s\<rparr>)"

text \<open>\<open>DoOpen\<close>; the part after the object was found is \<open>open_stored\<close>.\<close>

definition open_stored :: "read_only_handle \<Rightarrow> ram_cache \<Rightarrow> (int \<times> ram_cache) option" where
  "open_stored generic_handle c = do {
     (fd, c) \<leftarrow> AddFd generic_handle c;
     if fd < 0 then Some (fd, c)
     else do {
       let c = (if is_volatile generic_handle then Inc N_openvolatile c else Inc N_openregular c);
       (ok, s) \<leftarrow> kv_IncRef (ro_handle generic_handle) (GetStore generic_handle c);
       assert_that ok;
       Some (fd, put_store (is_volatile generic_handle) s c)
     }
   }"

definition DoOpen :: "digest \<Rightarrow> ram_cache \<Rightarrow> (int \<times> ram_cache) option" where
  "DoOpen oid c = do {
     (in_regular, s) \<leftarrow> kv_Contains oid (regular_entries c);
     let c = c\<lparr>regular_entries := s\<rparr>;
     if in_regular then open_stored \<lparr>ro_handle = oid, is_volatile = False\<rparr> c
     else do {
       (in_volatile, s) \<leftarrow> kv_Contains oid (volatile_entries c);
       let c = c\<lparr>volatile_entries := s\<rparr>;
       if in_volatile then open_stored \<lparr>ro_handle = oid, is_volatile = True\<rparr> c
       else Some (- ENOENT, Inc N_openmiss c)
     }
   }"

definition ram_Open :: "labeled_object \<Rightarrow> ram_cache \<Rightarrow> (int \<times> ram_cache) option" where
  "ram_Open object c = DoOpen (object_id object) c"

definition bad_handle :: "read_only_handle \<Rightarrow> bool" where
  "bad_handle h \<longleftrightarrow> any_key (ro_handle h) = any_key kInvalidHandle"

definition ram_GetSize :: "int \<Rightarrow> ram_cache \<Rightarrow> (int \<times> ram_cache) option" where
  "ram_GetSize fd c = (let h = GetHandle fd (ram_fds c) in
     if bad_handle h then Some (- EBADF, c)
     else do {
       let c = Inc N_getsize c;
       (r, s) \<leftarrow> kv_GetSize (ro_handle h) (GetStore h c);
       Some (r, put_store (is_volatile h) s c)
     })"

definition ram_Close :: "int \<Rightarrow> ram_cache \<Rightarrow> (int \<times> ram_cache) option" where
  "ram_Close fd c = (let h = GetHandle fd (ram_fds c) in
     if bad_handle h then Some (- EBADF, c)
     else do {
       (rc, s) \<leftarrow> kv_Unref (ro_handle h) (GetStore h c);
       assert_that rc;
       let c = put_store (is_volatile h) s c;
       (rc_int, t) \<leftarrow> CloseFd fd (ram_fds c);
       assert_that (rc_int = 0);
       Some (0, Inc N_close (c\<lparr>ram_fds := t\<rparr>))
     })"

definition ram_Pread :: "int \<Rightarrow> nat \<Rightarrow> nat \<Rightarrow> ram_cache \<Rightarrow> (int \<times> nat list \<times> ram_cache) option" where
  "ram_Pread fd sz offset c = (let h = GetHandle fd (ram_fds c) in
     if bad_handle h then Some (- EBADF, [], c)
     else do {
       let c = Inc N_pread c;
       (r, xs, s) \<leftarrow> kv_Read (ro_handle h) sz offset (GetStore h c);
       Some (r, xs, put_store (is_volatile h) s c)
     })"

definition ram_Dup :: "int \<Rightarrow> ram_cache \<Rightarrow> (int \<times> ram_cache) option" where
  "ram_Dup fd c = (let h = GetHandle fd (ram_fds c) in
     if bad_handle h then Some (- EBADF, c)
     else do {
       (rc, c) \<leftarrow> AddFd h c;
       if rc < 0 then Some (rc, c)
       else do {
         (ok, s) \<leftarrow> kv_IncRef (ro_handle h) (GetStore h c);
         assert_that ok;
         Some (rc, Inc N_dup (put_store (is_volatile h) s c))
       }
     })"

definition Readahead :: "int \<Rightarrow> ram_cache \<Rightarrow> int \<times> ram_cache" where
  "Readahead fd c = (if bad_handle (GetHandle fd (ram_fds c)) then (- EBADF, c) else (0, Inc N_readahead c))"

definition Transaction_new :: transaction where
  "Transaction_new = \<lparr>tx_buffer = MemoryBuffer_new, tx_mem = None, expected_size = 0, pos = 0, description = ''''\<rparr>"

definition StartTxn :: "heap_env \<Rightarrow> digest \<Rightarrow> nat \<Rightarrow> ram_cache \<Rightarrow> int \<times> transaction \<times> ram_cache" where
  "StartTxn env oid sz c =
     (let n = (if sz = kSizeUnknown then kPageSize else sz);
          txn = Transaction_new\<lparr>tx_buffer := (tx_buffer Transaction_new)\<lparr>buf_id := oid, buf_size := n\<rparr>, pos := 0, expected_size := sz,
                                tx_mem := env_malloc env n\<rparr>
      in if tx_mem txn = None \<and> sz > 0 then (- ENOMEM, txn, c) else (0, txn, Inc N_starttxn c))"

definition CtrlTxn :: "label \<Rightarrow> transaction \<Rightarrow> transaction" where
  "CtrlTxn l txn = txn\<lparr>description := GetDescription l, tx_buffer := (tx_buffer txn)\<lparr>object_flags := label_flags l\<rparr>\<rparr>"

definition tx_copy :: "nat list option \<Rightarrow> nat \<Rightarrow> transaction \<Rightarrow> transaction option" where
  "tx_copy buf sz txn = (case (tx_mem txn, buf) of
     (Some mem, Some src) \<Rightarrow> do {
       assert_that (sz \<le> length src);
       mem1 \<leftarrow> mem_write mem (pos txn) (take sz src);
       Some (txn\<lparr>tx_mem := Some mem1\<rparr>)
     }
   | _ \<Rightarrow> Some txn)"

text \<open>\<open>Write\<close>; the part that enlarges the buffer is \<open>tx_reserve\<close>.\<close>

definition tx_reserve :: "heap_env \<Rightarrow> nat \<Rightarrow> transaction \<Rightarrow> ram_cache \<Rightarrow> int \<times> transaction \<times> ram_cache" where
  "tx_reserve env sz txn c =
     (if u64 (pos txn + sz) > buf_size (tx_buffer txn) then
        if expected_size txn = kSizeUnknown then
          (let c = Inc N_realloc c;
               new_size = max (u64 (2 * buf_size (tx_buffer txn))) (u64 (sz + pos txn))
           in case env_realloc env (tx_mem txn) new_size of
                None \<Rightarrow> (- EIO, txn, c)
              | Some mem \<Rightarrow> (0, txn\<lparr>tx_mem := Some mem, tx_buffer := (tx_buffer txn)\<lparr>buf_size := new_size\<rparr>\<rparr>, c))
        else (- EFBIG, txn, c)
      else (0, txn, c))"

definition ram_Write :: "heap_env \<Rightarrow> nat list option \<Rightarrow> nat \<Rightarrow> transaction \<Rightarrow> ram_cache \<Rightarrow> (int \<times> transaction \<times> ram_cache) option" where
  "ram_Write env buf sz txn c = do {
     assert_that (pos txn \<le> buf_size (tx_buffer txn));
     (case tx_reserve env sz txn c of (rc, txn, c) \<Rightarrow>
       if rc < 0 then Some (rc, txn, c)
       else do {
         txn \<leftarrow> tx_copy buf sz txn;
         Some (s64 sz, txn\<lparr>pos := u64 (pos txn + sz)\<rparr>, Inc N_write c)
       })
   }"

definition ram_Reset :: "transaction \<Rightarrow> ram_cache \<Rightarrow> int \<times> transaction \<times> ram_cache" where
  "ram_Reset txn c = (0, txn\<lparr>pos := 0\<rparr>, Inc N_reset c)"

text \<open>The wrap-around of 64-bit signed arithmetic.\<close>

definition i64 :: "int \<Rightarrow> int" where
  "i64 x = s64 (nat (x mod 2 ^ 64))"

text \<open>The part of \<open>CommitToKvStore\<close> that makes room: the remaining overrun and the shrunk stores.\<close>

definition make_room :: "nat \<Rightarrow> ram_cache \<Rightarrow> (int \<times> ram_cache) option" where
  "make_room sz c = do {
     let regular_size = s64 (GetUsed (regular_entries c));
     let volatile_size = s64 (GetUsed (volatile_entries c));
     let overrun = i64 (regular_size + volatile_size + int sz - int (max_size c));
     (overrun, c) \<leftarrow> (if overrun > 0 then do {
         let overrun = max overrun (s64 (max_size c) div 4);
         let c = Inc N_overrun c;
         (_, s) \<leftarrow> ShrinkTo (nat (max 0 (volatile_size - overrun))) (volatile_entries c);
         Some (overrun, c\<lparr>volatile_entries := s\<rparr>)
       } else Some (overrun, c));
     let overrun = i64 (overrun - (volatile_size - int (GetUsed (volatile_entries c))));
     c \<leftarrow> (if overrun > 0 then do {
         (_, s) \<leftarrow> ShrinkTo (nat (max 0 (regular_size - overrun))) (regular_entries c);
         Some (c\<lparr>regular_entries := s\<rparr>)
       } else Some c);
     let overrun = i64 (overrun - (regular_size - int (GetUsed (regular_entries c))));
     Some (overrun, c)
   }"

definition CommitToKvStore :: "transaction \<Rightarrow> ram_cache \<Rightarrow> (int \<times> transaction \<times> ram_cache) option" where
  "CommitToKvStore txn c = do {
     let vol = has_flag (object_flags (tx_buffer txn)) kLabelVolatile;
     let txn = txn\<lparr>tx_buffer := (tx_buffer txn)\<lparr>refcount :=
        (if has_flag (object_flags (tx_buffer txn)) kLabelPinned \<or> has_flag (object_flags (tx_buffer txn)) kLabelCatalog then 1 else 0)\<rparr>\<rparr>;
     (overrun, c) \<leftarrow> make_room (buf_size (tx_buffer txn)) c;
     if overrun > 0 then Some (- ENOSPC, txn, Inc N_full c)
     else do {
       (rc, s) \<leftarrow> kv_Commit (tx_buffer txn) (case tx_mem txn of Some mem \<Rightarrow> mem | None \<Rightarrow> [])
          (if vol then volatile_entries c else regular_entries c);
       let c = put_store vol s c;
       if rc < 0 then Some (rc, txn, c) else Some (0, txn, c)
     }
   }"

definition OpenFromTxn :: "transaction \<Rightarrow> ram_cache \<Rightarrow> (int \<times> transaction \<times> ram_cache) option" where
  "OpenFromTxn txn c = do {
     (retval, txn, c) \<leftarrow> CommitToKvStore txn c;
     if retval < 0 then Some (retval, txn, c)
     else do {
       (fd, c) \<leftarrow> DoOpen (buf_id (tx_buffer txn)) (Inc N_committxn c);
       Some (fd, txn, c)
     }
   }"

definition AbortTxn :: "transaction \<Rightarrow> ram_cache \<Rightarrow> int \<times> transaction \<times> ram_cache" where
  "AbortTxn txn c = (0, txn\<lparr>tx_mem := None\<rparr>, Inc N_aborttxn c)"

definition CommitTxn :: "transaction \<Rightarrow> ram_cache \<Rightarrow> (int \<times> transaction \<times> ram_cache) option" where
  "CommitTxn txn c = do {
     (rc, txn, c) \<leftarrow> CommitToKvStore txn (Inc N_committxn c);
     if rc < 0 then Some (rc, txn, c) else Some (rc, txn\<lparr>tx_mem := None\<rparr>, c)
   }"

subsection \<open>The base class\<close>

definition CommitFromMem :: "heap_env \<Rightarrow> labeled_object \<Rightarrow> nat list \<Rightarrow> nat \<Rightarrow> ram_cache \<Rightarrow> (bool \<times> transaction \<times> ram_cache) option" where
  "CommitFromMem env object buffer sz c = do {
     (fd, txn, c) \<leftarrow> Some (StartTxn env (object_id object) sz c);
     if fd < 0 then Some (False, txn, c)
     else do {
       let txn = CtrlTxn (object_label object) txn;
       (retval, txn, c) \<leftarrow> ram_Write env (Some buffer) sz txn c;
       if retval < 0 \<or> nat (retval mod 2 ^ 64) \<noteq> sz then (case AbortTxn txn c of (_, txn, c) \<Rightarrow> Some (False, txn, c))
       else do {
         (retval, txn, c) \<leftarrow> CommitTxn txn c;
         Some (retval = 0, txn, c)
       }
     }
   }"

definition Open2Mem :: "labeled_object \<Rightarrow> ram_cache \<Rightarrow> (bool \<times> nat list option \<times> nat \<times> ram_cache) option" where
  "Open2Mem object c = do {
     (fd, c) \<leftarrow> ram_Open object c;
     if fd < 0 then Some (False, None, 0, c)
     else do {
       (s, c) \<leftarrow> ram_GetSize fd c;
       assert_that (s \<ge> 0);
       let sz = nat s;
       (retval, buffer, c) \<leftarrow> (if sz > 0 then do { (r, xs, c) \<leftarrow> ram_Pread fd sz 0 c; Some (r, Some xs, c) }
          else Some (0, None, c));
       (_, c) \<leftarrow> ram_Close fd c;
       if retval < 0 \<or> nat retval \<noteq> sz then Some (False, None, 0, c) else Some (True, buffer, sz, c)
     }
   }"

definition OpenPinned :: "(digest \<Rightarrow> nat \<Rightarrow> string \<Rightarrow> bool \<Rightarrow> bool) \<Rightarrow> labeled_object \<Rightarrow> ram_cache \<Rightarrow> (int \<times> ram_cache) option" where
  "OpenPinned pin object c = do {
     (fd, c) \<leftarrow> ram_Open object c;
     if fd \<ge> 0 then do {
       (sz, c) \<leftarrow> ram_GetSize fd c;
       if sz < 0 then do { (_, c) \<leftarrow> ram_Close fd c; Some (sz, c) }
       else if \<not> pin (object_id object) (nat sz) (GetDescription (object_label object)) (has_flag (label_flags (object_label object)) kLabelCatalog)
       then do { (_, c) \<leftarrow> ram_Close fd c; Some (- ENOSPC, c) }
       else Some (fd, c)
     }
     else Some (fd, c)
   }"

section \<open>The state of the cache\<close>

text \<open>
  The abstract state: the open descriptors \<open>F\<close> and the objects \<open>S v\<close> of the two stores (\<open>S True\<close> are the volatile
  ones).  An object has one reference for every descriptor that is open on it, and possibly one more
  if it was committed as pinned.
\<close>

definition ram_store :: "bool \<Rightarrow> ram_cache \<Rightarrow> kv_store" where
  "ram_store v c = (if v then volatile_entries c else regular_entries c)"

definition refs :: "(digest \<times> kv_object) list \<Rightarrow> digest \<Rightarrow> nat" where
  "refs os k = (case map_of os k of None \<Rightarrow> 0 | Some ob \<Rightarrow> obj_refcount ob)"

definition bytes_of :: "(digest \<times> kv_object) list \<Rightarrow> digest \<Rightarrow> nat list option" where
  "bytes_of os k = map_option obj_bytes (map_of os k)"

definition fds_on :: "(int \<Rightarrow> read_only_handle option) \<Rightarrow> bool \<Rightarrow> digest \<Rightarrow> int set" where
  "fds_on F v k = {fd. \<exists>h. F fd = Some h \<and> is_volatile h = v \<and> any_key (ro_handle h) = k}"

definition ram_rel :: "ram_cache \<Rightarrow> (int \<Rightarrow> read_only_handle option) \<Rightarrow> (bool \<Rightarrow> (digest \<times> kv_object) list) \<Rightarrow> bool" where
  "ram_rel c F S \<longleftrightarrow> fd_inv (ram_fds c) \<and> fd_abs (ram_fds c) = F \<and> handle_eq (ram_fds c) = handle_equal \<and>
     invalid_handle (ram_fds c) = ReadOnlyHandle_new \<and> GetMaxFds (ram_fds c) \<le> 2 ^ 31 \<and>
     (\<forall>v. kv_view (ram_store v c) (S v)) \<and> (\<forall>fd h. F fd = Some h \<longrightarrow> kv_key_ok (ro_handle h)) \<and>
     (\<forall>v k. card (fds_on F v k) \<le> refs (S v) k \<and> refs (S v) k \<le> card (fds_on F v k) + 1)"

lemma ram_relD:
  assumes "ram_rel c F S"
  shows "fd_inv (ram_fds c)" "fd_abs (ram_fds c) = F" "handle_eq (ram_fds c) = handle_equal"
    "invalid_handle (ram_fds c) = ReadOnlyHandle_new" "GetMaxFds (ram_fds c) \<le> 2 ^ 31" "kv_view (ram_store v c) (S v)"
    "F fd = Some h \<Longrightarrow> kv_key_ok (ro_handle h)" "card (fds_on F v k) \<le> refs (S v) k" "refs (S v) k \<le> card (fds_on F v k) + 1"
  using assms unfolding ram_rel_def by blast+

text \<open>To keep the relation, the number of descriptors and of references of an object change by the same amount.\<close>

lemma ram_relI:
  assumes r: "ram_rel c F S" and t: "fd_inv (ram_fds c')" "fd_abs (ram_fds c') = F'" "handle_eq (ram_fds c') = handle_equal"
      "invalid_handle (ram_fds c') = ReadOnlyHandle_new" "GetMaxFds (ram_fds c') = GetMaxFds (ram_fds c)"
    and v: "\<And>v. kv_view (ram_store v c') (S' v)" and k: "\<And>fd h. F' fd = Some h \<Longrightarrow> kv_key_ok (ro_handle h)"
    and n: "\<And>v k. card (fds_on F' v k) + refs (S v) k = card (fds_on F v k) + refs (S' v) k"
  shows "ram_rel c' F' S'"
proof -
  have "card (fds_on F' v k) \<le> refs (S' v) k \<and> refs (S' v) k \<le> card (fds_on F' v k) + 1" for v k
    using n[of v k] ram_relD(8,9)[OF r, of v k] by linarith
  then show ?thesis using t v k ram_relD(5)[OF r] unfolding ram_rel_def by simp
qed

lemma store_simps [simp]:
  "ram_store v (Inc n c) = ram_store v c" "ram_fds (Inc n c) = ram_fds c" "max_size (Inc n c) = max_size c"
  "ram_store w (put_store v s c) = (if w = v then s else ram_store w c)" "ram_fds (put_store v s c) = ram_fds c"
  "max_size (put_store v s c) = max_size c" "ram_store v (c\<lparr>ram_fds := t\<rparr>) = ram_store v c"
  "GetStore h c = ram_store (is_volatile h) c"
  by (auto simp: ram_store_def Inc_def put_store_def GetStore_def)

lemma ram_rel_Inc [simp]: "ram_rel (Inc n c) F S = ram_rel c F S"
  by (simp add: ram_rel_def)

lemma ram_rel_put:
  assumes "ram_rel c F S" "kv_view s os" "\<And>k. refs os k = refs (S v) k"
  shows "ram_rel (put_store v s c) F (S(v := os))"
  using assms by (auto simp: ram_rel_def)

lemma map_of_moved: "map_of (al_remove j os @ [(j, ob)]) k = (if k = j then Some ob else map_of os k)"
proof -
  have "map_of (al_remove j os) k = (if k = j then None else map_of os k)"
    by (induction os) (auto simp: al_remove_def)
  then show ?thesis by (simp add: map_add_def split: option.split)
qed

lemma map_of_touched: "map_of (al_touch j os) k = map_of os k"
  by (simp only: al_touch_def map_of_moved split: option.split) auto

lemma refs_touch [simp]: "refs (al_touch j os) k = refs os k"
  by (simp add: refs_def map_of_touched)

lemma refs_present: "map_of os k = Some ob \<Longrightarrow> refs os k = obj_refcount ob"
  by (simp add: refs_def)

lemma bytes_touch [simp]: "bytes_of (al_touch j os) k = bytes_of os k"
  by (simp add: bytes_of_def map_of_touched)

lemma moved_simps:
  "refs (al_remove j os @ [(j, ob)]) k = (if k = j then obj_refcount ob else refs os k)"
  "bytes_of (al_remove j os @ [(j, ob)]) k = (if k = j then Some (obj_bytes ob) else bytes_of os k)"
  unfolding refs_def bytes_of_def map_of_moved by simp_all

section \<open>Descriptors\<close>

lemma invalid_key: "any_key kInvalidHandle = kv_null"
  by (simp add: kInvalidHandle_def any_key_def Any_new_def)

lemma key_ok_handle: "kv_key_ok (ro_handle h) \<Longrightarrow> \<not> bad_handle h \<and> \<not> handle_equal h ReadOnlyHandle_new"
  using kv_key_okD[of "ro_handle h"] by (simp add: bad_handle_def handle_equal_def ReadOnlyHandle_new_def invalid_key)

lemma handle_cases:
  assumes "ram_rel c F S"
  shows "F fd = None \<Longrightarrow> bad_handle (GetHandle fd (ram_fds c))"
    "F fd = Some h \<Longrightarrow> GetHandle fd (ram_fds c) = h \<and> \<not> bad_handle h"
  using ram_relD[OF assms] key_ok_handle[of h]
  by (auto simp: GetHandle_abs bad_handle_def ReadOnlyHandle_new_def)

lemma fds_finite: "ram_rel c F S \<Longrightarrow> finite (fds_on F v k)"
proof -
  assume r: "ram_rel c F S"
  have "fds_on F v k \<subseteq> dom F" by (auto simp: fds_on_def)
  moreover have "finite (dom F)" using dom_fd_abs[OF ram_relD(1)[OF r]] ram_relD(2)[OF r] by simp
  ultimately show ?thesis by (rule finite_subset)
qed

lemma fds_card_le: "ram_rel c F S \<Longrightarrow> card (fds_on F v k) \<le> 2 ^ 31"
proof -
  assume r: "ram_rel c F S"
  have "fds_on F v k \<subseteq> dom F" by (auto simp: fds_on_def)
  moreover have "finite (dom F)" using dom_fd_abs[OF ram_relD(1)[OF r]] ram_relD(2)[OF r] by simp
  ultimately have "card (fds_on F v k) \<le> card (dom F)" by (simp add: card_mono)
  also have "\<dots> \<le> GetMaxFds (ram_fds c)" using fdt.card_le[OF ram_relD(1)[OF r]] ram_relD(2)[OF r] by simp
  finally show ?thesis using ram_relD(5)[OF r] by simp
qed

text \<open>An open descriptor refers to a stored object.\<close>

lemma open_object:
  assumes r: "ram_rel c F S" and fd: "F fd = Some h"
  obtains ob where "map_of (S (is_volatile h)) (any_key (ro_handle h)) = Some ob" "obj_refcount ob > 0"
proof -
  have "fd \<in> fds_on F (is_volatile h) (any_key (ro_handle h))" using fd by (auto simp: fds_on_def)
  then have "card (fds_on F (is_volatile h) (any_key (ro_handle h))) > 0" using fds_finite[OF r] by (auto simp: card_gt_0_iff)
  then have "refs (S (is_volatile h)) (any_key (ro_handle h)) > 0" using ram_relD(8)[OF r] by (meson order_less_le_trans)
  then show ?thesis using that by (auto simp: refs_def split: option.splits)
qed

lemma fds_opened:
  assumes r: "ram_rel c F S" and "F fd = None"
  shows "card (fds_on (F(fd \<mapsto> h)) v k) = card (fds_on F v k) + (if v = is_volatile h \<and> k = any_key (ro_handle h) then 1 else 0)"
proof (cases "v = is_volatile h \<and> k = any_key (ro_handle h)")
  case True
  then have "fds_on (F(fd \<mapsto> h)) v k = insert fd (fds_on F v k)" "fd \<notin> fds_on F v k" using assms(2) by (auto simp: fds_on_def)
  then show ?thesis using True fds_finite[OF r] by simp
next
  case False
  then have "fds_on (F(fd \<mapsto> h)) v k = fds_on F v k" using assms(2) by (auto simp: fds_on_def)
  then show ?thesis using False by auto
qed

lemma fds_closed:
  assumes r: "ram_rel c F S" and "F fd = Some h"
  shows "card (fds_on (F(fd := None)) v k) = card (fds_on F v k) - (if v = is_volatile h \<and> k = any_key (ro_handle h) then 1 else 0)"
proof (cases "v = is_volatile h \<and> k = any_key (ro_handle h)")
  case True
  then have "fds_on (F(fd := None)) v k = fds_on F v k - {fd}" "fd \<in> fds_on F v k" using assms(2) by (auto simp: fds_on_def)
  then show ?thesis using True fds_finite[OF r] by simp
next
  case False
  then have "fds_on (F(fd := None)) v k = fds_on F v k" using assms(2) by (auto simp: fds_on_def)
  then show ?thesis using False by auto
qed

text \<open>The effect of a new descriptor on an object that is stored: a reference more.\<close>

definition referenced :: "bool \<Rightarrow> digest \<Rightarrow> (nat \<Rightarrow> nat) \<Rightarrow> (bool \<Rightarrow> (digest \<times> kv_object) list) \<Rightarrow> bool \<Rightarrow> (digest \<times> kv_object) list" where
  "referenced v k f S = (case map_of (S v) k of None \<Rightarrow> S
     | Some ob \<Rightarrow> S(v := al_remove k (S v) @ [(k, ob\<lparr>obj_refcount := f (obj_refcount ob)\<rparr>)]))"

lemma referenced_simps:
  assumes "map_of (S v) k = Some ob"
  shows "refs (referenced v k f S w) j = (if w = v \<and> j = k then f (obj_refcount ob) else refs (S w) j)"
    "bytes_of (referenced v k f S w) j = bytes_of (S w) j"
  using assms by (auto simp: referenced_def moved_simps) (auto simp: bytes_of_def)

lemma AddFd_ok:
  assumes r: "ram_rel c F S" and h: "kv_key_ok (ro_handle h)"
  obtains "card (dom F) = GetMaxFds (ram_fds c)" "AddFd h c = Some (- ENFILE, Inc N_enfile c)"
  | fd t where "card (dom F) < GetMaxFds (ram_fds c)" "AddFd h c = Some (fd, c\<lparr>ram_fds := t\<rparr>)" "0 \<le> fd" "F fd = None" "fd_inv t" "fd_abs t = F(fd \<mapsto> h)"
      "handle_eq t = handle_equal" "invalid_handle t = ReadOnlyHandle_new" "GetMaxFds t = GetMaxFds (ram_fds c)"
proof -
  note R = ram_relD[OF r]
  have good: "\<not> handle_eq (ram_fds c) h (invalid_handle (ram_fds c))" using key_ok_handle[OF h] R(3,4) by simp
  consider "card (dom F) = GetMaxFds (ram_fds c)" | "card (dom F) < GetMaxFds (ram_fds c)"
    using fdt.card_le[OF R(1)] R(2) by fastforce
  then show ?thesis
  proof cases
    case 1
    then show ?thesis using OpenFd_errors(2)[OF R(1) good] R(2) by (intro that(1)) (simp_all add: AddFd_def)
  next
    case 2
    obtain fd t where "OpenFd h (ram_fds c) = Some (fd, t)" "fd_inv t" "0 \<le> fd" "F fd = None" "fd_abs t = F(fd \<mapsto> h)"
      "GetMaxFds t = GetMaxFds (ram_fds c)" "invalid_handle t = ReadOnlyHandle_new" "handle_eq t = handle_equal"
      using OpenFd_ok[OF R(1) good] 2 R(2-4) by auto
    then show ?thesis using 2 by (intro that(2)[of fd t]) (simp_all add: AddFd_def ENFILE_def)
  qed
qed

text \<open>Opening a descriptor on a stored object and counting its reference, as in \<open>DoOpen\<close> and \<open>Dup\<close>.\<close>

lemma add_reference:
  assumes r: "ram_rel c F S" and h: "kv_key_ok (ro_handle h)" and ob: "map_of (S (is_volatile h)) (any_key (ro_handle h)) = Some ob"
    and t: "F fd = None" "fd_inv t" "fd_abs t = F(fd \<mapsto> h)" "handle_eq t = handle_equal" "invalid_handle t = ReadOnlyHandle_new"
      "GetMaxFds t = GetMaxFds (ram_fds c)"
  shows "\<exists>s. kv_IncRef (ro_handle h) (ram_store (is_volatile h) c) = Some (True, s) \<and>
    ram_rel (put_store (is_volatile h) s (c\<lparr>ram_fds := t\<rparr>)) (F(fd \<mapsto> h)) (referenced (is_volatile h) (any_key (ro_handle h)) Suc S)"
proof -
  let ?v = "is_volatile h" let ?k = "any_key (ro_handle h)"
  note R = ram_relD[OF r]
  have "obj_refcount ob \<le> card (fds_on F ?v ?k) + 1" using R(9)[of ?v ?k] ob by (simp add: refs_def)
  then have "obj_refcount ob < 4294967295" using fds_card_le[OF r, of ?v ?k] by simp
  then obtain s where s: "kv_IncRef (ro_handle h) (ram_store ?v c) = Some (True, s)"
    "kv_view s (al_remove ?k (S ?v) @ [(?k, ob\<lparr>obj_refcount := obj_refcount ob + 1\<rparr>)])"
    using kv_IncRef_ok[OF R(6)[of ?v] h] ob by auto
  have S': "referenced ?v ?k Suc S = S(?v := al_remove ?k (S ?v) @ [(?k, ob\<lparr>obj_refcount := obj_refcount ob + 1\<rparr>)])"
    using ob by (simp add: referenced_def)
  have "ram_rel (put_store ?v s (c\<lparr>ram_fds := t\<rparr>)) (F(fd \<mapsto> h)) (referenced ?v ?k Suc S)"
  proof (rule ram_relI[OF r])
    fix v k
    show "card (fds_on (F(fd \<mapsto> h)) v k) + refs (S v) k = card (fds_on F v k) + refs (referenced ?v ?k Suc S v) k"
      using fds_opened[OF r t(1), of h v k] refs_present[OF ob] by (simp add: referenced_simps(1)[of S ?v ?k ob Suc, OF ob])
    show "kv_view (ram_store v (put_store ?v s (c\<lparr>ram_fds := t\<rparr>))) (referenced ?v ?k Suc S v)" using s(2) R(6) S' by simp
    show "kv_key_ok (ro_handle g)" if "(F(fd \<mapsto> h)) fd' = Some g" for fd' g using that h R(7) by (auto split: if_splits)
  qed (use t in simp_all)
  then show ?thesis using s(1) by blast
qed

text \<open>
  \<open>Open\<close> prefers the regular object.  It fails for an unknown object and if all descriptors are in
  use, without changing what is open or stored; otherwise the new descriptor holds a reference.
\<close>

definition found_in :: "(bool \<Rightarrow> (digest \<times> kv_object) list) \<Rightarrow> digest \<Rightarrow> bool option" where
  "found_in S k = (if map_of (S False) k \<noteq> None then Some False else if map_of (S True) k \<noteq> None then Some True else None)"

lemma contains_step:
  assumes r: "ram_rel c F S" and i: "kv_key_ok i"
  shows "\<exists>s. kv_Contains i (ram_store v c) = Some (map_of (S v) (any_key i) \<noteq> None, s) \<and> ram_rel (put_store v s c) F S"
proof -
  obtain s where s: "kv_Contains i (ram_store v c) = Some (map_of (S v) (any_key i) \<noteq> None, s)" "kv_view s (S v)"
    using kv_Contains_ok[OF ram_relD(6)[OF r] i] by blast
  from ram_rel_put[OF r s(2), of v] show ?thesis using s(1) by simp
qed

lemma open_stored_ok:
  assumes r: "ram_rel c F S" and hk: "kv_key_ok (ro_handle h)" and ob: "map_of (S (is_volatile h)) (any_key (ro_handle h)) = Some ob"
  shows "if card (dom F) < GetMaxFds (ram_fds c)
    then \<exists>fd c'. open_stored h c = Some (fd, c') \<and> 0 \<le> fd \<and> F fd = None \<and> max_size c' = max_size c \<and>
      ram_rel c' (F(fd \<mapsto> h)) (referenced (is_volatile h) (any_key (ro_handle h)) Suc S)
    else \<exists>c'. open_stored h c = Some (- ENFILE, c') \<and> ram_rel c' F S \<and> max_size c' = max_size c"
proof (rule AddFd_ok[OF r hk])
  assume "card (dom F) = GetMaxFds (ram_fds c)" "AddFd h c = Some (- ENFILE, Inc N_enfile c)"
  then show ?thesis using r by (simp add: open_stored_def ENFILE_def)
next
  fix fd t assume t: "card (dom F) < GetMaxFds (ram_fds c)" "AddFd h c = Some (fd, c\<lparr>ram_fds := t\<rparr>)" "0 \<le> fd"
    "F fd = None" "fd_inv t" "fd_abs t = F(fd \<mapsto> h)" "handle_eq t = handle_equal" "invalid_handle t = ReadOnlyHandle_new"
    "GetMaxFds t = GetMaxFds (ram_fds c)"
  define m where "m = (if is_volatile h then N_openvolatile else N_openregular)"
  have c2: "Inc m (c\<lparr>ram_fds := t\<rparr>) = (Inc m c)\<lparr>ram_fds := t\<rparr>" by (simp add: Inc_def)
  have "ram_rel (Inc m c) F S" using r by simp
  from add_reference[OF this hk ob t(4-8)] t(9) obtain s where "kv_IncRef (ro_handle h) (ram_store (is_volatile h) c) = Some (True, s)"
    "ram_rel (put_store (is_volatile h) s ((Inc m c)\<lparr>ram_fds := t\<rparr>)) (F(fd \<mapsto> h)) (referenced (is_volatile h) (any_key (ro_handle h)) Suc S)"
    by auto
  moreover from this(1) have "open_stored h c = Some (fd, put_store (is_volatile h) s (Inc m (c\<lparr>ram_fds := t\<rparr>)))"
    using t(2,3) by (cases "is_volatile h") (simp_all add: open_stored_def m_def Let_def)
  ultimately show ?thesis using t(1,3,4) c2 by simp
qed

lemma DoOpen_ok:
  assumes r: "ram_rel c F S" and i: "kv_key_ok i"
  shows "case found_in S (any_key i) of
      None \<Rightarrow> \<exists>c'. DoOpen i c = Some (- ENOENT, c') \<and> ram_rel c' F S \<and> max_size c' = max_size c
    | Some v \<Rightarrow> if card (dom F) < GetMaxFds (ram_fds c)
        then \<exists>fd c'. DoOpen i c = Some (fd, c') \<and> 0 \<le> fd \<and> F fd = None \<and> max_size c' = max_size c \<and>
          ram_rel c' (F(fd \<mapsto> \<lparr>ro_handle = i, is_volatile = v\<rparr>)) (referenced v (any_key i) Suc S)
        else \<exists>c'. DoOpen i c = Some (- ENFILE, c') \<and> ram_rel c' F S \<and> max_size c' = max_size c"
proof -
  let ?k = "any_key i"
  obtain s0 where s0: "kv_Contains i (ram_store False c) = Some (map_of (S False) ?k \<noteq> None, s0)" "ram_rel (put_store False s0 c) F S"
    using contains_step[OF r i] by blast
  define c0 where "c0 = put_store False s0 c"
  obtain s1 where s1: "kv_Contains i (ram_store True c0) = Some (map_of (S True) ?k \<noteq> None, s1)" "ram_rel (put_store True s1 c0) F S"
    using contains_step[of c0, OF _ i] s0(2) unfolding c0_def by blast
  define c1 where "c1 = put_store True s1 c0"
  have D: "DoOpen i c = (if map_of (S False) ?k \<noteq> None then open_stored \<lparr>ro_handle = i, is_volatile = False\<rparr> c0
     else if map_of (S True) ?k \<noteq> None then open_stored \<lparr>ro_handle = i, is_volatile = True\<rparr> c1 else Some (- ENOENT, Inc N_openmiss c1))"
    using s0(1) s1(1) by (simp add: DoOpen_def ram_store_def put_store_def c0_def c1_def)
  have same: "ram_fds c0 = ram_fds c" "max_size c0 = max_size c" "ram_fds c1 = ram_fds c" "max_size c1 = max_size c" by (simp_all add: c1_def c0_def)
  show ?thesis
  proof (cases "map_of (S False) ?k")
    case (Some ob)
    then show ?thesis using open_stored_ok[OF s0(2), of "\<lparr>ro_handle = i, is_volatile = False\<rparr>" ob] i D same
      by (simp add: found_in_def c0_def split: if_splits)
  next
    case F: None
    show ?thesis
    proof (cases "map_of (S True) ?k")
      case (Some ob)
      then show ?thesis using F open_stored_ok[OF s1(2), of "\<lparr>ro_handle = i, is_volatile = True\<rparr>" ob] i D same
        by (simp add: found_in_def c1_def split: if_splits)
    next
      case None
      then show ?thesis using F D s1(2) same by (simp add: found_in_def c1_def)
    qed
  qed
qed

lemma ram_Pread_ok:
  assumes r: "ram_rel c F S"
  shows "case F fd of None \<Rightarrow> ram_Pread fd n off c = Some (- EBADF, [], c)
    | Some h \<Rightarrow> \<exists>bs c'. bytes_of (S (is_volatile h)) (any_key (ro_handle h)) = Some bs \<and>
        ram_Pread fd n off c = Some (int (length (take n (drop off bs))), take n (drop off bs), c') \<and> max_size c' = max_size c \<and>
        ram_rel c' F (S(is_volatile h := al_touch (any_key (ro_handle h)) (S (is_volatile h))))"
proof (cases "F fd")
  case None
  then show ?thesis using handle_cases(1)[OF r] by (simp add: ram_Pread_def Let_def)
next
  case (Some h)
  let ?v = "is_volatile h" let ?k = "any_key (ro_handle h)"
  obtain ob where ob: "map_of (S ?v) ?k = Some ob" using open_object[OF r Some] by blast
  obtain s where s: "kv_Read (ro_handle h) n off (ram_store ?v c) = Some (int (length (take n (drop off (obj_bytes ob)))), take n (drop off (obj_bytes ob)), s)"
    "kv_view s (al_touch ?k (S ?v))" using kv_Read_ok[OF ram_relD(6)[OF r] ram_relD(7)[OF r Some], of n off ?v] ob by auto
  have "ram_rel (Inc N_pread c) F S" using r by simp
  from ram_rel_put[OF this s(2), of ?v] show ?thesis using s(1) Some handle_cases(2)[OF r Some] ob
    by (simp add: ram_Pread_def Let_def bytes_of_def)
qed

lemma ram_GetSize_ok:
  assumes r: "ram_rel c F S"
  shows "case F fd of None \<Rightarrow> ram_GetSize fd c = Some (- EBADF, c)
    | Some h \<Rightarrow> \<exists>bs c'. bytes_of (S (is_volatile h)) (any_key (ro_handle h)) = Some bs \<and> ram_GetSize fd c = Some (int (length bs), c') \<and>
        ram_rel c' F S \<and> max_size c' = max_size c"
proof (cases "F fd")
  case None
  then show ?thesis using handle_cases(1)[OF r] by (simp add: ram_GetSize_def Let_def)
next
  case (Some h)
  let ?v = "is_volatile h" let ?k = "any_key (ro_handle h)"
  obtain ob where ob: "map_of (S ?v) ?k = Some ob" using open_object[OF r Some] by blast
  obtain s where s: "kv_GetSize (ro_handle h) (ram_store ?v c) = Some (int (length (obj_bytes ob)), s)"
    "kv_view s (S ?v)" using kv_GetSize_ok[OF ram_relD(6)[OF r] ram_relD(7)[OF r Some], of ?v] ob by auto
  have "ram_rel (Inc N_getsize c) F S" using r by simp
  from ram_rel_put[OF this s(2), of ?v] show ?thesis using s(1) Some handle_cases(2)[OF r Some] ob
    by (simp add: ram_GetSize_def Let_def bytes_of_def)
qed

text \<open>\<open>Close\<close> gives back the reference; the assertions on the reference count and on the table hold.\<close>

lemma ram_Close_ok:
  assumes r: "ram_rel c F S"
  shows "case F fd of None \<Rightarrow> ram_Close fd c = Some (- EBADF, c)
    | Some h \<Rightarrow> \<exists>c'. ram_Close fd c = Some (0, c') \<and> max_size c' = max_size c \<and>
        ram_rel c' (F(fd := None)) (referenced (is_volatile h) (any_key (ro_handle h)) (\<lambda>n. n - 1) S)"
proof (cases "F fd")
  case None
  then show ?thesis using handle_cases(1)[OF r] by (simp add: ram_Close_def Let_def)
next
  case (Some h)
  let ?v = "is_volatile h" let ?k = "any_key (ro_handle h)" let ?S = "referenced ?v ?k (\<lambda>n. n - 1) S"
  note R = ram_relD[OF r]
  obtain ob where ob: "map_of (S ?v) ?k = Some ob" "obj_refcount ob > 0" using open_object[OF r Some] by blast
  obtain s where s: "kv_Unref (ro_handle h) (ram_store ?v c) = Some (True, s)" "kv_view s (al_remove ?k (S ?v) @ [(?k, ob\<lparr>obj_refcount := obj_refcount ob - 1\<rparr>)])"
    using kv_Unref_ok[OF R(6) R(7)[OF Some], of ?v] ob by auto
  have S': "?S = S(?v := al_remove ?k (S ?v) @ [(?k, ob\<lparr>obj_refcount := obj_refcount ob - 1\<rparr>)])" using ob(1) by (simp add: referenced_def)
  obtain t where t: "CloseFd fd (ram_fds c) = Some (0, t)" "fd_inv t" "fd_abs t = F(fd := None)" "GetMaxFds t = GetMaxFds (ram_fds c)"
    "invalid_handle t = ReadOnlyHandle_new" "handle_eq t = handle_equal" using CloseFd_ok[OF R(1), of fd h] R(2-4) Some by auto
  let ?c = "Inc N_close ((put_store ?v s c)\<lparr>ram_fds := t\<rparr>)"
  have pos: "card (fds_on F ?v ?k) > 0" using Some fds_finite[OF r] by (auto simp: card_gt_0_iff fds_on_def)
  have "ram_rel ?c (F(fd := None)) ?S"
  proof (rule ram_relI[OF r])
    fix v k
    show "card (fds_on (F(fd := None)) v k) + refs (S v) k = card (fds_on F v k) + refs (?S v) k"
      using fds_closed[OF r Some, of v k] refs_present[OF ob(1)] pos ob(2) by (auto simp: referenced_simps(1)[of S ?v ?k ob, OF ob(1)])
    show "kv_view (ram_store v ?c) (?S v)" using s(2) R(6) S' by simp
    show "kv_key_ok (ro_handle g)" if "(F(fd := None)) fd' = Some g" for fd' g using that R(7) by (auto split: if_splits)
  qed (use t in simp_all)
  then show ?thesis using s(1) t(1) Some handle_cases(2)[OF r Some] by (auto simp: ram_Close_def Let_def)
qed

lemma ram_Dup_ok:
  assumes r: "ram_rel c F S"
  shows "case F fd of None \<Rightarrow> ram_Dup fd c = Some (- EBADF, c)
    | Some h \<Rightarrow> if card (dom F) < GetMaxFds (ram_fds c)
        then \<exists>fd' c'. ram_Dup fd c = Some (fd', c') \<and> 0 \<le> fd' \<and> F fd' = None \<and>
          ram_rel c' (F(fd' \<mapsto> h)) (referenced (is_volatile h) (any_key (ro_handle h)) Suc S)
        else \<exists>c'. ram_Dup fd c = Some (- ENFILE, c') \<and> ram_rel c' F S"
proof (cases "F fd")
  case None
  then show ?thesis using handle_cases(1)[OF r] by (simp add: ram_Dup_def Let_def)
next
  case (Some h)
  obtain ob where ob: "map_of (S (is_volatile h)) (any_key (ro_handle h)) = Some ob" using open_object[OF r Some] by blast
  note hk = ram_relD(7)[OF r Some] and H = handle_cases(2)[OF r Some]
  show ?thesis
  proof (rule AddFd_ok[OF r hk])
    assume "card (dom F) = GetMaxFds (ram_fds c)" "AddFd h c = Some (- ENFILE, Inc N_enfile c)"
    then show ?thesis using r Some H by (simp add: ram_Dup_def ENFILE_def Let_def)
  next
    fix fd' t assume t: "card (dom F) < GetMaxFds (ram_fds c)" "AddFd h c = Some (fd', c\<lparr>ram_fds := t\<rparr>)" "0 \<le> fd'"
      "F fd' = None" "fd_inv t" "fd_abs t = F(fd' \<mapsto> h)" "handle_eq t = handle_equal" "invalid_handle t = ReadOnlyHandle_new"
      "GetMaxFds t = GetMaxFds (ram_fds c)"
    from add_reference[OF r hk ob t(4-9)] show ?thesis using t(1-4) Some H by (auto simp: ram_Dup_def Let_def)
  qed
qed

section \<open>Construction\<close>

lemma RamCacheManager_new_ok:
  assumes n: "64 dvd n" "128 \<le> n" "n \<le> 2 ^ 31" "tparams_ok tp" "0 < sz" "sz * n < 2 ^ 32" and m: "malloc_ok mal"
  shows "\<exists>c. RamCacheManager_new sz tp mem fresh mal max_sz n kMallocLibc = Some c \<and> ram_rel c Map.empty (\<lambda>_. []) \<and> max_size c = max_sz \<and>
    GetMaxFds (ram_fds c) = n \<and> (\<forall>v. max_entries (ram_store v c) = n \<and> allocator_kind (ram_store v c) = kMallocLibc \<and> libc_malloc (ram_store v c) = mal)"
proof -
  obtain t where t: "FdTable_new handle_equal n ReadOnlyHandle_new = Some t" "fd_inv t" "fd_abs t = Map.empty" "GetMaxFds t = n"
    "invalid_handle t = ReadOnlyHandle_new" "handle_eq t = handle_equal"
    using FdTable_new_inv[of n handle_equal ReadOnlyHandle_new] n by (auto simp: handle_equal_def)
  obtain st where st: "MemoryKvStore_new sz tp mem fresh mal n kMallocLibc (u32 max_sz) = Some st" "kv_view st []" "max_entries st = n"
    "allocator_kind st = kMallocLibc" "libc_malloc st = mal" using MemoryKvStore_new_ok[OF n, of kMallocLibc mal] m by blast
  define c where "c = \<lparr>max_size = max_sz, ram_fds = t, regular_entries = st, volatile_entries = st, ram_counters = ram_counters_new\<rparr>"
  have "fds_on Map.empty v k = {}" for v k by (simp add: fds_on_def)
  then have "ram_rel c Map.empty (\<lambda>_. [])" using t st(2) n(3) by (simp add: ram_rel_def c_def ram_store_def refs_def)
  moreover have "RamCacheManager_new sz tp mem fresh mal max_sz n kMallocLibc = Some c" using t(1) st(1) by (simp add: RamCacheManager_new_def c_def)
  ultimately show ?thesis using t(4) st(3-5) by (auto simp: c_def ram_store_def)
qed

end
