(* ===== verification/RamCommit.thy ===== *)
theory RamCommit
  imports RamCache KvProps
begin

text \<open>
  Transactions of the in-memory cache manager: making room for a new object, committing it, and the
  operations of the base class that commit from and open into memory.
\<close>

section \<open>Making room\<close>

lemma s64_small: "n < 2 ^ 63 \<Longrightarrow> s64 n = int n"
  by (simp add: s64_def)

lemma i64_small:
  assumes "- (2 ^ 63) \<le> x" "x < 2 ^ 63"
  shows "i64 x = x"
proof (cases "0 \<le> x")
  case True
  then show ?thesis using assms by (simp add: i64_def s64_def)
next
  case False
  have "(x + 2 ^ 64) mod 2 ^ 64 = x + 2 ^ 64" using False assms by (intro mod_pos_pos_trivial) auto
  then have "x mod 2 ^ 64 = x + 2 ^ 64" by simp
  then show ?thesis using False assms by (simp add: i64_def s64_def)
qed

lemma kv_used_subseq: "subseq xs ys \<Longrightarrow> kv_used xs \<le> kv_used ys"
  by (induction rule: list_emb.induct) (auto simp: kv_used_def)

lemma subseq_set: "subseq xs ys \<Longrightarrow> x \<in> set xs \<Longrightarrow> x \<in> set ys"
  by (induction rule: list_emb.induct) auto

lemma subseq_distinct: "subseq xs ys \<Longrightarrow> distinct ys \<Longrightarrow> distinct xs"
proof (induction rule: list_emb.induct)
  case (list_emb_Cons2 x y xs ys)
  then have "set xs \<subseteq> set ys" by (auto dest: subseq_set)
  then show ?case using list_emb_Cons2 by auto
qed simp_all

lemma nat_max_zero: "nat (max 0 x) = nat x"
  by (simp add: max_def)

lemma shrunk_map_of:
  assumes d: "distinct (map fst os)"
  shows "map_of (shrunk n u os) k = Some ob \<Longrightarrow> map_of os k = Some ob"
    "map_of os k = Some ob \<Longrightarrow> obj_refcount ob > 0 \<Longrightarrow> map_of (shrunk n u os) k = Some ob"
proof -
  have s: "subseq (shrunk n u os) os" by (rule shrunk_subset)
  have d': "distinct (map fst (shrunk n u os))" using subseq_map[OF s] d subseq_distinct by blast
  show "map_of (shrunk n u os) k = Some ob \<Longrightarrow> map_of os k = Some ob" using s d d' by (auto dest!: map_of_SomeD dest: subseq_set[OF s])
  show "map_of os k = Some ob \<Longrightarrow> obj_refcount ob > 0 \<Longrightarrow> map_of (shrunk n u os) k = Some ob"
    using shrunk_protects[of k ob os n u] d d' by (auto dest: map_of_SomeD)
qed

lemma shrunk_refs:
  assumes "distinct (map fst os)"
  shows "refs (shrunk n u os) k = refs os k"
proof (cases "map_of os k")
  case None
  then have "map_of (shrunk n u os) k = None" using shrunk_map_of(1)[OF assms, of n u k] by (cases "map_of (shrunk n u os) k") auto
  then show ?thesis using None by (simp add: refs_def)
next
  case (Some ob)
  then show ?thesis
    using shrunk_map_of(1)[OF assms, of n u k] shrunk_map_of(2)[OF assms Some, of n u] by (cases "map_of (shrunk n u os) k") (auto simp: refs_def)
qed

text \<open>What making room does to the objects of a store: it may drop objects without references.\<close>

definition evicted :: "(digest \<times> kv_object) list \<Rightarrow> (digest \<times> kv_object) list \<Rightarrow> bool" where
  "evicted os os' \<longleftrightarrow> os' = os \<or> (\<exists>n. os' = shrunk n (kv_used os) os)"

lemma evictedD:
  assumes "evicted os os'" "distinct (map fst os)"
  shows "refs os' k = refs os k" "kv_used os' \<le> kv_used os" "refs os k > 0 \<Longrightarrow> map_of os' k = map_of os k"
    "map_of os' k = Some ob \<Longrightarrow> map_of os k = Some ob"
proof -
  obtain n where n: "os' = os \<or> os' = shrunk n (kv_used os) os" using assms(1) by (auto simp: evicted_def)
  show "refs os' k = refs os k" using n shrunk_refs[OF assms(2)] by metis
  show "kv_used os' \<le> kv_used os" using n kv_used_subseq[OF shrunk_subset] by (metis order_refl)
  show "map_of os' k = Some ob \<Longrightarrow> map_of os k = Some ob" using n shrunk_map_of(1)[OF assms(2)] by metis
  assume "refs os k > 0"
  then obtain ob where ob: "map_of os k = Some ob" "obj_refcount ob > 0" by (auto simp: refs_def split: option.splits)
  show "map_of os' k = map_of os k" using n shrunk_map_of(2)[OF assms(2) ob] ob(1) by metis
qed

lemma shrink_step:
  assumes r: "ram_rel c F S"
  shows "\<exists>b s. ShrinkTo n (ram_store v c) = Some (b, s) \<and> ram_rel (put_store v s c) F (S(v := shrunk n (kv_used (S v)) (S v)))"
proof -
  obtain b s where s: "ShrinkTo n (ram_store v c) = Some (b, s)" "kv_view s (shrunk n (kv_used (S v)) (S v))"
    using ShrinkTo_ok[OF ram_relD(6)[OF r]] by blast
  from ram_rel_put[OF r s(2), of v] shrunk_refs[OF view_distinct[OF ram_relD(6)[OF r]]] s(1) show ?thesis by auto
qed

text \<open>
  The sizes during \<open>make_room\<close>: the overrun is compared as a signed number, which is exact below the
  bounds assumed here.
\<close>

lemma make_room_fits:
  assumes r: "ram_rel c F S" and small: "kv_used (S False) + kv_used (S True) + sz < 2 ^ 62" "max_size c < 2 ^ 62"
    and fits: "kv_used (S False) + kv_used (S True) + sz \<le> max_size c"
  shows "\<exists>ov. make_room sz c = Some (ov, c) \<and> ov \<le> 0"
proof -
  have u: "GetUsed (regular_entries c) = kv_used (S False)" "GetUsed (volatile_entries c) = kv_used (S True)"
    using view_used[OF ram_relD(6)[OF r, of False]] view_used[OF ram_relD(6)[OF r, of True]] by (simp_all add: ram_store_def)
  define ov where "ov = int (kv_used (S False)) + int (kv_used (S True)) + int sz - int (max_size c)"
  have "i64 ov = ov" "ov \<le> 0" using small fits by (simp_all add: ov_def i64_small)
  then show ?thesis using u small by (simp add: make_room_def s64_small ov_def[symmetric] Let_def)
qed

text \<open>The number of bytes that \<open>make_room\<close> wants to free: at least a quarter of the cache.\<close>

definition room_goal :: "(bool \<Rightarrow> (digest \<times> kv_object) list) \<Rightarrow> nat \<Rightarrow> nat \<Rightarrow> int" where
  "room_goal S sz m = max (int (kv_used (S False)) + int (kv_used (S True)) + int sz - int m) (int m div 4)"

lemma make_room_shrinks:
  assumes r: "ram_rel c F S" and small: "kv_used (S False) + kv_used (S True) + sz < 2 ^ 62" "max_size c < 2 ^ 62"
    and over: "kv_used (S False) + kv_used (S True) + sz > max_size c"
  shows "\<exists>ov c' S' ov1. make_room sz c = Some (ov, c') \<and> ram_rel c' F S' \<and> (\<forall>v. evicted (S v) (S' v)) \<and> max_size c' = max_size c \<and> ram_fds c' = ram_fds c \<and>
    ov1 = room_goal S sz (max_size c) - (int (kv_used (S True)) - int (kv_used (S' True))) \<and>
    ov = ov1 - (int (kv_used (S False)) - int (kv_used (S' False))) \<and>
    (ov1 > 0 \<longrightarrow> S' False = shrunk (nat (int (kv_used (S False)) - ov1)) (kv_used (S False)) (S False))"
proof -
  define R where "R = int (kv_used (S False))"
  define V where "V = int (kv_used (S True))"
  define M where "M = int (max_size c)"
  define ov where "ov = R + V + int sz - M"
  define ov' where "ov' = max ov (M div 4)"
  have goal: "room_goal S sz (max_size c) = ov'" by (simp add: room_goal_def ov'_def ov_def R_def V_def M_def)
  have u: "GetUsed (regular_entries c) = kv_used (S False)" "GetUsed (volatile_entries c) = kv_used (S True)"
    using view_used[OF ram_relD(6)[OF r, of False]] view_used[OF ram_relD(6)[OF r, of True]] by (simp_all add: ram_store_def)
  have o: "i64 ov = ov" "ov > 0" using small over by (simp_all add: ov_def R_def V_def M_def i64_small)
  obtain b1 s1 where s1: "ShrinkTo (nat (V - ov')) (ram_store True (Inc N_overrun c)) = Some (b1, s1)"
    "ram_rel (put_store True s1 (Inc N_overrun c)) F (S(True := shrunk (nat (V - ov')) (kv_used (S True)) (S True)))"
    using shrink_step[of "Inc N_overrun c" F S "nat (V - ov')" True] r by auto
  define c1 where "c1 = put_store True s1 (Inc N_overrun c)"
  define S1 where "S1 = S(True := shrunk (nat (V - ov')) (kv_used (S True)) (S True))"
  have r1: "ram_rel c1 F S1" using s1(2) by (simp add: c1_def S1_def)
  have u1: "GetUsed (volatile_entries c1) = kv_used (S1 True)" "GetUsed (regular_entries c1) = kv_used (S False)"
    using view_used[OF ram_relD(6)[OF r1, of True]] view_used[OF ram_relD(6)[OF r1, of False]] by (simp_all add: ram_store_def S1_def)
  have le1: "kv_used (S1 True) \<le> kv_used (S True)" by (simp add: S1_def kv_used_subseq shrunk_subset)
  define ov1 where "ov1 = ov' - (V - int (kv_used (S1 True)))"
  have o1: "i64 ov1 = ov1" using le1 small o(2) by (intro i64_small) (simp_all add: ov1_def ov'_def ov_def R_def V_def M_def)
  have ev1: "evicted (S v) (S1 v)" for v by (auto simp: S1_def evicted_def)
  have mk: "make_room sz c = do {
     c \<leftarrow> (if ov1 > 0 then do { (_, s) \<leftarrow> ShrinkTo (nat (R - ov1)) (regular_entries c1); Some (c1\<lparr>regular_entries := s\<rparr>) } else Some c1);
     Some (i64 (ov1 - (R - int (GetUsed (regular_entries c)))), c) }"
    using u small s1(1) o u1(1) o1[unfolded ov1_def]
    by (simp add: make_room_def s64_small Let_def R_def[symmetric] V_def[symmetric] M_def[symmetric] ov_def[symmetric] ov'_def[symmetric]
        nat_max_zero ram_store_def put_store_def c1_def ov1_def cong: if_cong)
  show ?thesis
  proof (cases "ov1 > 0")
    case False
    then have "make_room sz c = Some (ov1, c1)" using mk u1(2) o1 by (simp add: R_def)
    moreover have "max_size c1 = max_size c" "ram_fds c1 = ram_fds c" "S1 False = S False" by (simp_all add: c1_def S1_def)
    ultimately show ?thesis using r1 ev1 False goal by (intro exI[of _ ov1] exI[of _ c1] exI[of _ S1]) (simp add: ov1_def V_def)
  next
    case True
    obtain b2 s2 where s2: "ShrinkTo (nat (R - ov1)) (ram_store False c1) = Some (b2, s2)"
      "ram_rel (put_store False s2 c1) F (S1(False := shrunk (nat (R - ov1)) (kv_used (S False)) (S False)))"
      using shrink_step[OF r1, of "nat (R - ov1)" False] by (auto simp: S1_def)
    define c2 where "c2 = put_store False s2 c1"
    define S2 where "S2 = S1(False := shrunk (nat (R - ov1)) (kv_used (S False)) (S False))"
    have r2: "ram_rel c2 F S2" using s2(2) by (simp add: c2_def S2_def)
    have u2: "GetUsed (regular_entries c2) = kv_used (S2 False)" using view_used[OF ram_relD(6)[OF r2, of False]] by (simp add: ram_store_def)
    have le2: "kv_used (S2 False) \<le> kv_used (S False)" by (simp add: S2_def kv_used_subseq shrunk_subset)
    define ov2 where "ov2 = ov1 - (R - int (kv_used (S2 False)))"
    have o2: "i64 ov2 = ov2" using le1 le2 small o(2) True
      by (intro i64_small) (simp_all add: ov2_def ov1_def ov'_def ov_def R_def V_def M_def)
    have "make_room sz c = Some (ov2, c2)" using mk s2(1) True u2 o2 by (simp add: ram_store_def c2_def put_store_def ov2_def)
    moreover have "evicted (S v) (S2 v)" for v using ev1[of v] by (auto simp: S2_def evicted_def)
    moreover have "max_size c2 = max_size c" "ram_fds c2 = ram_fds c" by (simp_all add: c2_def c1_def)
    moreover have "S2 True = S1 True" "S2 False = shrunk (nat (R - ov1)) (kv_used (S False)) (S False)" by (simp_all add: S2_def)
    ultimately show ?thesis using r2 goal
      by (intro exI[of _ ov2] exI[of _ c2] exI[of _ S2] exI[of _ ov1]) (simp add: ov2_def ov1_def R_def V_def)
  qed
qed

lemma make_room_ok:
  assumes r: "ram_rel c F S" and small: "kv_used (S False) + kv_used (S True) + sz < 2 ^ 62" "max_size c < 2 ^ 62"
  shows "\<exists>ov c' S'. make_room sz c = Some (ov, c') \<and> ram_rel c' F S' \<and> (\<forall>v. evicted (S v) (S' v)) \<and> max_size c' = max_size c \<and> ram_fds c' = ram_fds c \<and>
    (ov \<le> 0 \<longrightarrow> kv_used (S' False) + kv_used (S' True) + sz \<le> max_size c) \<and>
    (ov > 0 \<longrightarrow> kv_used (S False) + kv_used (S True) + sz > max_size c)"
proof (cases "kv_used (S False) + kv_used (S True) + sz \<le> max_size c")
  case True
  from make_room_fits[OF r small True] show ?thesis using r True by (auto simp: evicted_def)
next
  case False
  then obtain ov c' S' ov1 where M: "make_room sz c = Some (ov, c')" "ram_rel c' F S'" "\<forall>v. evicted (S v) (S' v)" "max_size c' = max_size c"
    "ram_fds c' = ram_fds c" "ov1 = room_goal S sz (max_size c) - (int (kv_used (S True)) - int (kv_used (S' True)))"
    "ov = ov1 - (int (kv_used (S False)) - int (kv_used (S' False)))"
    using make_room_shrinks[OF r small] by (auto simp: not_le)
  have "kv_used (S' False) + kv_used (S' True) + sz \<le> max_size c" if "ov \<le> 0"
    using that M(6,7) by (simp add: room_goal_def max_def split: if_splits)
  then show ?thesis using M(1-5) False by (intro exI[of _ ov] exI[of _ c'] exI[of _ S']) simp
qed

section \<open>Committing\<close>

definition tx_volatile :: "transaction \<Rightarrow> bool" where
  "tx_volatile txn = has_flag (object_flags (tx_buffer txn)) kLabelVolatile"

definition tx_pinned :: "transaction \<Rightarrow> bool" where
  "tx_pinned txn = (has_flag (object_flags (tx_buffer txn)) kLabelPinned \<or> has_flag (object_flags (tx_buffer txn)) kLabelCatalog)"

abbreviation tx_key :: "transaction \<Rightarrow> digest" where
  "tx_key txn \<equiv> any_key (buf_id (tx_buffer txn))"

definition tx_bytes :: "transaction \<Rightarrow> nat list" where
  "tx_bytes txn = take (buf_size (tx_buffer txn)) (case tx_mem txn of Some mem \<Rightarrow> mem | None \<Rightarrow> [])"

text \<open>A transaction as the operations leave it: the buffer has the size that the transaction says.\<close>

definition txn_ok :: "transaction \<Rightarrow> bool" where
  "txn_ok txn \<longleftrightarrow> kv_key_ok (buf_id (tx_buffer txn)) \<and> buf_size (tx_buffer txn) < 2 ^ 61 \<and> length (tx_bytes txn) = buf_size (tx_buffer txn)"

definition tx_ready :: "transaction \<Rightarrow> memory_buffer" where
  "tx_ready txn = (tx_buffer txn)\<lparr>refcount := (if tx_pinned txn then 1 else 0)\<rparr>"

lemma committed_refs:
  "refs (committed b src os) k = (if k = any_key (buf_id b) then (case map_of os k of None \<Rightarrow> refcount b | Some _ \<Rightarrow> refs os k) else refs os k)"
  by (auto simp: refs_def map_of_committed split: option.split)

lemma committed_bytes:
  "bytes_of (committed b src os) k = (if k = any_key (buf_id b) then Some (take (buf_size b) src) else bytes_of os k)"
  by (auto simp: bytes_of_def map_of_committed)

lemma committed_used: "kv_used (committed b src os) \<le> kv_used os + buf_size b"
proof -
  have "subseq (al_remove (any_key (buf_id b)) os) os" by (simp add: al_remove_def subseq_filter_left)
  from kv_used_subseq[OF this] show ?thesis by (simp add: committed_def Let_def kv_used_def)
qed

lemma ram_rel_commit:
  assumes r: "ram_rel c F S" and s: "kv_view s (committed b src (S v))" and n: "refcount b \<le> 1"
  shows "ram_rel (put_store v s c) F (S(v := committed b src (S v)))"
proof -
  have "card (fds_on F v k) \<le> refs (committed b src (S v)) k \<and> refs (committed b src (S v)) k \<le> card (fds_on F v k) + 1" for k
    using ram_relD(8,9)[OF r, of v k] n by (cases "map_of (S v) k") (auto simp: committed_refs, auto simp: refs_def)
  then show ?thesis using r s unfolding ram_rel_def by simp
qed

lemma CommitToKvStore_ok:
  assumes r: "ram_rel c F S" and t: "txn_ok txn" and small: "kv_used (S False) + kv_used (S True) + buf_size (tx_buffer txn) < 2 ^ 62" "max_size c < 2 ^ 62"
  shows "\<exists>rc c' S'. CommitToKvStore txn c = Some (rc, txn\<lparr>tx_buffer := tx_ready txn\<rparr>, c') \<and> (\<forall>v. evicted (S v) (S' v)) \<and> max_size c' = max_size c \<and>
    ram_fds c' = ram_fds c \<and>
    (rc = 0 \<and> kv_used (S' False) + kv_used (S' True) + buf_size (tx_buffer txn) \<le> max_size c \<and>
       ram_rel c' F (S'(tx_volatile txn := committed (tx_ready txn) (tx_bytes txn) (S' (tx_volatile txn)))) \<or>
     rc = - ENOSPC \<and> ram_rel c' F S' \<and> kv_used (S False) + kv_used (S True) + buf_size (tx_buffer txn) > max_size c \<or>
     rc = - ENFILE \<and> ram_rel c' F S' \<and> length (S' (tx_volatile txn)) = max_entries (ram_store (tx_volatile txn) c') \<or>
     rc = - EIO \<and> kv_no_memory (buf_size (tx_buffer txn)) (ram_store (tx_volatile txn) c') \<and>
       (map_of (S' (tx_volatile txn)) (tx_key txn) = None \<longrightarrow> ram_rel c' F S'))"
proof -
  let ?v = "tx_volatile txn" let ?b = "tx_ready txn" let ?n = "buf_size (tx_buffer txn)"
  obtain ov c1 S' where M: "make_room ?n c = Some (ov, c1)" "ram_rel c1 F S'" "\<forall>v. evicted (S v) (S' v)" "max_size c1 = max_size c" "ram_fds c1 = ram_fds c"
    "ov \<le> 0 \<longrightarrow> kv_used (S' False) + kv_used (S' True) + ?n \<le> max_size c" "ov > 0 \<longrightarrow> kv_used (S False) + kv_used (S True) + ?n > max_size c"
    using make_room_ok[OF r small] by blast
  show ?thesis
  proof (cases "ov > 0")
    case True
    then have "CommitToKvStore txn c = Some (- ENOSPC, txn\<lparr>tx_buffer := ?b\<rparr>, Inc N_full c1)"
      using M(1) by (simp add: CommitToKvStore_def tx_ready_def tx_pinned_def Let_def)
    then show ?thesis using M True by (intro exI[of _ "- ENOSPC"] exI[of _ "Inc N_full c1"] exI[of _ S']) simp
  next
    case False
    define src where "src = (case tx_mem txn of Some mem \<Rightarrow> mem | None \<Rightarrow> [])"
    have src: "tx_bytes txn = take ?n src" "?n \<le> length src" using t by (auto simp: tx_bytes_def src_def txn_ok_def)
    have b: "buf_id ?b = buf_id (tx_buffer txn)" "buf_size ?b = ?n" "refcount ?b \<le> 1" by (simp_all add: tx_ready_def)
    have com: "committed ?b src os = committed ?b (tx_bytes txn) os" for os by (simp add: committed_def src b)
    have room: "kv_used (S' ?v) + buf_size ?b < 2 ^ 63 - 1"
      using M(6) False small(2) b by (cases ?v) simp_all
    have ok: "kv_key_ok (buf_id ?b)" "buf_size ?b < 2 ^ 61" "buf_size ?b \<le> length src" using t src(2) b by (simp_all add: txn_ok_def)
    obtain rc s where K: "kv_Commit ?b src (ram_store ?v c1) = Some (rc, s)"
      "rc = 0 \<and> kv_view s (committed ?b src (S' ?v)) \<or>
       rc = - ENFILE \<and> map_of (S' ?v) (tx_key txn) = None \<and> length (S' ?v) = max_entries (ram_store ?v c1) \<and> kv_view s (S' ?v) \<or>
       rc = - EIO \<and> kv_no_memory ?n s \<and> (map_of (S' ?v) (tx_key txn) = None \<longrightarrow> kv_view s (S' ?v))"
      "kv_frame (ram_store ?v c1) s"
      using kv_Commit_ok[OF ram_relD(6)[OF M(2), of ?v] ok room] unfolding b by (elim exE conjE) (rule that)
    have C: "CommitToKvStore txn c = Some (if rc < 0 then rc else 0, txn\<lparr>tx_buffer := ?b\<rparr>, put_store ?v s c1)"
      using M(1) False K(1) by (simp add: CommitToKvStore_def tx_ready_def tx_pinned_def tx_volatile_def ram_store_def src_def Let_def cong: if_cong)
    have keep: "ram_rel (put_store ?v s c1) F S'" if "kv_view s (S' ?v)" using ram_rel_put[OF M(2) that, of ?v] by simp
    have new: "ram_rel (put_store ?v s c1) F (S'(?v := committed ?b (tx_bytes txn) (S' ?v)))" if "kv_view s (committed ?b src (S' ?v))"
      using ram_rel_commit[OF M(2) that b(3)] unfolding com .
    show ?thesis
      by (rule exI[of _ "if rc < 0 then rc else 0"], rule exI[of _ "put_store ?v s c1"], rule exI[of _ S'])
        (use K(2,3) C M(3-6) False keep new in \<open>auto simp: errno_defs kv_frame_def\<close>)
  qed
qed

text \<open>The parameters of the two stores do not change.\<close>

lemma make_room_env: "make_room sz c = Some (ov, c') \<Longrightarrow> kv_env (ram_store v c) (ram_store v c')"
  by (auto simp: make_room_def Let_def bind_eq_Some_conv ram_store_def Inc_def split: if_splits dest!: ShrinkTo_env) (simp_all add: kv_env_def)

lemma CommitToKvStore_env:
  assumes "CommitToKvStore txn c = Some (rc, txn', c')"
  shows "kv_env (ram_store v c) (ram_store v c')"
proof -
  obtain ov c1 where m: "make_room (buf_size (tx_buffer txn)) c = Some (ov, c1)" using assms by (auto simp: CommitToKvStore_def Let_def bind_eq_Some_conv)
  note e = make_room_env[OF m, of v]
  show ?thesis
  proof (cases "ov > 0")
    case True
    then have "c' = Inc N_full c1" using assms m by (simp add: CommitToKvStore_def Let_def)
    then show ?thesis using e by simp
  next
    case False
    define w where "w = has_flag (object_flags (tx_buffer txn)) kLabelVolatile"
    obtain b src rc' s where "kv_Commit b src (ram_store w c1) = Some (rc', s)" "c' = put_store w s c1"
      using assms m False by (auto simp: CommitToKvStore_def Let_def bind_eq_Some_conv ram_store_def w_def split: if_splits)
    then show ?thesis using e kv_env_trans kv_Commit_env by (cases "v = w") auto
  qed
qed

end
