(* ===== verification/RamProps.thy ===== *)
theory RamProps
  imports RamCommit
begin

text \<open>
  Properties of the in-memory cache manager: descriptors, pinning and eviction, the size limit, and the
  way of an object from the caller's memory through a transaction into the cache and back.
\<close>

section \<open>Staging\<close>

definition env_ok :: "heap_env \<Rightarrow> bool" where
  "env_ok env \<longleftrightarrow> (\<forall>n xs. env_malloc env n = Some xs \<longrightarrow> length xs = n) \<and>
     (\<forall>m n ys. env_realloc env m n = Some ys \<longrightarrow> length ys = n \<and>
        (let old = (case m of Some xs \<Rightarrow> xs | None \<Rightarrow> []) in take (min n (length old)) ys = take n old))"

definition tx_memory :: "transaction \<Rightarrow> nat list" where
  "tx_memory txn = (case tx_mem txn of Some mem \<Rightarrow> mem | None \<Rightarrow> [])"

text \<open>The transaction has received the bytes \<open>xs\<close> so far.\<close>

definition tx_staged :: "transaction \<Rightarrow> nat list \<Rightarrow> bool" where
  "tx_staged txn xs \<longleftrightarrow> pos txn = length xs \<and> length xs \<le> buf_size (tx_buffer txn) \<and>
     length (tx_memory txn) = buf_size (tx_buffer txn) \<and> take (length xs) (tx_memory txn) = xs"

lemma StartTxn_ok:
  assumes "env_ok env" "StartTxn env i sz c = (0, txn, c')"
  shows "tx_staged txn []" "c' = Inc N_starttxn c" "buf_id (tx_buffer txn) = i" "expected_size txn = sz"
    "buf_size (tx_buffer txn) = (if sz = kSizeUnknown then kPageSize else sz)" "object_flags (tx_buffer txn) = 0"
proof -
  have l: "length (tx_memory txn) = (if sz = kSizeUnknown then kPageSize else sz)"
    using assms by (cases "env_malloc env (if sz = kSizeUnknown then kPageSize else sz)")
      (auto simp: StartTxn_def Let_def env_ok_def tx_memory_def ENOMEM_def kSizeUnknown_def split: if_splits)
  show "tx_staged txn []" "c' = Inc N_starttxn c" "buf_id (tx_buffer txn) = i" "expected_size txn = sz"
    "buf_size (tx_buffer txn) = (if sz = kSizeUnknown then kPageSize else sz)" "object_flags (tx_buffer txn) = 0"
    using assms(2) l by (auto simp: StartTxn_def Let_def tx_staged_def ENOMEM_def Transaction_new_def MemoryBuffer_new_def split: if_splits)
qed

lemma CtrlTxn_staged [simp]:
  "tx_staged (CtrlTxn l txn) xs = tx_staged txn xs" "buf_size (tx_buffer (CtrlTxn l txn)) = buf_size (tx_buffer txn)"
  "buf_id (tx_buffer (CtrlTxn l txn)) = buf_id (tx_buffer txn)" "object_flags (tx_buffer (CtrlTxn l txn)) = label_flags l"
  "expected_size (CtrlTxn l txn) = expected_size txn"
  by (simp_all add: CtrlTxn_def tx_staged_def tx_memory_def)

text \<open>Copying into a buffer that is large enough.\<close>

lemma tx_copy_ok:
  assumes s: "tx_staged txn xs" and fit: "length xs + length ys \<le> buf_size (tx_buffer txn)"
  shows "\<exists>txn'. tx_copy (Some ys) (length ys) txn = Some txn' \<and> tx_buffer txn' = tx_buffer txn \<and> expected_size txn' = expected_size txn \<and>
    pos txn' = pos txn \<and> tx_staged (txn'\<lparr>pos := length xs + length ys\<rparr>) (xs @ ys)"
proof (cases "tx_mem txn")
  case None
  then have "buf_size (tx_buffer txn) = 0" using s by (simp add: tx_staged_def tx_memory_def)
  then show ?thesis using None s fit by (simp add: tx_copy_def tx_staged_def tx_memory_def)
next
  case (Some mem)
  have m: "length mem = buf_size (tx_buffer txn)" "take (length xs) mem = xs" "pos txn = length xs"
    using s Some by (simp_all add: tx_staged_def tx_memory_def)
  have "mem_write mem (length xs) ys = Some (xs @ ys @ drop (length xs + length ys) mem)" using m fit by (simp add: mem_write_def)
  then show ?thesis using Some m fit by (simp add: tx_copy_def tx_staged_def tx_memory_def)
qed

definition same_object :: "transaction \<Rightarrow> transaction \<Rightarrow> bool" where
  "same_object txn txn' \<longleftrightarrow> buf_id (tx_buffer txn') = buf_id (tx_buffer txn) \<and> object_flags (tx_buffer txn') = object_flags (tx_buffer txn) \<and>
     expected_size txn' = expected_size txn"

lemma ram_Write_ok:
  assumes s: "tx_staged txn xs" and env: "env_ok env" and n: "length xs + length ys < 2 ^ 61" "buf_size (tx_buffer txn) < 2 ^ 61"
  shows "\<exists>r txn' c'. ram_Write env (Some ys) (length ys) txn c = Some (r, txn', c') \<and> (\<exists>m. c' = c\<lparr>ram_counters := m\<rparr>) \<and>
    (r = int (length ys) \<and> tx_staged txn' (xs @ ys) \<and> same_object txn txn' \<and>
       (length xs + length ys \<le> buf_size (tx_buffer txn) \<longrightarrow> buf_size (tx_buffer txn') = buf_size (tx_buffer txn)) \<or>
     r = - EFBIG \<and> txn' = txn \<and> expected_size txn \<noteq> kSizeUnknown \<and> length xs + length ys > buf_size (tx_buffer txn) \<or>
     r = - EIO \<and> txn' = txn \<and> expected_size txn = kSizeUnknown \<and> length xs + length ys > buf_size (tx_buffer txn))"
proof -
  have p: "pos txn = length xs" "length xs \<le> buf_size (tx_buffer txn)" using s by (simp_all add: tx_staged_def)
  have copied: "ram_Write env (Some ys) (length ys) txn c = Some (int (length ys), txn2\<lparr>pos := length xs + length ys\<rparr>, Inc N_write c1)"
    if "tx_reserve env (length ys) txn c = (0, txn1, c1)" "tx_copy (Some ys) (length ys) txn1 = Some txn2" "pos txn2 = length xs" for txn1 txn2 c1
    using that p n by (simp add: ram_Write_def s64_def)
  consider (fits) "length xs + length ys \<le> buf_size (tx_buffer txn)"
    | (big) "length xs + length ys > buf_size (tx_buffer txn)" "expected_size txn \<noteq> kSizeUnknown"
    | (grow) "length xs + length ys > buf_size (tx_buffer txn)" "expected_size txn = kSizeUnknown" by linarith
  then show ?thesis
  proof cases
    case fits
    obtain txn2 where t: "tx_copy (Some ys) (length ys) txn = Some txn2" "tx_buffer txn2 = tx_buffer txn" "expected_size txn2 = expected_size txn"
      "pos txn2 = pos txn" "tx_staged (txn2\<lparr>pos := length xs + length ys\<rparr>) (xs @ ys)" using tx_copy_ok[OF s fits] by blast
    have "ram_Write env (Some ys) (length ys) txn c = Some (int (length ys), txn2\<lparr>pos := length xs + length ys\<rparr>, Inc N_write c)"
      by (rule copied) (use fits p n t in \<open>simp_all add: tx_reserve_def\<close>)
    then show ?thesis using t by (auto simp: same_object_def Inc_def)
  next
    case big
    then show ?thesis using p n by (auto simp: ram_Write_def tx_reserve_def EFBIG_def intro!: exI[of _ "ram_counters c"])
  next
    case grow
    define k where "k = max (2 * buf_size (tx_buffer txn)) (length ys + length xs)"
    have k: "max (u64 (2 * buf_size (tx_buffer txn))) (u64 (length ys + pos txn)) = k" using n p by (simp add: k_def)
    show ?thesis
    proof (cases "env_realloc env (tx_mem txn) k")
      case None
      then show ?thesis using grow p n k by (auto simp: ram_Write_def tx_reserve_def Let_def Inc_def EIO_def)
    next
      case (Some mem)
      define txn1 where "txn1 = txn\<lparr>tx_mem := Some mem, tx_buffer := (tx_buffer txn)\<lparr>buf_size := k\<rparr>\<rparr>"
      have "length mem = k" "take (min k (length (tx_memory txn))) mem = take k (tx_memory txn)"
        using env Some unfolding env_ok_def tx_memory_def Let_def by blast+
      moreover have "length (tx_memory txn) \<le> k" "length xs \<le> length (tx_memory txn)" using s grow by (auto simp: k_def tx_staged_def)
      ultimately have "take (length (tx_memory txn)) mem = tx_memory txn" by simp
      then have "take (length xs) mem = xs" using s \<open>length xs \<le> length (tx_memory txn)\<close>
        by (metis min.absorb1 take_take tx_staged_def)
      then have s1: "tx_staged txn1 xs" using p(1) \<open>length mem = k\<close> by (auto simp: tx_staged_def txn1_def tx_memory_def k_def)
      have "length xs + length ys \<le> buf_size (tx_buffer txn1)" by (simp add: txn1_def k_def)
      from tx_copy_ok[OF s1 this] obtain txn2 where t: "tx_copy (Some ys) (length ys) txn1 = Some txn2" "tx_buffer txn2 = tx_buffer txn1"
        "expected_size txn2 = expected_size txn1" "pos txn2 = pos txn1" "tx_staged (txn2\<lparr>pos := length xs + length ys\<rparr>) (xs @ ys)" by blast
      have "ram_Write env (Some ys) (length ys) txn c = Some (int (length ys), txn2\<lparr>pos := length xs + length ys\<rparr>, Inc N_write (Inc N_realloc c))"
        by (rule copied[of txn1]) (use grow p n t k Some in \<open>simp_all add: tx_reserve_def Let_def txn1_def\<close>)
      then show ?thesis using t grow by (auto simp: same_object_def Inc_def txn1_def)
    qed
  qed
qed

section \<open>Histories of calls on descriptors\<close>

datatype ram_call = ROpen labeled_object | RClose int | RDup int | RPread int nat nat | RGetSize int | RReadahead int

fun ram_exec :: "ram_call \<Rightarrow> ram_cache \<Rightarrow> ((int \<times> nat list) \<times> ram_cache) option" where
  "ram_exec (ROpen ob) c = map_option (\<lambda>(r, c). ((r, []), c)) (ram_Open ob c)"
| "ram_exec (RClose fd) c = map_option (\<lambda>(r, c). ((r, []), c)) (ram_Close fd c)"
| "ram_exec (RDup fd) c = map_option (\<lambda>(r, c). ((r, []), c)) (ram_Dup fd c)"
| "ram_exec (RPread fd n off) c = map_option (\<lambda>(r, xs, c). ((r, xs), c)) (ram_Pread fd n off c)"
| "ram_exec (RGetSize fd) c = map_option (\<lambda>(r, c). ((r, []), c)) (ram_GetSize fd c)"
| "ram_exec (RReadahead fd) c = (case Readahead fd c of (r, c) \<Rightarrow> Some ((r, []), c))"

fun ram_run :: "ram_call list \<Rightarrow> ram_cache \<Rightarrow> ((int \<times> nat list) list \<times> ram_cache) option" where
  "ram_run [] c = Some ([], c)"
| "ram_run (x # xs) c = do { (r, c) \<leftarrow> ram_exec x c; (rs, c) \<leftarrow> ram_run xs c; Some (r # rs, c) }"

definition call_ok :: "ram_call \<Rightarrow> bool" where
  "call_ok x = (case x of ROpen ob \<Rightarrow> kv_key_ok (object_id ob) | _ \<Rightarrow> True)"

definition same_bytes :: "(bool \<Rightarrow> (digest \<times> kv_object) list) \<Rightarrow> (bool \<Rightarrow> (digest \<times> kv_object) list) \<Rightarrow> bool" where
  "same_bytes S S' \<longleftrightarrow> (\<forall>v k. bytes_of (S' v) k = bytes_of (S v) k)"

lemma same_bytes_simps [simp]:
  "same_bytes S S" "same_bytes S (S(v := al_touch k (S v)))" "same_bytes S (referenced v k f S)"
proof -
  show "same_bytes S (referenced v k f S)"
  proof (cases "map_of (S v) k")
    case None
    then show ?thesis by (simp add: same_bytes_def referenced_def)
  next
    case (Some ob)
    then show ?thesis by (simp add: same_bytes_def referenced_simps(2)[of S v k ob, OF Some])
  qed
qed (auto simp: same_bytes_def)

definition still_valid :: "(bool \<Rightarrow> (digest \<times> kv_object) list) \<Rightarrow> ram_cache \<Rightarrow> bool" where
  "still_valid S c' \<longleftrightarrow> (\<exists>F' S'. ram_rel c' F' S' \<and> same_bytes S S')"

lemma still_validI [intro]:
  "ram_rel c' F S \<Longrightarrow> still_valid S c'" "ram_rel c' F (S(v := al_touch k (S v))) \<Longrightarrow> still_valid S c'"
  "ram_rel c' F (referenced v k f S) \<Longrightarrow> still_valid S c'"
  using same_bytes_simps unfolding still_valid_def by blast+

lemma found_in_Some: "found_in S k = Some v \<Longrightarrow> \<exists>ob. map_of (S v) k = Some ob"
  by (auto simp: found_in_def split: if_splits)

lemma ram_exec_ok:
  assumes r: "ram_rel c F S" and x: "call_ok x"
  shows "\<exists>res c'. ram_exec x c = Some (res, c') \<and> still_valid S c'"
proof (cases x)
  case (ROpen ob)
  from DoOpen_ok[OF r, of "object_id ob"] x ROpen show ?thesis
    by (cases "found_in S (any_key (object_id ob))"; cases "card (dom F) < GetMaxFds (ram_fds c)") (auto simp: call_ok_def ram_Open_def)
next
  case (RClose fd)
  from ram_Close_ok[OF r, of fd] r RClose show ?thesis by (cases "F fd") auto
next
  case (RDup fd)
  from ram_Dup_ok[OF r, of fd] r RDup show ?thesis by (cases "F fd"; cases "card (dom F) < GetMaxFds (ram_fds c)") auto
next
  case (RPread fd n off)
  from ram_Pread_ok[OF r, of fd n off] r RPread show ?thesis by (cases "F fd") auto
next
  case (RGetSize fd)
  from ram_GetSize_ok[OF r, of fd] r RGetSize show ?thesis by (cases "F fd") auto
next
  case (RReadahead fd)
  then show ?thesis using r ram_rel_Inc[of N_readahead c F S] by (auto simp: Readahead_def simp del: ram_rel_Inc)
qed

lemma ram_run_ok:
  assumes "ram_rel c F S" "list_all call_ok xs"
  shows "\<exists>rs c'. ram_run xs c = Some (rs, c') \<and> length rs = length xs \<and> still_valid S c'"
  using assms
proof (induction xs arbitrary: c F S)
  case (Cons x xs)
  have "call_ok x" using Cons.prems(2) by simp
  then obtain res c1 where x: "ram_exec x c = Some (res, c1)" "still_valid S c1" using ram_exec_ok[OF Cons.prems(1)] by blast
  then obtain F1 S1 where v: "ram_rel c1 F1 S1" "same_bytes S S1" by (auto simp: still_valid_def)
  obtain rs c2 where "ram_run xs c1 = Some (rs, c2)" "length rs = length xs" "still_valid S1 c2"
    using Cons.IH[OF v(1)] Cons.prems(2) by auto
  then show ?case using x(1) v(2) by (auto simp: still_valid_def same_bytes_def)
qed auto

section \<open>Committing a new object\<close>

lemma evicted_open:
  assumes r: "ram_rel c F S" and ev: "evicted (S (is_volatile h)) os'" and fd: "F fd = Some h"
  shows "map_of os' (any_key (ro_handle h)) = map_of (S (is_volatile h)) (any_key (ro_handle h))"
proof -
  obtain ob where "map_of (S (is_volatile h)) (any_key (ro_handle h)) = Some ob" "obj_refcount ob > 0" using open_object[OF r fd] by blast
  then show ?thesis using evictedD(3)[OF ev view_distinct[OF ram_relD(6)[OF r]]] by (simp add: refs_def)
qed

lemma evicted_absent:
  assumes "ram_rel c F S" "evicted (S v) os'" "map_of (S v) k = None"
  shows "map_of os' k = None"
  using evictedD(4)[OF assms(2) view_distinct[OF ram_relD(6)[OF assms(1)]], of k] assms(3) by (cases "map_of os' k") auto

text \<open>The outcome of \<open>CommitTxn\<close> for an object that the store does not hold yet.\<close>

lemma CommitTxn_new:
  assumes r: "ram_rel c F S" and t: "txn_ok txn" and small: "kv_used (S False) + kv_used (S True) + buf_size (tx_buffer txn) < 2 ^ 62" "max_size c < 2 ^ 62"
    and new: "map_of (S (tx_volatile txn)) (tx_key txn) = None"
  shows "\<exists>rc txn' c' S'. CommitTxn txn c = Some (rc, txn', c') \<and> ram_rel c' F S' \<and> max_size c' = max_size c \<and> ram_fds c' = ram_fds c \<and>
    (\<forall>fd h. F fd = Some h \<longrightarrow> bytes_of (S' (is_volatile h)) (any_key (ro_handle h)) = bytes_of (S (is_volatile h)) (any_key (ro_handle h))) \<and>
    (\<forall>v k. (v, k) \<noteq> (tx_volatile txn, tx_key txn) \<longrightarrow> bytes_of (S v) k = None \<longrightarrow> bytes_of (S' v) k = None) \<and>
    (rc = 0 \<and> bytes_of (S' (tx_volatile txn)) (tx_key txn) = Some (tx_bytes txn) \<and> kv_used (S' False) + kv_used (S' True) \<le> max_size c \<or>
     rc = - ENOSPC \<and> kv_used (S False) + kv_used (S True) + buf_size (tx_buffer txn) > max_size c \<or>
     rc = - ENFILE \<and> length (S (tx_volatile txn)) \<ge> max_entries (ram_store (tx_volatile txn) c) \<or>
     rc = - EIO \<and> kv_no_memory (buf_size (tx_buffer txn)) (ram_store (tx_volatile txn) c')) \<and>
    (rc = 0 \<or> (\<forall>v k. bytes_of (S v) k = None \<longrightarrow> bytes_of (S' v) k = None))"
proof -
  let ?v = "tx_volatile txn" let ?k = "tx_key txn"
  have r1: "ram_rel (Inc N_committxn c) F S" and s1: "max_size (Inc N_committxn c) < 2 ^ 62" using r small(2) by simp_all
  obtain rc c' S' where C: "CommitToKvStore txn (Inc N_committxn c) = Some (rc, txn\<lparr>tx_buffer := tx_ready txn\<rparr>, c')" "\<forall>v. evicted (S v) (S' v)"
    "max_size c' = max_size c" "ram_fds c' = ram_fds c"
    "rc = 0 \<and> kv_used (S' False) + kv_used (S' True) + buf_size (tx_buffer txn) \<le> max_size c \<and> ram_rel c' F (S'(?v := committed (tx_ready txn) (tx_bytes txn) (S' ?v))) \<or>
     rc = - ENOSPC \<and> ram_rel c' F S' \<and> kv_used (S False) + kv_used (S True) + buf_size (tx_buffer txn) > max_size c \<or>
     rc = - ENFILE \<and> ram_rel c' F S' \<and> length (S' ?v) = max_entries (ram_store ?v c') \<or>
     rc = - EIO \<and> kv_no_memory (buf_size (tx_buffer txn)) (ram_store ?v c') \<and> (map_of (S' ?v) ?k = None \<longrightarrow> ram_rel c' F S')"
    using CommitToKvStore_ok[OF r1 t small(1) s1] by (simp only: store_simps) (elim exE conjE, rule that)
  have op: "bytes_of (S' (is_volatile h)) (any_key (ro_handle h)) = bytes_of (S (is_volatile h)) (any_key (ro_handle h))" if "F fd = Some h" for fd h
    using evicted_open[OF r C(2)[rule_format] that] by (simp add: bytes_of_def)
  have ab: "bytes_of (S' v) k = None" if "bytes_of (S v) k = None" for v k
    using evicted_absent[OF r C(2)[rule_format], of v k] that by (simp add: bytes_of_def)
  have new': "map_of (S' ?v) ?k = None" using evicted_absent[OF r C(2)[rule_format] new] .
  define txn' where "txn' = (if rc < 0 then txn\<lparr>tx_buffer := tx_ready txn\<rparr> else txn\<lparr>tx_buffer := tx_ready txn, tx_mem := None\<rparr>)"
  have len: "length (S' ?v) \<le> length (S ?v)"
    using C(2)[rule_format, of ?v] list_emb_length[OF shrunk_subset] by (auto simp: evicted_def)
  have env: "max_entries (ram_store ?v c') = max_entries (ram_store ?v c)" using CommitToKvStore_env[OF C(1), of ?v] by (simp add: kv_env_def)
  have T: "CommitTxn txn c = Some (rc, txn', c')" using C(1) by (simp add: CommitTxn_def txn'_def)
  show ?thesis
  proof (cases "rc = 0")
    case True
    define S2 where "S2 = S'(?v := committed (tx_ready txn) (tx_bytes txn) (S' ?v))"
    have c0: "kv_used (S' False) + kv_used (S' True) + buf_size (tx_buffer txn) \<le> max_size c" "ram_rel c' F S2"
      using C(5) True by (auto simp: S2_def errno_defs)
    have k: "any_key (buf_id (tx_ready txn)) = ?k" "buf_size (tx_ready txn) = buf_size (tx_buffer txn)" by (simp_all add: tx_ready_def)
    have b2: "bytes_of (S2 v) k = (if v = ?v \<and> k = ?k then Some (tx_bytes txn) else bytes_of (S' v) k)" for v k
      using t by (simp add: S2_def committed_bytes k txn_ok_def)
    have u: "kv_used (S2 False) + kv_used (S2 True) \<le> max_size c"
      using committed_used[of "tx_ready txn" "tx_bytes txn" "S' ?v"] c0(1) k(2) by (cases ?v) (simp_all add: S2_def)
    have notk: "\<not> (is_volatile h = ?v \<and> any_key (ro_handle h) = ?k)" if f: "F fd = Some h" for fd h
    proof -
      obtain ob where "map_of (S (is_volatile h)) (any_key (ro_handle h)) = Some ob" using open_object[OF r f] by blast
      then show ?thesis using new by (intro notI, elim conjE) simp
    qed
    have op2: "\<forall>fd h. F fd = Some h \<longrightarrow> bytes_of (S2 (is_volatile h)) (any_key (ro_handle h)) = bytes_of (S (is_volatile h)) (any_key (ro_handle h))"
    proof (intro allI impI)
      fix fd h assume f: "F fd = Some h"
      show "bytes_of (S2 (is_volatile h)) (any_key (ro_handle h)) = bytes_of (S (is_volatile h)) (any_key (ro_handle h))"
        unfolding b2 using op[OF f] notk[OF f] by (simp only: if_False)
    qed
    have ab2: "\<forall>v k. (v, k) \<noteq> (?v, ?k) \<longrightarrow> bytes_of (S v) k = None \<longrightarrow> bytes_of (S2 v) k = None" using b2 ab by auto
    have out: "rc = 0 \<and> bytes_of (S2 ?v) ?k = Some (tx_bytes txn) \<and> kv_used (S2 False) + kv_used (S2 True) \<le> max_size c" using True b2 u by simp
    show ?thesis
      by (rule exI[of _ rc], rule exI[of _ txn'], rule exI[of _ c'], rule exI[of _ S2]) (intro conjI T c0(2) C(3,4) op2 ab2 disjI1[OF out] disjI1[OF True])
  next
    case False
    have rel: "ram_rel c' F S'" using C(5) False new' by (elim disjE conjE) simp_all
    have out: "rc = - ENOSPC \<and> kv_used (S False) + kv_used (S True) + buf_size (tx_buffer txn) > max_size c \<or>
     rc = - ENFILE \<and> length (S ?v) \<ge> max_entries (ram_store ?v c) \<or> rc = - EIO \<and> kv_no_memory (buf_size (tx_buffer txn)) (ram_store ?v c')"
      using C(5) False len env by (elim disjE conjE) simp_all
    have ab3: "\<forall>v k. bytes_of (S v) k = None \<longrightarrow> bytes_of (S' v) k = None" using ab by blast
    have op2: "\<forall>fd h. F fd = Some h \<longrightarrow> bytes_of (S' (is_volatile h)) (any_key (ro_handle h)) = bytes_of (S (is_volatile h)) (any_key (ro_handle h))"
      using op by blast
    have ab2: "\<forall>v k. (v, k) \<noteq> (?v, ?k) \<longrightarrow> bytes_of (S v) k = None \<longrightarrow> bytes_of (S' v) k = None" using ab by blast
    show ?thesis
      by (rule exI[of _ rc], rule exI[of _ txn'], rule exI[of _ c'], rule exI[of _ S']) (intro conjI T rel C(3,4) op2 ab2 disjI2[OF out] disjI2[OF ab3])
  qed
qed

section \<open>From memory into the cache and back\<close>

lemma ram_rel_counters [simp]: "ram_rel (c\<lparr>ram_counters := m\<rparr>) F S = ram_rel c F S"
  by (simp add: ram_rel_def ram_store_def)

lemma counters_simps [simp]: "max_size (c\<lparr>ram_counters := m\<rparr>) = max_size c" "ram_store v (c\<lparr>ram_counters := m\<rparr>) = ram_store v c"
  by (simp_all add: ram_store_def)

lemma staged_full:
  assumes "tx_staged txn xs" "length xs = buf_size (tx_buffer txn)"
  shows "tx_bytes txn = xs"
  using assms by (auto simp: tx_staged_def tx_bytes_def tx_memory_def)

lemma CommitFromMem_run:
  assumes env: "env_ok env" and n: "length buffer < 2 ^ 61" and mem: "env_malloc env (length buffer) \<noteq> None \<or> buffer = []"
  shows "\<exists>txn m. CommitFromMem env ob buffer (length buffer) c = do { (rc, txn, c) \<leftarrow> CommitTxn txn (c\<lparr>ram_counters := m\<rparr>); Some (rc = 0, txn, c) } \<and>
    tx_bytes txn = buffer \<and> buf_size (tx_buffer txn) = length buffer \<and> buf_id (tx_buffer txn) = object_id ob \<and>
    object_flags (tx_buffer txn) = label_flags (object_label ob)"
proof -
  obtain r txn0 c0 where S0: "StartTxn env (object_id ob) (length buffer) c = (r, txn0, c0)" by (metis prod_cases3)
  have k: "length buffer \<noteq> kSizeUnknown" using n by (simp add: kSizeUnknown_def)
  have "r = 0" using S0 mem k by (auto simp: StartTxn_def Let_def split: if_splits)
  note S = StartTxn_ok[OF env S0[unfolded this]]
  define txn1 where "txn1 = CtrlTxn (object_label ob) txn0"
  have s1: "tx_staged txn1 []" "buf_size (tx_buffer txn1) = length buffer" using S k by (simp_all add: txn1_def)
  obtain q txn2 c2 m where W: "ram_Write env (Some buffer) (length buffer) txn1 c0 = Some (q, txn2, c2)" "c2 = c0\<lparr>ram_counters := m\<rparr>"
    "q = int (length buffer)" "tx_staged txn2 buffer" "same_object txn1 txn2" "buf_size (tx_buffer txn2) = length buffer"
    using ram_Write_ok[OF s1(1) env, of buffer c0] n s1(2) by auto
  have c2: "c2 = c\<lparr>ram_counters := m\<rparr>" using W(2) S(2) by (simp add: Inc_def)
  have "CommitFromMem env ob buffer (length buffer) c = do { (rc, txn, c) \<leftarrow> CommitTxn txn2 c2; Some (rc = 0, txn, c) }"
    using S0 \<open>r = 0\<close> W(1,3) n by (simp add: CommitFromMem_def txn1_def[symmetric])
  moreover have "tx_bytes txn2 = buffer" using staged_full[OF W(4)] W(6) by simp
  moreover have "buf_id (tx_buffer txn2) = object_id ob" "object_flags (tx_buffer txn2) = label_flags (object_label ob)"
    using W(5) S(3) by (simp_all add: same_object_def txn1_def)
  ultimately show ?thesis using c2 W(6) by blast
qed

lemma Open2Mem_ok:
  assumes r: "ram_rel c F S" and i: "kv_key_ok (object_id ob)" and found: "found_in S (any_key (object_id ob)) = Some v"
    and bs: "bytes_of (S v) (any_key (object_id ob)) = Some bs" and free: "card (dom F) < GetMaxFds (ram_fds c)"
  shows "\<exists>c' S'. Open2Mem ob c = Some (True, if bs = [] then None else Some bs, length bs, c') \<and> ram_rel c' F S' \<and> same_bytes S S'"
proof -
  let ?k = "any_key (object_id ob)" let ?h = "\<lparr>ro_handle = object_id ob, is_volatile = v\<rparr>"
  define S1 where "S1 = referenced v ?k Suc S"
  obtain fd c1 where D: "DoOpen (object_id ob) c = Some (fd, c1)" "0 \<le> fd" "F fd = None" "ram_rel c1 (F(fd \<mapsto> ?h)) S1"
    using DoOpen_ok[OF r i] found free by (auto simp: S1_def)
  have b1: "bytes_of (S1 w) j = bytes_of (S w) j" for w j using same_bytes_simps(3)[of S v ?k Suc] by (simp add: S1_def same_bytes_def)
  obtain c2 where G: "ram_GetSize fd c1 = Some (int (length bs), c2)" "ram_rel c2 (F(fd \<mapsto> ?h)) S1"
    using ram_GetSize_ok[OF D(4), of fd] b1 bs by auto
  define S2 where "S2 = (if bs = [] then S1 else S1(v := al_touch ?k (S1 v)))"
  define c2' where "c2' = (if bs = [] then c2 else snd (snd (the (ram_Pread fd (length bs) 0 c2))))"
  have P: "bs \<noteq> [] \<Longrightarrow> ram_Pread fd (length bs) 0 c2 = Some (int (length bs), bs, c2')" and r2: "ram_rel c2' (F(fd \<mapsto> ?h)) S2"
    using ram_Pread_ok[OF G(2), of fd "length bs" 0] G(2) b1 bs by (auto simp: c2'_def S2_def)
  have b2: "bytes_of (S2 w) j = bytes_of (S w) j" for w j using b1 by (simp add: S2_def)
  define S3 where "S3 = referenced v ?k (\<lambda>n. n - 1) S2"
  obtain c3 where C: "ram_Close fd c2' = Some (0, c3)" "ram_rel c3 (F(fd := None)) S3" using ram_Close_ok[OF r2, of fd] by (auto simp: S3_def)
  have "F(fd := None) = F" using D(3) by (simp add: fun_upd_idem)
  moreover have "same_bytes S S3" using same_bytes_simps(3)[of S2 v ?k "\<lambda>n. n - 1"] b2 by (simp add: S3_def same_bytes_def)
  moreover have "Open2Mem ob c = Some (True, if bs = [] then None else Some bs, length bs, c3)"
    using D(1,2) G(1) P C(1) by (cases "bs = []") (simp add: Open2Mem_def ram_Open_def Let_def c2'_def, simp add: Open2Mem_def ram_Open_def Let_def)
  ultimately show ?thesis using C(2) by auto
qed

section \<open>Properties\<close>

lemma shrunk_used_ge: "kv_used (filter (\<lambda>(k, ob). obj_refcount ob > 0) os) \<le> kv_used (shrunk t n os)"
  by (induction t n os rule: shrunk.induct) (auto simp: kv_used_def intro!: order_trans[OF kv_used_subseq[unfolded kv_used_def], OF subseq_filter_left])

definition ram_demo_label :: "int \<Rightarrow> label" where
  "ram_demo_label fl = Label_new\<lparr>label_flags := fl\<rparr>"

definition ram_demo_object :: "nat \<Rightarrow> labeled_object" where
  "ram_demo_object b = \<lparr>object_id = kv_demo_id b, object_label = ram_demo_label 0\<rparr>"

definition ram_demo_env :: heap_env where
  "ram_demo_env = \<lparr>env_malloc = (\<lambda>n. Some (replicate n 0)),
     env_realloc = (\<lambda>m n. let old = (case m of Some xs \<Rightarrow> xs | None \<Rightarrow> []) in Some (take n old @ replicate (n - length old) 0))\<rparr>"

lemma ram_demo_env_ok: "env_ok ram_demo_env"
  by (auto simp: env_ok_def ram_demo_env_def Let_def min_def)

definition ram_demo_new :: "ram_cache option" where
  "ram_demo_new = RamCacheManager_new 24 kv_demo_params (\<lambda>_. kv_null) [] kv_demo_malloc 8 128 kMallocLibc"

lemma ram_demo:
  obtains c where "ram_demo_new = Some c" "ram_rel c Map.empty (\<lambda>_. [])" "max_size c = 8" "GetMaxFds (ram_fds c) = 128"
    "\<forall>v. max_entries (ram_store v c) = 128" "\<forall>v. allocator_kind (ram_store v c) = kMallocLibc" "\<forall>v. libc_malloc (ram_store v c) = kv_demo_malloc"
proof -
  have "tparams_ok kv_demo_params" by (simp add: tparams_ok_def kv_demo_params_def)
  moreover have "malloc_ok kv_demo_malloc" by (simp add: malloc_ok_def kv_demo_malloc_def)
  ultimately have "\<exists>c. ram_demo_new = Some c \<and> ram_rel c Map.empty (\<lambda>_. []) \<and> max_size c = 8 \<and> GetMaxFds (ram_fds c) = 128 \<and>
    (\<forall>v. max_entries (ram_store v c) = 128 \<and> allocator_kind (ram_store v c) = kMallocLibc \<and> libc_malloc (ram_store v c) = kv_demo_malloc)"
    unfolding ram_demo_new_def by (intro RamCacheManager_new_ok) auto
  then show ?thesis using that by blast
qed

text \<open>In the demonstration cache a first small object finds memory.\<close>

lemma ram_demo_memory:
  assumes "kv_view st []" "allocator_kind st = kMallocLibc" "libc_malloc st = kv_demo_malloc" "n < 100"
  shows "\<not> kv_no_memory n st"
  using assms empty_view_libc[OF assms(1,2)] by (simp add: kv_no_memory_def kv_demo_malloc_def)

text \<open>
  C11.  Opening, duplicating, reading, sizing and closing descriptors in any order and with any
  arguments never fails an assertion: every call returns, the reference counts of the objects stay in
  step with the open descriptors, and the stored contents do not change.
\<close>

theorem ram_descriptor_history:
  assumes "ram_rel c F S" "list_all call_ok xs"
  shows "\<exists>rs c' F' S'. ram_run xs c = Some (rs, c') \<and> length rs = length xs \<and> ram_rel c' F' S' \<and>
    (\<forall>v k. bytes_of (S' v) k = bytes_of (S v) k)"
  using ram_run_ok[OF assms] unfolding still_valid_def same_bytes_def by blast

text \<open>
  C3.  Committing a transaction with a new object pins what is open and respects the size limit.
  \<open>CommitTxn\<close> returns; every open descriptor still reads the same bytes, although the commit may evict
  objects; if it returns 0 the object is stored and both stores together use at most the configured
  size.  Otherwise it reports that the object does not fit, that the table of objects is full, or that there is no memory.
\<close>

theorem ram_commit_pins:
  assumes r: "ram_rel c F S" and t: "txn_ok txn" and small: "kv_used (S False) + kv_used (S True) + buf_size (tx_buffer txn) < 2 ^ 62" "max_size c < 2 ^ 62"
    and new: "map_of (S (tx_volatile txn)) (tx_key txn) = None"
  shows "\<exists>rc txn' c' S'. CommitTxn txn c = Some (rc, txn', c') \<and> ram_rel c' F S' \<and>
    (\<forall>fd h n off. F fd = Some h \<longrightarrow> (\<exists>bs c''. bytes_of (S (is_volatile h)) (any_key (ro_handle h)) = Some bs \<and>
        ram_Pread fd n off c' = Some (int (length (take n (drop off bs))), take n (drop off bs), c''))) \<and>
    (rc = 0 \<and> bytes_of (S' (tx_volatile txn)) (tx_key txn) = Some (tx_bytes txn) \<and>
        GetUsed (regular_entries c') + GetUsed (volatile_entries c') \<le> max_size c \<or>
     rc = - ENOSPC \<and> kv_used (S False) + kv_used (S True) + buf_size (tx_buffer txn) > max_size c \<or>
     rc = - ENFILE \<and> length (S (tx_volatile txn)) \<ge> max_entries (ram_store (tx_volatile txn) c) \<or>
     rc = - EIO \<and> kv_no_memory (buf_size (tx_buffer txn)) (ram_store (tx_volatile txn) c'))"
proof -
  obtain rc txn' c' S' where C: "CommitTxn txn c = Some (rc, txn', c')" "ram_rel c' F S'"
    "\<forall>fd h. F fd = Some h \<longrightarrow> bytes_of (S' (is_volatile h)) (any_key (ro_handle h)) = bytes_of (S (is_volatile h)) (any_key (ro_handle h))"
    "rc = 0 \<and> bytes_of (S' (tx_volatile txn)) (tx_key txn) = Some (tx_bytes txn) \<and> kv_used (S' False) + kv_used (S' True) \<le> max_size c \<or>
     rc = - ENOSPC \<and> kv_used (S False) + kv_used (S True) + buf_size (tx_buffer txn) > max_size c \<or>
     rc = - ENFILE \<and> length (S (tx_volatile txn)) \<ge> max_entries (ram_store (tx_volatile txn) c) \<or>
     rc = - EIO \<and> kv_no_memory (buf_size (tx_buffer txn)) (ram_store (tx_volatile txn) c')"
    using CommitTxn_new[OF assms] by (elim exE conjE) (rule that)
  have u: "GetUsed (regular_entries c') = kv_used (S' False)" "GetUsed (volatile_entries c') = kv_used (S' True)"
    using view_used[OF ram_relD(6)[OF C(2), of False]] view_used[OF ram_relD(6)[OF C(2), of True]] by (simp_all add: ram_store_def)
  have rd: "\<forall>fd h n off. F fd = Some h \<longrightarrow> (\<exists>bs c''. bytes_of (S (is_volatile h)) (any_key (ro_handle h)) = Some bs \<and>
        ram_Pread fd n off c' = Some (int (length (take n (drop off bs))), take n (drop off bs), c''))"
  proof (intro allI impI)
    fix fd h n off assume f: "F fd = Some h"
    from ram_Pread_ok[OF C(2), of fd n off] C(3) f show "\<exists>bs c''. bytes_of (S (is_volatile h)) (any_key (ro_handle h)) = Some bs \<and>
        ram_Pread fd n off c' = Some (int (length (take n (drop off bs))), take n (drop off bs), c'')" by auto
  qed
  note C4 = C(4)[folded u]
  show ?thesis by (rule exI[of _ rc], rule exI[of _ txn'], rule exI[of _ c'], rule exI[of _ S']) (intro conjI C(1,2) C4 rd)
qed

definition ram_demo_txn :: "nat \<Rightarrow> nat list \<Rightarrow> transaction" where
  "ram_demo_txn b xs = Transaction_new\<lparr>tx_buffer := kv_demo_buf b (length xs), tx_mem := Some xs\<rparr>"

lemma ram_demo_txn_simps:
  "tx_volatile (ram_demo_txn b xs) = False" "tx_bytes (ram_demo_txn b xs) = xs" "buf_size (tx_buffer (ram_demo_txn b xs)) = length xs"
  "tx_key (ram_demo_txn b xs) = any_key (kv_demo_id b)" "b < 256 \<Longrightarrow> length xs < 2 ^ 61 \<Longrightarrow> txn_ok (ram_demo_txn b xs)"
  using kv_demo_key[of b] by (simp_all add: ram_demo_txn_def tx_volatile_def has_flag_def kv_demo_buf_def MemoryBuffer_new_def tx_bytes_def txn_ok_def)

lemma all_absent: "(\<forall>k. bytes_of os k = None) \<Longrightarrow> os = []"
  by (cases os) (auto simp: bytes_of_def split: if_splits)

text \<open>The first small object in the demonstration cache finds room.\<close>

lemma ram_demo_commit:
  assumes c: "ram_rel c Map.empty (\<lambda>_. [])" "\<forall>v. allocator_kind (ram_store v c) = kMallocLibc" "\<forall>v. libc_malloc (ram_store v c) = kv_demo_malloc"
    and n: "buf_size (tx_buffer txn) < 100" "max_size c = 8" "txn_ok txn" and C: "CommitTxn txn c = Some (rc, txn', c')" "rc \<noteq> 0"
  shows "\<not> kv_no_memory (buf_size (tx_buffer txn)) (ram_store v c')"
proof -
  obtain S' where S': "ram_rel c' Map.empty S'" "\<forall>v k. bytes_of ([] :: (digest \<times> kv_object) list) k = None \<longrightarrow> bytes_of (S' v) k = None"
    using CommitTxn_new[OF c(1) n(3)] C n by (auto simp: kv_used_def)
  have "S' v = []" using S'(2) by (intro all_absent) (simp add: bytes_of_def)
  then have v: "kv_view (ram_store v c') []" using ram_relD(6)[OF S'(1), of v] by simp
  obtain rc t where "CommitToKvStore txn (Inc N_committxn c) = Some (rc, t, c')" using C by (auto simp: CommitTxn_def bind_eq_Some_conv split: if_splits)
  then have "kv_env (ram_store v c) (ram_store v c')" using CommitToKvStore_env[of _ "Inc N_committxn c" _ _ c' v] by simp
  then show ?thesis using ram_demo_memory[OF v] c(2,3) n(1) by (simp add: kv_env_def)
qed

theorem ram_commit_pins_witness:
  "\<exists>c txn' c'. ram_demo_new = Some c \<and> CommitTxn (ram_demo_txn 7 [1, 2, 3]) c = Some (0, txn', c') \<and>
    GetUsed (regular_entries c') + GetUsed (volatile_entries c') \<le> 8"
proof -
  obtain c where c: "ram_demo_new = Some c" "ram_rel c Map.empty (\<lambda>_. [])" "max_size c = 8" "GetMaxFds (ram_fds c) = 128"
    "\<forall>v. max_entries (ram_store v c) = 128" "\<forall>v. allocator_kind (ram_store v c) = kMallocLibc" "\<forall>v. libc_malloc (ram_store v c) = kv_demo_malloc"
    by (rule ram_demo)
  let ?t = "ram_demo_txn 7 [1, 2, 3]"
  obtain rc txn' c' where C: "CommitTxn ?t c = Some (rc, txn', c')"
    "rc = 0 \<and> GetUsed (regular_entries c') + GetUsed (volatile_entries c') \<le> 8 \<or> rc \<noteq> 0 \<and> kv_no_memory (buf_size (tx_buffer ?t)) (ram_store False c')"
    using ram_commit_pins[OF c(2), of ?t] c(3,5) by (auto simp: ram_demo_txn_simps kv_used_def errno_defs)
  with ram_demo_commit[OF c(2,6,7), of ?t rc txn' c'] c(1,3) show ?thesis by (auto simp: ram_demo_txn_simps)
qed

text \<open>
  C1.  The way of an object through the cache.  \<open>CommitFromMem\<close> of an object that the cache does not hold returns;
  if it succeeds, \<open>Open2Mem\<close> of the same object returns exactly the committed bytes and their
  number, provided a descriptor is free.  It fails only for lack of memory or space.
\<close>

theorem ram_mem_roundtrip:
  assumes r: "ram_rel c F S" and env: "env_ok env" and i: "kv_key_ok (object_id ob)" and new: "found_in S (any_key (object_id ob)) = None"
    and small: "kv_used (S False) + kv_used (S True) + length buffer < 2 ^ 61" "max_size c < 2 ^ 62" and free: "card (dom F) < GetMaxFds (ram_fds c)"
  shows "\<exists>ok txn c'. CommitFromMem env ob buffer (length buffer) c = Some (ok, txn, c') \<and>
    (ok \<longrightarrow> (\<exists>c''. Open2Mem ob c' = Some (True, if buffer = [] then None else Some buffer, length buffer, c''))) \<and>
    (\<not> ok \<longrightarrow> env_malloc env (length buffer) = None \<or> kv_used (S False) + kv_used (S True) + length buffer > max_size c \<or>
       (let v = has_flag (label_flags (object_label ob)) kLabelVolatile in
         length (S v) \<ge> max_entries (ram_store v c) \<or> kv_no_memory (length buffer) (ram_store v c')))"
proof (cases "env_malloc env (length buffer) \<noteq> None \<or> buffer = []")
  case False
  then have "CommitFromMem env ob buffer (length buffer) c = Some (False, fst (snd (StartTxn env (object_id ob) (length buffer) c)), c)"
    using small by (simp add: CommitFromMem_def StartTxn_def kSizeUnknown_def ENOMEM_def Let_def)
  then show ?thesis using False by auto
next
  case True
  let ?v = "has_flag (label_flags (object_label ob)) kLabelVolatile" let ?k = "any_key (object_id ob)"
  obtain txn m where C: "CommitFromMem env ob buffer (length buffer) c = do { (rc, txn, c) \<leftarrow> CommitTxn txn (c\<lparr>ram_counters := m\<rparr>); Some (rc = 0, txn, c) }"
    "tx_bytes txn = buffer" "buf_size (tx_buffer txn) = length buffer" "buf_id (tx_buffer txn) = object_id ob"
    "object_flags (tx_buffer txn) = label_flags (object_label ob)"
    using CommitFromMem_run[OF env _ True, of ob c] small(1) by auto
  have v: "tx_volatile txn = ?v" and k: "tx_key txn = ?k" using C(4,5) by (simp_all add: tx_volatile_def)
  have t: "txn_ok txn" using i small(1) C(2-4) by (simp add: txn_ok_def)
  have ab: "map_of (S w) ?k = None" for w using new by (cases w) (auto simp: found_in_def split: if_splits)
  have r': "ram_rel (c\<lparr>ram_counters := m\<rparr>) F S" using r by simp
  obtain rc txn' c' S' where T: "CommitTxn txn (c\<lparr>ram_counters := m\<rparr>) = Some (rc, txn', c')" "ram_rel c' F S'" "ram_fds c' = ram_fds c"
    "\<forall>w j. (w, j) \<noteq> (?v, ?k) \<longrightarrow> bytes_of (S w) j = None \<longrightarrow> bytes_of (S' w) j = None"
    "rc = 0 \<and> bytes_of (S' ?v) ?k = Some buffer \<or> rc \<noteq> 0 \<and> (kv_used (S False) + kv_used (S True) + length buffer > max_size c \<or>
       length (S ?v) \<ge> max_entries (ram_store ?v c) \<or> kv_no_memory (length buffer) (ram_store ?v c'))"
    using CommitTxn_new[OF r' t] small ab v k C(2,3) by (auto simp: errno_defs)
  have "\<exists>c''. Open2Mem ob c' = Some (True, if buffer = [] then None else Some buffer, length buffer, c'')" if "rc = 0"
  proof -
    have b: "bytes_of (S' ?v) ?k = Some buffer" using T(5) that by simp
    have "bytes_of (S' (\<not> ?v)) ?k = None" using T(4) ab by (simp add: bytes_of_def)
    then have "found_in S' ?k = Some ?v" using b by (cases ?v) (auto simp: found_in_def bytes_of_def)
    from Open2Mem_ok[OF T(2) i this b] free T(3) show ?thesis by auto
  qed
  moreover have "CommitFromMem env ob buffer (length buffer) c = Some (rc = 0, txn', c')" using C(1) T(1) by simp
  ultimately show ?thesis using T(5) by (auto simp: Let_def)
qed

theorem ram_mem_roundtrip_witness:
  "\<exists>c txn c' c''. ram_demo_new = Some c \<and> CommitFromMem ram_demo_env (ram_demo_object 7) [1, 2, 3] 3 c = Some (True, txn, c') \<and>
    Open2Mem (ram_demo_object 7) c' = Some (True, Some [1, 2, 3], 3, c'')"
proof -
  obtain c where c: "ram_demo_new = Some c" "ram_rel c Map.empty (\<lambda>_. [])" "max_size c = 8" "GetMaxFds (ram_fds c) = 128"
    "\<forall>v. max_entries (ram_store v c) = 128" "\<forall>v. allocator_kind (ram_store v c) = kMallocLibc" "\<forall>v. libc_malloc (ram_store v c) = kv_demo_malloc"
    by (rule ram_demo)
  let ?o = "ram_demo_object 7" let ?b = "[1, 2, 3] :: nat list"
  have i: "kv_key_ok (object_id ?o)" using kv_demo_key[of 7] by (simp add: ram_demo_object_def)
  have e: "env_malloc ram_demo_env (length ?b) \<noteq> None" by (simp add: ram_demo_env_def)
  obtain ok txn c' where C: "CommitFromMem ram_demo_env ?o ?b (length ?b) c = Some (ok, txn, c')"
    "ok \<longrightarrow> (\<exists>c''. Open2Mem ?o c' = Some (True, Some ?b, length ?b, c''))" "\<not> ok \<longrightarrow> (\<exists>v. kv_no_memory (length ?b) (ram_store v c'))"
    using ram_mem_roundtrip[OF c(2) ram_demo_env_ok i, of ?b] c(3-5) e by (auto simp: found_in_def kv_used_def Let_def)
  obtain txn0 m where M: "CommitFromMem ram_demo_env ?o ?b (length ?b) c = do { (rc, txn, c) \<leftarrow> CommitTxn txn0 (c\<lparr>ram_counters := m\<rparr>); Some (rc = 0, txn, c) }"
    "buf_size (tx_buffer txn0) = length ?b" "txn_ok txn0"
    using CommitFromMem_run[OF ram_demo_env_ok _ disjI1[OF e], of ?o c] i by (auto simp: txn_ok_def)
  have "do { (rc, txn, c) \<leftarrow> CommitTxn txn0 (c\<lparr>ram_counters := m\<rparr>); Some (rc = 0, txn, c) } = Some (ok, txn, c')" using C(1) M(1) by metis
  then obtain rc where "CommitTxn txn0 (c\<lparr>ram_counters := m\<rparr>) = Some (rc, txn, c')" "ok = (rc = 0)" by (auto simp: bind_eq_Some_conv)
  then have ok using ram_demo_commit[of "c\<lparr>ram_counters := m\<rparr>" txn0 rc txn c'] c(2,3,6,7) M(2,3) C(3) by auto
  then show ?thesis using c(1) C(1,2) by (auto simp: numeral_3_eq_3)
qed

text \<open>
  C34.  A commit can be refused although the object fits.  When the cache is full, \<open>CommitToKvStore\<close> tries to free at
  least a quarter of the cache; if the objects without references are fewer bytes than that, it
  evicts all of them and returns \<open>-ENOSPC\<close>, even if the space that is then free suffices for the object.
\<close>

theorem ram_spurious_enospc:
  assumes r: "ram_rel c F S" and small: "kv_used (S False) + buf_size (tx_buffer txn) < 2 ^ 62" "max_size c < 2 ^ 62" and vol: "S True = []"
    and over: "kv_used (S False) + buf_size (tx_buffer txn) > max_size c"
    and fits: "kv_used (filter (\<lambda>(k, ob). obj_refcount ob > 0) (S False)) + buf_size (tx_buffer txn) \<le> max_size c"
    and few: "kv_used (S False) - kv_used (filter (\<lambda>(k, ob). obj_refcount ob > 0) (S False)) < max_size c div 4"
  shows "\<exists>txn' c'. CommitTxn txn c = Some (- ENOSPC, txn', c') \<and>
    GetUsed (regular_entries c') + GetUsed (volatile_entries c') + buf_size (tx_buffer txn) \<le> max_size c'"
proof -
  let ?n = "buf_size (tx_buffer txn)" let ?os = "S False" let ?ref = "\<lambda>(k :: digest, ob). obj_refcount ob > 0"
  have r1: "ram_rel (Inc N_committxn c) F S" using r by simp
  obtain ov c' S' ov1 where M: "make_room ?n (Inc N_committxn c) = Some (ov, c')" "ram_rel c' F S'" "\<forall>v. evicted (S v) (S' v)" "max_size c' = max_size c"
    "ov1 = room_goal S ?n (max_size c) - (int (kv_used (S True)) - int (kv_used (S' True)))"
    "ov = ov1 - (int (kv_used ?os) - int (kv_used (S' False)))"
    "ov1 > 0 \<longrightarrow> S' False = shrunk (nat (int (kv_used ?os) - ov1)) (kv_used ?os) ?os"
    using make_room_shrinks[OF r1, of ?n] small vol over by (auto simp: kv_used_def)
  have V': "S' True = []" using M(3)[rule_format, of True] vol by (auto simp: evicted_def)
  have o1: "ov1 = max (int (kv_used ?os) + int ?n - int (max_size c)) (int (max_size c) div 4)" using M(5) V' vol by (simp add: room_goal_def kv_used_def)
  then have pos: "ov1 > 0" "ov1 \<ge> int (max_size c div 4)" "int (kv_used ?os) + int ?n - ov1 \<le> int (max_size c)" using over by (auto simp: zdiv_int)
  define t where "t = nat (int (kv_used ?os) - ov1)"
  have S': "S' False = shrunk t (kv_used ?os) ?os" using M(7) pos by (simp add: t_def)
  have ge: "kv_used (S' False) \<ge> kv_used (filter ?ref ?os)" unfolding S' by (rule shrunk_used_ge)
  have fit': "kv_used (S' False) + ?n \<le> max_size c"
  proof (cases "kv_used (S' False) > t")
    case True
    then have "\<forall>(k, ob) \<in> set (S' False). obj_refcount ob > 0" using shrunk_reaches[of ?os "kv_used ?os" t] S' by simp
    then have "filter ?ref (S' False) = S' False" by (auto simp: filter_id_conv)
    moreover have "subseq (filter ?ref (S' False)) (filter ?ref ?os)" unfolding S' by (intro subseq_filter shrunk_subset)
    ultimately have "kv_used (S' False) \<le> kv_used (filter ?ref ?os)" using kv_used_subseq by metis
    then show ?thesis using fits by simp
  next
    case False
    then show ?thesis using pos(3) fits ge by (auto simp: t_def nat_le_iff)
  qed
  have "ov > 0" using M(6) pos few ge by linarith
  then have "CommitTxn txn c = Some (- ENOSPC, txn\<lparr>tx_buffer := tx_ready txn\<rparr>, Inc N_full c')"
    using M(1) by (simp add: CommitTxn_def CommitToKvStore_def tx_ready_def tx_pinned_def Let_def ENOSPC_def)
  moreover have "GetUsed (regular_entries (Inc N_full c')) = kv_used (S' False)" "GetUsed (volatile_entries (Inc N_full c')) = 0"
    using view_used[OF ram_relD(6)[OF M(2), of False]] view_used[OF ram_relD(6)[OF M(2), of True]] V' by (simp_all add: ram_store_def Inc_def kv_used_def)
  ultimately show ?thesis using fit' M(4) by auto
qed

lemma ram_demo_first:
  obtains c txn' c1 ob where "ram_demo_new = Some c" "CommitTxn (ram_demo_txn 5 [9]) c = Some (0, txn', c1)" "max_size c1 = 8"
    "ram_rel c1 Map.empty ((\<lambda>_. [])(False := [(any_key (kv_demo_id 5), ob)]))" "obj_refcount ob = 0" "obj_bytes ob = [9]"
proof -
  obtain c where c: "ram_demo_new = Some c" "ram_rel c Map.empty (\<lambda>_. [])" "max_size c = 8" "GetMaxFds (ram_fds c) = 128"
    "\<forall>v. max_entries (ram_store v c) = 128" "\<forall>v. allocator_kind (ram_store v c) = kMallocLibc" "\<forall>v. libc_malloc (ram_store v c) = kv_demo_malloc"
    by (rule ram_demo)
  let ?t = "ram_demo_txn 5 [9]" let ?S = "\<lambda>_. [] :: (digest \<times> kv_object) list"
  have ok: "txn_ok ?t" by (rule ram_demo_txn_simps) simp_all
  obtain rc txn' c1 where C: "CommitTxn ?t c = Some (rc, txn', c1)" "rc = 0 \<or> kv_no_memory (buf_size (tx_buffer ?t)) (ram_store False c1)"
    using CommitTxn_new[OF c(2) ok] c(3,5) by (auto simp: ram_demo_txn_simps kv_used_def)
  then have rc: "rc = 0" using ram_demo_commit[OF c(2,6,7) _ c(3) ok C(1)] by (auto simp: ram_demo_txn_simps)
  obtain t' where K: "CommitToKvStore ?t (Inc N_committxn c) = Some (0, t', c1)"
    using C(1) rc by (auto simp: CommitTxn_def bind_eq_Some_conv split: if_splits)
  have r1: "ram_rel (Inc N_committxn c) Map.empty ?S" using c(2) by simp
  obtain S' where S': "\<forall>v. evicted (?S v) (S' v)" "max_size c1 = 8" "ram_rel c1 Map.empty (S'(False := committed (tx_ready ?t) [9] (S' False)))"
    using CommitToKvStore_ok[OF r1 ok] K c(3) by (auto simp: ram_demo_txn_simps kv_used_def errno_defs)
  have "S' = ?S" using S'(1) by (auto simp: evicted_def fun_eq_iff)
  moreover have "refcount (tx_ready ?t) = 0" by (simp add: tx_ready_def tx_pinned_def ram_demo_txn_def kv_demo_buf_def MemoryBuffer_new_def has_flag_def)
  ultimately show ?thesis using S'(2,3) c(1) C(1) rc
    by (intro that[of c txn' c1 "\<lparr>obj_bytes = [9], obj_refcount = 0, obj_flags = object_flags (tx_ready ?t)\<rparr>"])
      (simp_all add: committed_def al_remove_def tx_ready_def ram_demo_txn_def kv_demo_buf_def Let_def)
qed

theorem ram_spurious_enospc_witness:
  "\<exists>c t1 c1 t2 c2. ram_demo_new = Some c \<and> CommitTxn (ram_demo_txn 5 [9]) c = Some (0, t1, c1) \<and>
    CommitTxn (ram_demo_txn 6 [1, 2, 3, 4, 5, 6, 7, 8]) c1 = Some (- ENOSPC, t2, c2) \<and>
    GetUsed (regular_entries c2) + GetUsed (volatile_entries c2) + 8 \<le> max_size c2"
proof -
  obtain c t1 c1 ob where c: "ram_demo_new = Some c" "CommitTxn (ram_demo_txn 5 [9]) c = Some (0, t1, c1)" "max_size c1 = 8"
    "ram_rel c1 Map.empty ((\<lambda>_. [])(False := [(any_key (kv_demo_id 5), ob)]))" "obj_refcount ob = 0" "obj_bytes ob = [9]" by (rule ram_demo_first)
  from ram_spurious_enospc[OF c(4), of "ram_demo_txn 6 [1, 2, 3, 4, 5, 6, 7, 8]"] c(1-3,5,6) show ?thesis
    by (auto simp: ram_demo_txn_simps kv_used_def)
qed

theorem ram_descriptor_history_witness:
  "\<exists>c txn' c1 rs c'. ram_demo_new = Some c \<and> CommitTxn (ram_demo_txn 5 [9]) c = Some (0, txn', c1) \<and>
    ram_run [ROpen (ram_demo_object 5), RDup 0, RPread 1 10 0, RGetSize 0, RClose 0, RClose 1, RClose 1] c1 = Some (rs, c') \<and> length rs = 7"
proof -
  obtain c txn' c1 ob where c: "ram_demo_new = Some c" "CommitTxn (ram_demo_txn 5 [9]) c = Some (0, txn', c1)"
    "ram_rel c1 Map.empty ((\<lambda>_. [])(False := [(any_key (kv_demo_id 5), ob)]))" by (rule ram_demo_first)
  have "list_all call_ok [ROpen (ram_demo_object 5), RDup 0, RPread 1 10 0, RGetSize 0, RClose 0, RClose 1, RClose 1]"
    using kv_demo_key[of 5] by (simp add: call_ok_def ram_demo_object_def)
  from ram_descriptor_history[OF c(3) this] c(1,2) show ?thesis by auto
qed

end
