(* ===== verification/Ring.thy ===== *)
theory Ring
  imports Bytes
begin

text \<open>
  The ring buffer of \<^verbatim>\<open>cvmfs/ring_buffer.cc\<close>: objects are appended at the front and removed at the back
  of a circular memory area, each one behind its 8-byte size tag.

  Seen from the back, i.e. rotated by \<open>back_pos\<close>, the area is the sequence of the stored objects
  followed by the free space (\<open>ring_rel\<close>).  So the buffer is a queue, and handles stay valid until their
  object is removed.
\<close>

section \<open>The code\<close>

type_synonym bytes = "nat list"

record ring =
  total_size :: nat
  free_space :: nat
  front_pos :: nat
  back_pos :: nat
  buffer :: bytes

definition kInvalidObjectHandle :: nat where
  "kInvalidObjectHandle = 2 ^ 64 - 1"

definition size_of_size_t :: nat where
  "size_of_size_t = 8"

definition RingBuffer_new :: "nat \<Rightarrow> ring option" where
  "RingBuffer_new sz = do {
     assert_that (sz \<ge> size_of_size_t);
     Some \<lparr>total_size = sz, free_space = sz, front_pos = 0, back_pos = 0, buffer = replicate sz 0\<rparr>
   }"

definition ring_Put :: "bytes \<Rightarrow> ring \<Rightarrow> ring option" where
  "ring_Put data r = do {
     let sz = length data;
     let size_head = min sz (total_size r - front_pos r);
     b \<leftarrow> (if size_head > 0 then mem_write (buffer r) (front_pos r) (take size_head data) else Some (buffer r));
     b \<leftarrow> (if size_head < sz then mem_write b 0 (drop size_head data) else Some b);
     Some (r\<lparr>buffer := b, front_pos := (front_pos r + sz) mod total_size r,
             free_space := u64 (free_space r + (2 ^ 64 - sz))\<rparr>)
   }"

definition ring_Get :: "nat \<Rightarrow> nat \<Rightarrow> ring \<Rightarrow> bytes option" where
  "ring_Get from sz r = do {
     let size_head = min sz (total_size r - from);
     head \<leftarrow> (if size_head > 0 then mem_read (buffer r) from size_head else Some []);
     tail \<leftarrow> (if size_head < sz then mem_read (buffer r) 0 (sz - size_head) else Some []);
     Some (head @ tail)
   }"

definition ring_Shrink :: "nat \<Rightarrow> ring \<Rightarrow> ring" where
  "ring_Shrink by_bytes r =
     r\<lparr>back_pos := (back_pos r + by_bytes) mod total_size r, free_space := u64 (free_space r + by_bytes)\<rparr>"

definition GetObjectSize :: "nat \<Rightarrow> ring \<Rightarrow> nat option" where
  "GetObjectSize handle r = do {
     tag \<leftarrow> ring_Get handle size_of_size_t r;
     let size_tag = le_value tag;
     assert_that (size_tag \<le> total_size r);
     Some size_tag
   }"

definition PushFront :: "bytes \<Rightarrow> ring \<Rightarrow> (nat \<times> ring) option" where
  "PushFront obj r = (let size_tag = length obj; sz = u64 (size_tag + size_of_size_t) in
     if sz > free_space r then Some (kInvalidObjectHandle, r)
     else do {
       let result = front_pos r;
       r \<leftarrow> ring_Put (le_bytes size_of_size_t size_tag) r;
       r \<leftarrow> ring_Put obj r;
       Some (result, r)
     })"

definition RemoveBack :: "ring \<Rightarrow> (nat \<times> ring) option" where
  "RemoveBack r = do {
     let result = back_pos r;
     size_tag \<leftarrow> GetObjectSize result r;
     let r = ring_Shrink size_of_size_t r;
     let r = ring_Shrink size_tag r;
     Some (result, r)
   }"

definition CopyObject :: "nat \<Rightarrow> ring \<Rightarrow> bytes option" where
  "CopyObject handle r = do {
     size_tag \<leftarrow> GetObjectSize handle r;
     let object = (handle + size_of_size_t) mod total_size r;
     ring_Get object size_tag r
   }"

definition CopySlice :: "nat \<Rightarrow> nat \<Rightarrow> nat \<Rightarrow> ring \<Rightarrow> bytes option" where
  "CopySlice handle sz offset r =
     (let begin_pos = u64 (handle + size_of_size_t + offset) mod total_size r in ring_Get begin_pos sz r)"

definition GetMaxObjectSize :: "ring \<Rightarrow> nat" where
  "GetMaxObjectSize r = total_size r - size_of_size_t"

definition ring_HasSpaceFor :: "nat \<Rightarrow> ring \<Rightarrow> bool" where
  "ring_HasSpaceFor sz r \<longleftrightarrow> free_space r \<ge> u64 (sz + size_of_size_t)"

section \<open>The area as a rotated list\<close>

lemma rotate_split: "k < length b \<Longrightarrow> rotate k b = drop k b @ take k b"
  by (simp add: rotate_drop_take)

lemma ring_Get_rotate:
  assumes "length (buffer r) = total_size r" "from < total_size r" "sz \<le> total_size r"
  shows "ring_Get from sz r = Some (take sz (rotate from (buffer r)))"
  using assms by (auto simp: ring_Get_def mem_read_def rotate_split min_def Let_def)

lemma ring_Put_rotate:
  assumes "length (buffer r) = total_size r" "front_pos r < total_size r" "length data \<le> total_size r"
  shows "\<exists>b. ring_Put data r = Some (r\<lparr>buffer := b, front_pos := (front_pos r + length data) mod total_size r,
             free_space := u64 (free_space r + (2 ^ 64 - length data))\<rparr>) \<and> length b = total_size r \<and>
             rotate (front_pos r) b = data @ drop (length data) (rotate (front_pos r) (buffer r))"
proof -
  let ?f = "front_pos r" and ?b = "buffer r" and ?n = "total_size r - front_pos r"
  obtain xs ys where b: "?b = xs @ ys" "length xs = ?f" "length ys = ?n"
    by (rule that[of "take ?f ?b" "drop ?f ?b"]) (use assms in simp_all)
  have rot: "rotate ?f (xs' @ ys') = ys' @ xs'" if "length xs' = ?f" for xs' ys' :: bytes
    using that rotate_append[of xs' ys'] by simp
  show ?thesis
  proof (cases "length data \<le> ?n")
    case True
    have "mem_write ?b ?f data = Some (xs @ data @ drop (length data) ys)"
      using assms b True by (simp add: mem_write_def)
    then have "ring_Put data r = Some (r\<lparr>buffer := xs @ data @ drop (length data) ys, front_pos := (?f + length data) mod total_size r,
             free_space := u64 (free_space r + (2 ^ 64 - length data))\<rparr>)"
      using True b by (cases "data = []") (auto simp: ring_Put_def Let_def min_def)
    then show ?thesis using assms b True rot by (intro exI[of _ "xs @ data @ drop (length data) ys"]) simp
  next
    case False
    define h t where "h = take ?n data" and "t = drop ?n data"
    have ht: "data = h @ t" "length h = length ys" "t \<noteq> []" "length t \<le> length xs"
      using False assms b by (auto simp: h_def t_def)
    have n: "?n > 0" using assms by simp
    have w1: "mem_write ?b ?f h = Some (xs @ h)" using b ht by (simp add: mem_write_def)
    have w2: "mem_write (xs @ h) 0 t = Some (t @ drop (length t) xs @ h)" using ht by (simp add: mem_write_def)
    have "ring_Put data r = Some (r\<lparr>buffer := t @ drop (length t) xs @ h, front_pos := (?f + length data) mod total_size r,
             free_space := u64 (free_space r + (2 ^ 64 - length data))\<rparr>)"
      using False n w1 w2 by (simp add: ring_Put_def Let_def min_def flip: h_def t_def)
    moreover have "rotate ?f (t @ drop (length t) xs @ h) = h @ t @ drop (length t) xs"
      using rot[of "t @ drop (length t) xs" h] ht(4) b(2) by simp
    ultimately show ?thesis using assms b ht rot[of xs ys] by (intro exI[of _ "t @ drop (length t) xs @ h"]) simp
  qed
qed

section \<open>The queue of objects\<close>

definition tagged :: "bytes \<Rightarrow> bytes" where
  "tagged ob = le_bytes 8 (length ob) @ ob"

definition area :: "bytes list \<Rightarrow> bytes" where
  "area q = concat (map tagged q)"

definition ring_rel :: "ring \<Rightarrow> bytes list \<Rightarrow> bool" where
  "ring_rel r q \<longleftrightarrow> 8 \<le> total_size r \<and> total_size r < 2 ^ 63 \<and> length (buffer r) = total_size r \<and> back_pos r < total_size r \<and>
     front_pos r = (back_pos r + length (area q)) mod total_size r \<and>
     (\<exists>rest. rotate (back_pos r) (buffer r) = area q @ rest \<and> length rest = free_space r)"

lemma tagged_length [simp]: "length (tagged ob) = 8 + length ob"
  by (simp add: tagged_def)

lemma area_simps [simp]: "area [] = []" "area (ob # q) = tagged ob @ area q" "area (p @ q) = area p @ area q"
  by (simp_all add: area_def)

lemma ring_rel_free: "ring_rel r q \<Longrightarrow> free_space r + length (area q) = total_size r"
  by (auto simp: ring_rel_def dest: arg_cong[where f = length])

lemma RingBuffer_new_rel: "8 \<le> n \<Longrightarrow> n < 2 ^ 63 \<Longrightarrow> \<exists>r. RingBuffer_new n = Some r \<and> ring_rel r [] \<and> total_size r = n"
  by (simp add: RingBuffer_new_def ring_rel_def size_of_size_t_def)

lemma u64_sub: "n \<le> a \<Longrightarrow> a < 2 ^ 64 \<Longrightarrow> u64 (a + (2 ^ 64 - n)) = a - n"
proof -
  assume a: "n \<le> a" "a < 2 ^ 64"
  then have "a + (2 ^ 64 - n) = (a - n) + 2 ^ 64" by simp
  with a show ?thesis by (simp only: u64_def mod_add_self2) simp
qed

text \<open>Appending raw bytes behind the stored sequence.\<close>

lemma Put_append:
  assumes "length (buffer r) = total_size r" "back_pos r < total_size r" "front_pos r = (back_pos r + length s) mod total_size r"
    "rotate (back_pos r) (buffer r) = s @ rest" "length rest = free_space r" "length data \<le> free_space r" "total_size r < 2 ^ 64"
  obtains r' where "ring_Put data r = Some r'" "length (buffer r') = total_size r" "total_size r' = total_size r" "back_pos r' = back_pos r"
    "front_pos r' = (back_pos r + length (s @ data)) mod total_size r" "rotate (back_pos r) (buffer r') = (s @ data) @ drop (length data) rest"
    "free_space r' = free_space r - length data"
proof -
  have tot: "length s + length rest = total_size r" using arg_cong[OF assms(4), of length] assms(1) by simp
  have f: "front_pos r < total_size r" using assms(2,3) by simp
  have frot: "rotate (front_pos r) (buffer r) = rest @ s"
  proof -
    have "rotate (front_pos r) (buffer r) = rotate (back_pos r + length s) (buffer r)" using assms(1,3) by (metis rotate_conv_mod)
    also have "\<dots> = rotate (length s) (s @ rest)" by (simp add: add.commute assms(4) flip: rotate_rotate)
    finally show ?thesis by (simp add: rotate_append)
  qed
  obtain b where b: "ring_Put data r = Some (r\<lparr>buffer := b, front_pos := (front_pos r + length data) mod total_size r,
             free_space := u64 (free_space r + (2 ^ 64 - length data))\<rparr>)" "length b = total_size r"
             "rotate (front_pos r) b = data @ drop (length data) (rest @ s)"
    using ring_Put_rotate[OF assms(1) f, of data] assms(5,6) tot frot by auto
  let ?F = "data @ drop (length data) rest"
  have F: "rotate (front_pos r) b = ?F @ s" "length ?F = length rest" using b(3) assms(5,6) by simp_all
  have "rotate (back_pos r) b = rotate (length rest) (rotate (front_pos r) b)"
  proof -
    have "(length rest + front_pos r) mod total_size r = back_pos r"
    proof -
      have e: "length rest + (back_pos r + length s) = back_pos r + total_size r" using tot by simp
      show ?thesis unfolding assms(3) mod_add_right_eq e using assms(2) by simp
    qed
    then show ?thesis by (metis b(2) rotate_conv_mod rotate_rotate)
  qed
  also have "\<dots> = s @ ?F" using F rotate_append[of ?F s] by simp
  finally have rb: "rotate (back_pos r) b = (s @ data) @ drop (length data) rest" by simp
  have fr: "u64 (free_space r + (2 ^ 64 - length data)) = free_space r - length data"
    using assms(5-7) tot by (intro u64_sub) simp_all
  show thesis
    by (rule that[OF b(1)]) (use b(2) rb fr assms(3) in \<open>simp_all add: mod_simps add.assoc\<close>)
qed

lemma PushFront_full:
  "length ob < 2 ^ 64 - 8 \<Longrightarrow> free_space r < 8 + length ob \<Longrightarrow> PushFront ob r = Some (kInvalidObjectHandle, r)"
  by (simp add: PushFront_def size_of_size_t_def)

lemma PushFront_ok:
  assumes "ring_rel r q" "8 + length ob \<le> free_space r"
  obtains r' where "PushFront ob r = Some ((back_pos r + length (area q)) mod total_size r, r')" "ring_rel r' (q @ [ob])"
    "total_size r' = total_size r" "back_pos r' = back_pos r"
proof -
  obtain rest where rest: "rotate (back_pos r) (buffer r) = area q @ rest" "length rest = free_space r"
    using assms(1) by (auto simp: ring_rel_def)
  have R: "length (buffer r) = total_size r" "back_pos r < total_size r" "front_pos r = (back_pos r + length (area q)) mod total_size r"
      "total_size r < 2 ^ 64" "8 \<le> total_size r" "total_size r < 2 ^ 63" using assms(1) by (auto simp: ring_rel_def)
  let ?tag = "le_bytes 8 (length ob)"
  obtain r1 where r1: "ring_Put ?tag r = Some r1" "length (buffer r1) = total_size r" "total_size r1 = total_size r" "back_pos r1 = back_pos r"
      "front_pos r1 = (back_pos r + length (area q @ ?tag)) mod total_size r" "rotate (back_pos r) (buffer r1) = (area q @ ?tag) @ drop 8 rest"
      "free_space r1 = free_space r - 8"
    using Put_append[OF R(1-3) rest, of ?tag] assms(2) R(4) by auto
  have lo: "length ob \<le> free_space r - 8" using assms(2) by simp
  obtain r2 where r2: "ring_Put ob r1 = Some r2" "length (buffer r2) = total_size r" "total_size r2 = total_size r" "back_pos r2 = back_pos r"
      "front_pos r2 = (back_pos r + length ((area q @ ?tag) @ ob)) mod total_size r"
      "rotate (back_pos r) (buffer r2) = ((area q @ ?tag) @ ob) @ drop (length ob) (drop 8 rest)" "free_space r2 = free_space r - 8 - length ob"
    using Put_append[of r1 "area q @ ?tag" "drop 8 rest" ob] r1 R rest(2) lo by auto
  have "free_space r < 2 ^ 64" using ring_rel_free[OF assms(1)] R by linarith
  then have u: "u64 (length ob + 8) = length ob + 8" using assms(2) by simp
  have "PushFront ob r = Some (front_pos r, r2)"
    using assms(2) u r1(1) r2(1) by (simp add: PushFront_def size_of_size_t_def Let_def)
  moreover have "ring_rel r2 (q @ [ob])" using r2 R rest(2) by (simp add: ring_rel_def tagged_def)
  ultimately show thesis using that R(3) r2(3,4) by metis
qed

text \<open>The bytes at the handle of a stored object.\<close>

lemma rotate_handle:
  assumes "ring_rel r (p @ ob # q)" "h = (back_pos r + length (area p)) mod total_size r"
  obtains rest where "rotate h (buffer r) = tagged ob @ rest"
proof -
  obtain rest where rest: "rotate (back_pos r) (buffer r) = area p @ tagged ob @ area q @ rest"
    using assms(1) by (auto simp: ring_rel_def)
  have "rotate h (buffer r) = rotate (length (area p)) (rotate (back_pos r) (buffer r))"
    using assms by (metis add.commute ring_rel_def rotate_conv_mod rotate_rotate)
  also have "\<dots> = tagged ob @ area q @ rest @ area p" unfolding rest by (simp add: rotate_append)
  finally show thesis by (rule that)
qed

lemma object_fits: "ring_rel r (p @ ob # q) \<Longrightarrow> 8 + length ob \<le> total_size r"
  using ring_rel_free[of r "p @ ob # q"] by simp

lemma rotate_further: "rotate h b = xs @ ys \<Longrightarrow> length b = n \<Longrightarrow> rotate ((h + length xs) mod n) b = ys @ xs"
  by (metis add.commute rotate_append rotate_conv_mod rotate_rotate)

lemma GetObjectSize_at:
  assumes "ring_rel r (p @ ob # q)" "h = (back_pos r + length (area p)) mod total_size r"
  shows "GetObjectSize h r = Some (length ob)"
proof -
  obtain rest where rest: "rotate h (buffer r) = tagged ob @ rest" using rotate_handle[OF assms] .
  have R: "length (buffer r) = total_size r" "total_size r < 2 ^ 63" "8 \<le> total_size r" "h < total_size r"
    using assms by (auto simp: ring_rel_def)
  have "length ob < 256 ^ 8" using object_fits[OF assms(1)] R(2) by simp
  then show ?thesis using ring_Get_rotate[OF R(1,4), of 8] R rest object_fits[OF assms(1)]
    by (simp add: GetObjectSize_def size_of_size_t_def tagged_def le_value_bytes)
qed

lemma CopySlice_at:
  assumes "ring_rel r (p @ ob # q)" "h = (back_pos r + length (area p)) mod total_size r" "off + n \<le> length ob"
  shows "CopySlice h n off r = Some (take n (drop off ob))"
proof -
  obtain rest where rest: "rotate h (buffer r) = tagged ob @ rest" using rotate_handle[OF assms(1,2)] .
  have R: "length (buffer r) = total_size r" "total_size r < 2 ^ 63" "8 \<le> total_size r" "h < total_size r"
    using assms by (auto simp: ring_rel_def)
  have fit: "8 + length ob \<le> total_size r" by (rule object_fits[OF assms(1)])
  have u: "u64 (h + 8 + off) = h + 8 + off" using R fit assms(3) by simp
  have pre: "rotate h (buffer r) = (le_bytes 8 (length ob) @ take off ob) @ drop off ob @ rest" using rest by (simp add: tagged_def)
  have "rotate ((h + 8 + off) mod total_size r) (buffer r) = (drop off ob @ rest) @ le_bytes 8 (length ob) @ take off ob"
    using rotate_further[OF pre R(1)] assms(3) by (simp add: add.assoc)
  then show ?thesis using ring_Get_rotate[OF R(1), of "(h + 8 + off) mod total_size r" n] u R fit assms(3)
    by (simp add: CopySlice_def size_of_size_t_def)
qed

lemma CopyObject_at:
  assumes "ring_rel r (p @ ob # q)" "h = (back_pos r + length (area p)) mod total_size r"
  shows "CopyObject h r = Some ob"
proof -
  have "h < total_size r" "total_size r < 2 ^ 63" using assms by (auto simp: ring_rel_def)
  then have "u64 (h + 8) = h + 8" by simp
  then have "CopyObject h r = CopySlice h (length ob) 0 r"
    using GetObjectSize_at[OF assms] by (simp add: CopyObject_def CopySlice_def size_of_size_t_def Let_def)
  with CopySlice_at[OF assms, of 0 "length ob"] show ?thesis by simp
qed

lemma RemoveBack_ok:
  assumes "ring_rel r (ob # q)"
  obtains r' where "RemoveBack r = Some (back_pos r, r')" "ring_rel r' q" "total_size r' = total_size r"
    "back_pos r' = (back_pos r + length (tagged ob)) mod total_size r"
proof -
  have R: "length (buffer r) = total_size r" "back_pos r < total_size r" "total_size r < 2 ^ 63" "8 \<le> total_size r"
      "front_pos r = (back_pos r + length (area (ob # q))) mod total_size r" using assms by (auto simp: ring_rel_def)
  have gs: "GetObjectSize (back_pos r) r = Some (length ob)" using GetObjectSize_at[of r "[]" ob q] assms R by simp
  let ?r' = "ring_Shrink (length ob) (ring_Shrink 8 r)"
  have run: "RemoveBack r = Some (back_pos r, ?r')" using gs by (simp add: RemoveBack_def size_of_size_t_def)
  have tot: "free_space r + (8 + length ob + length (area q)) = total_size r" using ring_rel_free[OF assms] by simp
  have b: "back_pos ?r' = (back_pos r + length (tagged ob)) mod total_size r" by (simp add: ring_Shrink_def mod_simps add.assoc)
  have f: "free_space ?r' = free_space r + 8 + length ob" using tot R(3) by (simp add: ring_Shrink_def)
  obtain rest where rest: "rotate (back_pos r) (buffer r) = tagged ob @ area q @ rest" "length rest = free_space r"
    using assms by (auto simp: ring_rel_def)
  have "rotate (back_pos ?r') (buffer r) = area q @ rest @ tagged ob" unfolding b using rotate_further[OF rest(1) R(1)] by simp
  moreover have "buffer ?r' = buffer r" "total_size ?r' = total_size r" "front_pos ?r' = front_pos r" by (simp_all add: ring_Shrink_def)
  ultimately have "ring_rel ?r' q" using R rest(2) f b by (auto simp: ring_rel_def mod_simps add.assoc)
  from that[OF run this _ b] show thesis by (simp add: ring_Shrink_def)
qed

section \<open>Histories\<close>

text \<open>The handles of the stored objects, from the one at position \<open>pos\<close> on.\<close>

fun handles_of :: "nat \<Rightarrow> nat \<Rightarrow> bytes list \<Rightarrow> nat list" where
  "handles_of n pos [] = []"
| "handles_of n pos (ob # q) = pos mod n # handles_of n (pos + length (tagged ob)) q"

lemma handles_of_snoc: "handles_of n pos (q @ [ob]) = handles_of n pos q @ [(pos + length (area q)) mod n]"
  by (induction q arbitrary: pos) (auto simp: add.assoc)

lemma handles_of_mod: "handles_of n (pos mod n) q = handles_of n pos q"
  by (induction q arbitrary: pos) (simp, metis handles_of.simps(2) mod_add_left_eq mod_mod_trivial)

text \<open>What a client sees at a handle: the size of the object, its bytes and its slices.\<close>

definition object_at :: "ring \<Rightarrow> nat \<Rightarrow> bytes \<Rightarrow> bool" where
  "object_at r h ob \<longleftrightarrow> GetObjectSize h r = Some (length ob) \<and> CopyObject h r = Some ob \<and>
     (\<forall>off n. off + n \<le> length ob \<longrightarrow> CopySlice h n off r = Some (take n (drop off ob)))"

lemma handles_objects:
  assumes "ring_rel r q"
  shows "list_all2 (object_at r) (handles_of (total_size r) (back_pos r) q) q"
proof -
  have "list_all2 (object_at r) (handles_of (total_size r) (back_pos r + length (area p)) s) s" if "q = p @ s" for p s
    using that
  proof (induction s arbitrary: p)
    case (Cons ob s)
    then have rr: "ring_rel r (p @ ob # s)" using assms by simp
    have "object_at r ((back_pos r + length (area p)) mod total_size r) ob"
      using GetObjectSize_at[OF rr refl] CopyObject_at[OF rr refl] CopySlice_at[OF rr refl] by (simp add: object_at_def)
    moreover have "list_all2 (object_at r) (handles_of (total_size r) (back_pos r + length (area (p @ [ob]))) s) s"
      by (rule Cons.IH) (simp add: Cons.prems)
    ultimately show ?case by (simp add: add.assoc)
  qed simp
  from this[of "[]" q] show ?thesis by simp
qed

datatype ring_op = RPush bytes | RPop

text \<open>
  A client that keeps the handles of its objects in the order of insertion, removes only when there
  is an object, and expects to get the oldest handle back.
\<close>

definition ring_step :: "ring_op \<Rightarrow> ring \<times> nat list \<Rightarrow> (ring \<times> nat list) option" where
  "ring_step op s = (case s of (r, hs) \<Rightarrow> case op of
       RPush ob \<Rightarrow> do {
         (h, r) \<leftarrow> PushFront ob r;
         Some (r, if h = kInvalidObjectHandle then hs else hs @ [h])
       }
     | RPop \<Rightarrow> (case hs of [] \<Rightarrow> Some (r, [])
        | h # hs \<Rightarrow> do {
            (h', r) \<leftarrow> RemoveBack r;
            assert_that (h' = h);
            Some (r, hs)
          }))"

definition ring_spec :: "nat \<Rightarrow> ring_op \<Rightarrow> bytes list \<Rightarrow> bytes list" where
  "ring_spec n op q = (case op of
       RPush ob \<Rightarrow> if sum_list (map (\<lambda>ob. 8 + length ob) (q @ [ob])) \<le> n then q @ [ob] else q
     | RPop \<Rightarrow> tl q)"

lemma area_length: "length (area q) = sum_list (map (\<lambda>ob. 8 + length ob) q)"
  by (induction q) auto

lemma ring_step_ok:
  assumes "ring_rel r q" "hs = handles_of (total_size r) (back_pos r) q" "\<forall>ob. op = RPush ob \<longrightarrow> length ob < 2 ^ 64 - 8"
  shows "\<exists>r'. ring_step op (r, hs) = Some (r', handles_of (total_size r) (back_pos r') (ring_spec (total_size r) op q)) \<and>
    ring_rel r' (ring_spec (total_size r) op q) \<and> total_size r' = total_size r"
proof (cases op)
  case (RPush ob)
  have free: "free_space r + length (area q) = total_size r" by (rule ring_rel_free[OF assms(1)])
  show ?thesis
  proof (cases "8 + length ob \<le> free_space r")
    case True
    then have sp: "ring_spec (total_size r) op q = q @ [ob]" using free by (simp add: RPush ring_spec_def area_length)
    obtain r' where r': "PushFront ob r = Some ((back_pos r + length (area q)) mod total_size r, r')" "ring_rel r' (q @ [ob])"
        "total_size r' = total_size r" "back_pos r' = back_pos r"
      using PushFront_ok[OF assms(1) True] .
    have T: "0 < total_size r" "total_size r < 2 ^ 63" using assms(1) by (auto simp: ring_rel_def)
    have "(back_pos r + length (area q)) mod total_size r < total_size r" using T(1) by simp
    then have "(back_pos r + length (area q)) mod total_size r \<noteq> kInvalidObjectHandle" using T(2) by (simp add: kInvalidObjectHandle_def)
    with r' show ?thesis unfolding sp assms(2) by (simp add: ring_step_def RPush handles_of_snoc)
  next
    case False
    then have sp: "ring_spec (total_size r) op q = q" using free by (simp add: RPush ring_spec_def area_length)
    have "length ob < 2 ^ 64 - 8" using assms(3) RPush by blast
    from PushFront_full[OF this] False show ?thesis unfolding sp assms(2) using assms(1) by (simp add: ring_step_def RPush)
  qed
next
  case RPop
  show ?thesis
  proof (cases q)
    case Nil
    then show ?thesis using assms by (simp add: ring_step_def ring_spec_def RPop)
  next
    case (Cons ob q')
    obtain r' where r': "RemoveBack r = Some (back_pos r, r')" "ring_rel r' q'" "total_size r' = total_size r"
        "back_pos r' = (back_pos r + length (tagged ob)) mod total_size r"
      using RemoveBack_ok[of r ob q'] assms(1) Cons by auto
    have "back_pos r < total_size r" using assms(1) by (simp add: ring_rel_def)
    with r' show ?thesis using handles_of_mod[of "total_size r" "back_pos r + length (tagged ob)" q']
      unfolding assms(2) Cons by (simp add: ring_step_def ring_spec_def RPop)
  qed
qed

text \<open>
  C9.  The ring buffer is a queue: from a new buffer, after every sequence of \<open>PushFront\<close> and \<open>RemoveBack\<close>
  (the latter on a non-empty buffer) the objects are those of a queue that takes an object exactly if
  it fits together with its tag, \<open>RemoveBack\<close> removes the oldest one, and every handle still gives the
  size, the bytes and the slices of its object, however the area wraps around.
\<close>

theorem ring_history:
  assumes "8 \<le> n" "n < 2 ^ 63" "\<forall>ob. RPush ob \<in> set ops \<longrightarrow> length ob < 2 ^ 64 - 8"
  shows "\<exists>r0 r hs. RingBuffer_new n = Some r0 \<and> fold_opt ring_step ops (r0, []) = Some (r, hs) \<and>
    list_all2 (object_at r) hs (fold (ring_spec n) ops []) \<and>
    free_space r + sum_list (map (\<lambda>ob. 8 + length ob) (fold (ring_spec n) ops [])) = n"
proof -
  obtain r0 where r0: "RingBuffer_new n = Some r0" "ring_rel r0 []" "total_size r0 = n"
    using RingBuffer_new_rel[OF assms(1,2)] by blast
  have "\<exists>r. fold_opt ring_step ops (r1, handles_of n (back_pos r1) q) = Some (r, handles_of n (back_pos r) (fold (ring_spec n) ops q)) \<and>
      ring_rel r (fold (ring_spec n) ops q) \<and> total_size r = n" if "ring_rel r1 q" "total_size r1 = n" for r1 q
    using assms(3) that
  proof (induction ops arbitrary: r1 q)
    case (Cons op ops)
    obtain r2 where r2: "ring_step op (r1, handles_of n (back_pos r1) q) = Some (r2, handles_of n (back_pos r2) (ring_spec n op q))"
        "ring_rel r2 (ring_spec n op q)" "total_size r2 = n"
      using ring_step_ok[OF Cons.prems(2), of "handles_of n (back_pos r1) q" op] Cons.prems(1,3) by auto
    have "\<forall>ob. RPush ob \<in> set ops \<longrightarrow> length ob < 2 ^ 64 - 8" using Cons.prems(1) by simp
    from Cons.IH[OF this r2(2,3)] r2(1) show ?case by simp
  qed simp
  from this[OF r0(2,3)] obtain r where r: "fold_opt ring_step ops (r0, []) = Some (r, handles_of n (back_pos r) (fold (ring_spec n) ops []))"
      "ring_rel r (fold (ring_spec n) ops [])" "total_size r = n" by auto
  show ?thesis using r0(1) r handles_objects[OF r(2)] ring_rel_free[OF r(2)] by (auto simp: area_length)
qed

theorem ring_history_witness:
  "\<exists>r0 r hs. RingBuffer_new 24 = Some r0 \<and> fold_opt ring_step [RPush [1, 2], RPush [3, 4, 5], RPop, RPush [6]] (r0, []) = Some (r, hs) \<and>
    list_all2 (object_at r) hs [[3, 4, 5], [6]] \<and> free_space r + 20 = 24"
  using ring_history[of 24 "[RPush [1, 2], RPush [3, 4, 5], RPop, RPush [6]]"]
  by (simp add: ring_spec_def)

lemma demo_tag: "le_bytes 8 (Suc (Suc (Suc (Suc 0)))) = [4, 0, 0, 0, 0, 0, 0, 0]"
proof -
  have "8 = Suc (Suc (Suc (Suc (Suc (Suc (Suc (Suc 0)))))))" by simp
  then show ?thesis by (simp only: le_bytes.simps) simp
qed

definition demo_ring :: "nat \<Rightarrow> nat \<Rightarrow> nat \<Rightarrow> bytes \<Rightarrow> ring" where
  "demo_ring free front back_at bs = \<lparr>total_size = 24, free_space = free, front_pos = front, back_pos = back_at, buffer = bs\<rparr>"

lemma demo_ring_pushes:
  "fold_opt ring_step [RPush [1, 2, 3, 4], RPush [5, 6, 7, 8]] (demo_ring 24 0 0 (replicate 24 0), []) =
    Some (demo_ring 0 0 0 [4, 0, 0, 0, 0, 0, 0, 0, 1, 2, 3, 4, 4, 0, 0, 0, 0, 0, 0, 0, 5, 6, 7, 8], [0, 12])"
  by (simp add: demo_ring_def ring_step_def PushFront_def ring_Put_def size_of_size_t_def demo_tag mem_write_def u64_def kInvalidObjectHandle_def)

lemma demo_ring_pops:
  "fold_opt ring_step [RPop, RPop] (demo_ring 0 0 0 [4, 0, 0, 0, 0, 0, 0, 0, 1, 2, 3, 4, 4, 0, 0, 0, 0, 0, 0, 0, 5, 6, 7, 8], [0, 12]) =
    Some (demo_ring 24 0 0 [4, 0, 0, 0, 0, 0, 0, 0, 1, 2, 3, 4, 4, 0, 0, 0, 0, 0, 0, 0, 5, 6, 7, 8], [])"
  by (simp add: demo_ring_def ring_step_def RemoveBack_def GetObjectSize_def ring_Get_def ring_Shrink_def size_of_size_t_def mem_read_def u64_def)

text \<open>
  C40.  \<open>RemoveBack\<close> on an empty buffer, new or emptied, never returns \<open>kInvalidObjectHandle\<close>, as its documentation says.
  It reads the eight unused bytes at the back as a size tag.  If their value is at most the size of the area, it
  returns the back position as a handle, moves the back and sets \<open>free_space\<close>, in 64 bits, to the size of the area plus
  the tag and its eight bytes; otherwise an assertion fails.
\<close>

theorem ring_remove_empty:
  assumes "ring_rel r []"
  shows "back_pos r \<noteq> kInvalidObjectHandle \<and>
    RemoveBack r = (let tag = le_value (take 8 (rotate (back_pos r) (buffer r))) in
      if tag \<le> total_size r
      then Some (back_pos r, r\<lparr>back_pos := (back_pos r + 8 + tag) mod total_size r, free_space := u64 (total_size r + 8 + tag)\<rparr>)
      else None)"
proof -
  have R: "length (buffer r) = total_size r" "back_pos r < total_size r" "total_size r < 2 ^ 63" "8 \<le> total_size r"
    "free_space r = total_size r" using assms ring_rel_free[OF assms] by (auto simp: ring_rel_def)
  have g: "ring_Get (back_pos r) 8 r = Some (take 8 (rotate (back_pos r) (buffer r)))" using ring_Get_rotate[OF R(1,2,4)] .
  show ?thesis using R(2-5) g
    by (auto simp: RemoveBack_def GetObjectSize_def ring_Shrink_def size_of_size_t_def kInvalidObjectHandle_def Let_def
        assert_that_def mod_simps)
qed

theorem ring_remove_empty_witness:
  "\<exists>r0 r r'. RingBuffer_new 24 = Some r0 \<and>
    fold_opt ring_step [RPush [1, 2, 3, 4], RPush [5, 6, 7, 8], RPop, RPop] (r0, []) = Some (r, []) \<and>
    RemoveBack r = Some (0, r') \<and> free_space r' = 36"
proof -
  let ?new = "demo_ring 24 0 0 (replicate 24 0)"
  let ?old = "demo_ring 24 0 0 [4, 0, 0, 0, 0, 0, 0, 0, 1, 2, 3, 4, 4, 0, 0, 0, 0, 0, 0, 0, 5, 6, 7, 8]"
  have "RingBuffer_new 24 = Some ?new" by (simp add: RingBuffer_new_def size_of_size_t_def demo_ring_def)
  moreover have "fold_opt ring_step ([RPush [1, 2, 3, 4], RPush [5, 6, 7, 8]] @ [RPop, RPop]) (?new, []) = Some (?old, [])"
    by (simp only: fold_opt_append demo_ring_pushes demo_ring_pops Option.bind.bind_lunit)
  moreover have "ring_rel ?old []" by (simp add: ring_rel_def demo_ring_def)
  from ring_remove_empty[OF this] have "\<exists>r'. RemoveBack ?old = Some (0, r') \<and> free_space r' = 36" by (simp add: demo_ring_def u64_def)
  ultimately show ?thesis by (simp only: append.simps) blast
qed

end
