(* ===== verification/Streaming.thy ===== *)
theory Streaming
  imports RamProps SmallHashDyn Ring
begin

text \<open>
  The streaming cache manager, \<^verbatim>\<open>cvmfs/cache_stream.cc\<close> and \<^verbatim>\<open>cvmfs/cache_stream.h\<close>: objects that the backing cache manager does
  not have are downloaded when they are read; recently streamed objects are kept in a ring buffer,
  found through a hash table from digests to handles.

  The backing cache manager is the in-memory one.  The download managers are parameters: a request
  makes a sequence of calls on the sink, takes some time and succeeds or fails; it may depend on how many
  requests came before.  \<open>fresh\<close> gives the contents of newly allocated memory.  The locks are left out, and so is the
  identity of the calling process, which only the download manager uses.
\<close>

section \<open>The sink\<close>

text \<open>
  \<open>StreamingSink\<close>: \<open>window_buf\<close> is the memory of the caller from its first byte on, \<open>sink_object\<close> the memory for the
  complete object; both may be null.
\<close>

record streaming_sink =
  sink_pos :: nat
  window_buf :: "bytes option"
  window_size :: nat
  window_offset :: nat
  sink_object :: "bytes option"

definition StreamingSink_new :: "bytes option \<Rightarrow> nat \<Rightarrow> nat \<Rightarrow> bytes option \<Rightarrow> streaming_sink" where
  "StreamingSink_new buf sz offset ob =
     \<lparr>sink_pos = 0, window_buf = buf, window_size = sz, window_offset = offset, sink_object = ob\<rparr>"

definition sink_Write :: "bytes \<Rightarrow> streaming_sink \<Rightarrow> (int \<times> streaming_sink) option" where
  "sink_Write buf s = do {
     let sz = length buf;
     s \<leftarrow> (case sink_object s of None \<Rightarrow> Some s
       | Some ob \<Rightarrow> do { ob \<leftarrow> mem_write ob (sink_pos s) buf; Some (s\<lparr>sink_object := Some ob\<rparr>) });
     let old_pos = sink_pos s;
     let s = s\<lparr>sink_pos := u64 (sink_pos s + sz)\<rparr>;
     (case window_buf s of None \<Rightarrow> Some (s64 sz, s)
      | Some w \<Rightarrow>
        if sink_pos s < window_offset s then Some (s64 sz, s)
        else if old_pos \<ge> u64 (window_offset s + window_size s) then Some (s64 sz, s)
        else do {
          let copy_offset = max old_pos (window_offset s);
          let inbuf_offset = copy_offset - old_pos;
          let outbuf_offset = copy_offset - window_offset s;
          let copy_size = min (sz - inbuf_offset) (window_size s - outbuf_offset);
          data \<leftarrow> mem_read buf inbuf_offset copy_size;
          w \<leftarrow> mem_write w outbuf_offset data;
          Some (s64 sz, s\<lparr>window_buf := Some w\<rparr>)
        })
   }"

definition sink_Reset :: "streaming_sink \<Rightarrow> int \<times> streaming_sink" where
  "sink_Reset s = (0, s\<lparr>sink_pos := 0\<rparr>)"

definition sink_Purge :: "streaming_sink \<Rightarrow> int \<times> streaming_sink" where
  "sink_Purge s = sink_Reset s"

definition sink_IsValid :: "streaming_sink \<Rightarrow> bool" where
  "sink_IsValid s \<longleftrightarrow> window_buf s \<noteq> None \<or> window_size s = 0"

definition GetNBytesStreamed :: "streaming_sink \<Rightarrow> int" where
  "GetNBytesStreamed s = s64 (sink_pos s)"

text \<open>The calls of a download manager on the sink.\<close>

datatype sink_call = SinkWrite bytes | SinkReset | SinkPurge

definition sink_step :: "sink_call \<Rightarrow> streaming_sink \<Rightarrow> streaming_sink option" where
  "sink_step call s = (case call of SinkWrite buf \<Rightarrow> map_option snd (sink_Write buf s)
     | SinkReset \<Rightarrow> Some (snd (sink_Reset s)) | SinkPurge \<Rightarrow> Some (snd (sink_Purge s)))"

section \<open>The cache manager\<close>

record download_job =
  job_url :: string
  job_zipped :: bool
  job_hash :: digest
  job_path :: string
  job_range_offset :: int
  job_range_size :: int

record download_result =
  dl_calls :: "sink_call list"
  dl_ok :: bool
  dl_ns :: nat

type_synonym download_mgr = "nat \<Rightarrow> download_job \<Rightarrow> download_result"

datatype stream_counter = S_transferred_bytes | S_transfer_ms | S_downloads | S_buffer_hits | S_buffer_evicts | S_buffer_objects
  | S_buffer_obstacles

definition stream_counters_new :: "stream_counter \<Rightarrow> int" where
  "stream_counters_new = (\<lambda>_. 0)"

record fd_info =
  fd_in_cache_mgr :: int
  info_object :: digest
  info_label :: label

definition FdInfo_new :: fd_info where
  "FdInfo_new = \<lparr>fd_in_cache_mgr = - 1, info_object = Any_new kAny kSuffixNone, info_label = Label_new\<rparr>"

definition FdInfo_fd :: "int \<Rightarrow> fd_info" where
  "FdInfo_fd fd = FdInfo_new\<lparr>fd_in_cache_mgr := fd\<rparr>"

definition FdInfo_object :: "labeled_object \<Rightarrow> fd_info" where
  "FdInfo_object object = \<lparr>fd_in_cache_mgr = - 1, info_object = object_id object, info_label = object_label object\<rparr>"

definition fd_info_equal :: "fd_info \<Rightarrow> fd_info \<Rightarrow> bool" where
  "fd_info_equal i j \<longleftrightarrow> fd_in_cache_mgr i = fd_in_cache_mgr j \<and> any_key (info_object i) = any_key (info_object j)"

definition fd_info_IsValid :: "fd_info \<Rightarrow> bool" where
  "fd_info_IsValid i \<longleftrightarrow> fd_in_cache_mgr i \<ge> 0 \<or> \<not> IsNull (info_object i)"

record stream_cache =
  backing :: ram_cache
  regular_download_mgr :: download_mgr
  external_download_mgr :: download_mgr
  stream_fds :: "fd_info fd_table"
  stream_ring :: ring
  buffered_objects :: "(digest, nat) smallhash_dyn"
  stream_counters :: "stream_counter \<Rightarrow> int"

definition Xadd :: "stream_counter \<Rightarrow> int \<Rightarrow> stream_cache \<Rightarrow> stream_cache" where
  "Xadd n d c = c\<lparr>stream_counters := (stream_counters c)(n := stream_counters c n + d)\<rparr>"

definition StreamingCacheManager_new ::
  "(digest, nat) tparams \<Rightarrow> prng \<Rightarrow> nat \<Rightarrow> ram_cache \<Rightarrow> download_mgr \<Rightarrow> download_mgr \<Rightarrow> nat \<Rightarrow> stream_cache option" where
  "StreamingCacheManager_new tp p max_open_fds cache_mgr regular external buffer_size = do {
     t \<leftarrow> FdTable_new fd_info_equal max_open_fds FdInfo_new;
     r \<leftarrow> RingBuffer_new buffer_size;
     h \<leftarrow> dyn_Init tp 16 (Any_new kAny kSuffixNone) hasher_any p;
     Some \<lparr>backing = cache_mgr, regular_download_mgr = regular, external_download_mgr = external, stream_fds = t,
           stream_ring = r, buffered_objects = h, stream_counters = stream_counters_new\<rparr>
   }"

definition SetRegularDownloadManager :: "download_mgr \<Rightarrow> stream_cache \<Rightarrow> stream_cache" where
  "SetRegularDownloadManager mgr c = c\<lparr>regular_download_mgr := mgr\<rparr>"

definition SetExternalDownloadManager :: "download_mgr \<Rightarrow> stream_cache \<Rightarrow> stream_cache" where
  "SetExternalDownloadManager mgr c = c\<lparr>external_download_mgr := mgr\<rparr>"

definition SelectDownloadManager :: "fd_info \<Rightarrow> stream_cache \<Rightarrow> download_mgr" where
  "SelectDownloadManager info c =
     (if has_flag (label_flags (info_label info)) kLabelExternal then external_download_mgr c else regular_download_mgr c)"

text \<open>
  The memory image of a digest (\<^verbatim>\<open>struct Digest\<close>): 20 bytes of digest, the algorithm as a 4-byte enumeration, the
  suffix, and padding to a multiple of four.  Bytes that no operation reads are zero here.
\<close>

definition sizeof_Any :: nat where
  "sizeof_Any = 28"

definition any_image :: "digest \<Rightarrow> bytes" where
  "any_image d = take 20 (bytes d @ replicate 20 0) @ le_bytes 4 (alg_index (algorithm d)) @ [of_char (suffix d), 0, 0, 0]"

definition any_of_image :: "bytes \<Rightarrow> digest" where
  "any_of_image bs = (let a = alg_of_index (le_value (take 4 (drop 20 bs)))
     in \<lparr>bytes = take (digest_size a) bs, algorithm = a, suffix = char_of (bs ! 24)\<rparr>)"

definition kZlibDefault :: nat where
  "kZlibDefault = 0"

text \<open>\<open>Stream\<close>, first part: the object is in the buffer.\<close>

definition stream_hit :: "nat \<Rightarrow> bytes option \<Rightarrow> nat \<Rightarrow> nat \<Rightarrow> stream_cache \<Rightarrow> (int \<times> bytes option \<times> stream_cache) option" where
  "stream_hit hnd buf sz offset c = do {
     let c = Xadd S_buffer_hits 1 c;
     data \<leftarrow> CopySlice hnd sz (u64 (offset + sizeof_Any)) (stream_ring c);
     buf \<leftarrow> (case buf of Some w \<Rightarrow> do { w \<leftarrow> mem_write w 0 data; Some (Some w) }
               | None \<Rightarrow> if data = [] then Some None else None);
     n \<leftarrow> GetObjectSize hnd (stream_ring c);
     Some (s64 (u64 (n + (2 ^ 64 - sizeof_Any))), buf, c)
   }"

text \<open>Second part: the memory for the object (its size with the digest, or \<open>None\<close>), and the download job.\<close>

definition stream_alloc :: "fd_info \<Rightarrow> stream_cache \<Rightarrow> nat option \<times> stream_cache" where
  "stream_alloc info c = (let n = label_size (info_label info) in
     if n \<noteq> kSizeUnknown \<and> u64 (n + sizeof_Any) \<le> GetMaxObjectSize (stream_ring c)
     then (Some (u64 (sizeof_Any + n)), c) else (None, Xadd S_buffer_obstacles 1 c))"

definition stream_job :: "fd_info \<Rightarrow> download_job option" where
  "stream_job info = (let l = info_label info in do {
     url \<leftarrow> (if has_flag (label_flags l) kLabelExternal then Some (label_path l)
             else do { p \<leftarrow> MakePath (info_object info); Some (''/data/'' @ p) });
     Some \<lparr>job_url = url, job_zipped = (zip_algorithm l = kZlibDefault), job_hash = info_object info, job_path = label_path l,
           job_range_offset = range_offset l, job_range_size = s64 (label_size l)\<rparr>
   })"

text \<open>
  Third part: old objects are removed until there is space, then the object is stored.  The object is the digest
  followed by the body that the sink has filled; \<open>Stream\<close> asserts that both fit the memory that was allocated.
\<close>

partial_function (option) evict_loop :: "nat \<Rightarrow> stream_cache \<Rightarrow> stream_cache option" where
  "evict_loop nbytes c =
     (if ring_HasSpaceFor nbytes (stream_ring c) then Some c
      else Option.bind (RemoveBack (stream_ring c)) (\<lambda>(deleted_handle, r).
           Option.bind (CopySlice deleted_handle sizeof_Any 0 r) (\<lambda>deleted.
           Option.bind (dyn_Erase (any_key (any_of_image deleted)) (buffered_objects c)) (\<lambda>(_, h).
             evict_loop nbytes (Xadd S_buffer_objects (- 1) (Xadd S_buffer_evicts 1 (c\<lparr>stream_ring := r, buffered_objects := h\<rparr>)))))))"

definition stream_store :: "fd_info \<Rightarrow> bytes \<Rightarrow> stream_cache \<Rightarrow> stream_cache option" where
  "stream_store info object c = do {
     c \<leftarrow> evict_loop (length object) c;
     (hnd, r) \<leftarrow> PushFront object (stream_ring c);
     h \<leftarrow> dyn_Insert (any_key (info_object info)) hnd (buffered_objects c);
     Some (Xadd S_buffer_objects 1 (c\<lparr>stream_ring := r, buffered_objects := h\<rparr>))
   }"

definition Stream ::
  "(nat \<Rightarrow> nat) \<Rightarrow> fd_info \<Rightarrow> bytes option \<Rightarrow> nat \<Rightarrow> nat \<Rightarrow> stream_cache \<Rightarrow> (int \<times> bytes option \<times> stream_cache) option" where
  "Stream fresh info buf sz offset c = do {
     found \<leftarrow> hash_lookup (any_key (info_object info)) (buffered_objects c);
     (case found of Some hnd \<Rightarrow> stream_hit hnd buf sz offset c
      | None \<Rightarrow> do {
          let (nbytes_in_buffer, c) = stream_alloc info c;
          let sink = StreamingSink_new buf sz offset (map_option (\<lambda>n. map fresh [sizeof_Any..<n]) nbytes_in_buffer);
          job \<leftarrow> stream_job info;
          let result = SelectDownloadManager info c (nat (stream_counters c S_downloads)) job;
          sink \<leftarrow> fold_opt sink_step (dl_calls result) sink;
          let c = Xadd S_transfer_ms (int (dl_ns result div (1000 * 1000))) c;
          let c = Xadd S_transferred_bytes (GetNBytesStreamed sink) (Xadd S_downloads 1 c);
          if \<not> dl_ok result then Some (- EIO, window_buf sink, c)
          else do {
            c \<leftarrow> (case sink_object sink of None \<Rightarrow> Some c
                   | Some body \<Rightarrow> do {
                       assert_that (nbytes_in_buffer = Some (sizeof_Any + length body));
                       stream_store info (any_image (info_object info) @ body) c
                     });
            Some (GetNBytesStreamed sink, window_buf sink, c)
          }
        })
   }"

definition stream_Open :: "labeled_object \<Rightarrow> stream_cache \<Rightarrow> (int \<times> stream_cache) option" where
  "stream_Open object c = do {
     (fd, b) \<leftarrow> ram_Open object (backing c);
     let c = c\<lparr>backing := b\<rparr>;
     let flags = label_flags (object_label object);
     if fd \<ge> 0 then do {
       (r, t) \<leftarrow> OpenFd (FdInfo_fd fd) (stream_fds c);
       Some (r, c\<lparr>stream_fds := t\<rparr>)
     }
     else if fd \<noteq> - ENOENT then Some (fd, c)
     else if has_flag flags kLabelCatalog \<or> has_flag flags kLabelPinned \<or> has_flag flags kLabelCertificate then Some (- ENOENT, c)
     else do {
       (r, t) \<leftarrow> OpenFd (FdInfo_object object) (stream_fds c);
       Some (r, c\<lparr>stream_fds := t\<rparr>)
     }
   }"

definition PlantFd :: "int \<Rightarrow> stream_cache \<Rightarrow> (int \<times> stream_cache) option" where
  "PlantFd fd c = do {
     (r, t) \<leftarrow> OpenFd (FdInfo_fd fd) (stream_fds c);
     Some (r, c\<lparr>stream_fds := t\<rparr>)
   }"

definition stream_GetSize :: "(nat \<Rightarrow> nat) \<Rightarrow> int \<Rightarrow> stream_cache \<Rightarrow> (int \<times> stream_cache) option" where
  "stream_GetSize fresh fd c = (let info = GetHandle fd (stream_fds c) in
     if \<not> fd_info_IsValid info then Some (- EBADF, c)
     else if fd_in_cache_mgr info \<ge> 0 then do {
       (r, b) \<leftarrow> ram_GetSize (fd_in_cache_mgr info) (backing c);
       Some (r, c\<lparr>backing := b\<rparr>)
     }
     else do {
       (r, _, c) \<leftarrow> Stream fresh info None 0 0 c;
       Some (r, c)
     })"

definition stream_Dup :: "int \<Rightarrow> stream_cache \<Rightarrow> (int \<times> stream_cache) option" where
  "stream_Dup fd c = (let info = GetHandle fd (stream_fds c) in
     if \<not> fd_info_IsValid info then Some (- EBADF, c)
     else if fd_in_cache_mgr info \<ge> 0 then do {
       (dup_fd, b) \<leftarrow> ram_Dup (fd_in_cache_mgr info) (backing c);
       let c = c\<lparr>backing := b\<rparr>;
       if dup_fd < 0 then Some (dup_fd, c)
       else do {
         (r, t) \<leftarrow> OpenFd (FdInfo_fd dup_fd) (stream_fds c);
         Some (r, c\<lparr>stream_fds := t\<rparr>)
       }
     }
     else do {
       (r, t) \<leftarrow> OpenFd (FdInfo_object \<lparr>object_id = info_object info, object_label = info_label info\<rparr>) (stream_fds c);
       Some (r, c\<lparr>stream_fds := t\<rparr>)
     })"

definition stream_Close :: "int \<Rightarrow> stream_cache \<Rightarrow> (int \<times> stream_cache) option" where
  "stream_Close fd c = (let info = GetHandle fd (stream_fds c) in
     if \<not> fd_info_IsValid info then Some (- EBADF, c)
     else do {
       (_, t) \<leftarrow> CloseFd fd (stream_fds c);
       let c = c\<lparr>stream_fds := t\<rparr>;
       if fd_in_cache_mgr info \<ge> 0 then do {
         (r, b) \<leftarrow> ram_Close (fd_in_cache_mgr info) (backing c);
         Some (r, c\<lparr>backing := b\<rparr>)
       } else Some (0, c)
     })"

text \<open>\<open>Pread\<close> into the memory \<open>buf\<close>: the result and the memory.\<close>

definition stream_Pread :: "(nat \<Rightarrow> nat) \<Rightarrow> int \<Rightarrow> bytes \<Rightarrow> nat \<Rightarrow> nat \<Rightarrow> stream_cache \<Rightarrow> (int \<times> bytes option \<times> stream_cache) option" where
  "stream_Pread fresh fd buf sz offset c = (let info = GetHandle fd (stream_fds c) in
     if \<not> fd_info_IsValid info then Some (- EBADF, Some buf, c)
     else if fd_in_cache_mgr info \<ge> 0 then do {
       (r, xs, b) \<leftarrow> ram_Pread (fd_in_cache_mgr info) sz offset (backing c);
       buf \<leftarrow> mem_write buf 0 xs;
       Some (r, Some buf, c\<lparr>backing := b\<rparr>)
     }
     else do {
       (nbytes_streamed, buf, c) \<leftarrow> Stream fresh info (Some buf) sz offset c;
       if nbytes_streamed < 0 then Some (nbytes_streamed, buf, c)
       else if nat nbytes_streamed < offset then Some (0, buf, c)
       else if nat nbytes_streamed > u64 (offset + sz) then Some (s64 sz, buf, c)
       else Some (nbytes_streamed - int offset, buf, c)
     })"

definition stream_Readahead :: "int \<Rightarrow> stream_cache \<Rightarrow> int \<times> stream_cache" where
  "stream_Readahead fd c = (let info = GetHandle fd (stream_fds c) in
     if \<not> fd_info_IsValid info then (- EBADF, c)
     else if fd_in_cache_mgr info \<ge> 0 then
       (case Readahead (fd_in_cache_mgr info) (backing c) of (r, b) \<Rightarrow> (r, c\<lparr>backing := b\<rparr>))
     else (0, c))"

definition stream_OpenFromTxn :: "transaction \<Rightarrow> stream_cache \<Rightarrow> (int \<times> transaction \<times> stream_cache) option" where
  "stream_OpenFromTxn txn c = do {
     (fd, txn, b) \<leftarrow> OpenFromTxn txn (backing c);
     let c = c\<lparr>backing := b\<rparr>;
     if fd < 0 then Some (fd, txn, c)
     else do {
       (r, t) \<leftarrow> OpenFd (FdInfo_fd fd) (stream_fds c);
       Some (r, txn, c\<lparr>stream_fds := t\<rparr>)
     }
   }"

text \<open>Transactions are those of the backing cache manager.\<close>

definition stream_StartTxn :: "heap_env \<Rightarrow> digest \<Rightarrow> nat \<Rightarrow> stream_cache \<Rightarrow> int \<times> transaction \<times> stream_cache" where
  "stream_StartTxn env oid sz c = (case StartTxn env oid sz (backing c) of (r, txn, b) \<Rightarrow> (r, txn, c\<lparr>backing := b\<rparr>))"

definition stream_Write ::
  "heap_env \<Rightarrow> bytes option \<Rightarrow> nat \<Rightarrow> transaction \<Rightarrow> stream_cache \<Rightarrow> (int \<times> transaction \<times> stream_cache) option" where
  "stream_Write env buf sz txn c = do {
     (r, txn, b) \<leftarrow> ram_Write env buf sz txn (backing c);
     Some (r, txn, c\<lparr>backing := b\<rparr>)
   }"

definition stream_Reset :: "transaction \<Rightarrow> stream_cache \<Rightarrow> int \<times> transaction \<times> stream_cache" where
  "stream_Reset txn c = (case ram_Reset txn (backing c) of (r, txn, b) \<Rightarrow> (r, txn, c\<lparr>backing := b\<rparr>))"

definition stream_AbortTxn :: "transaction \<Rightarrow> stream_cache \<Rightarrow> int \<times> transaction \<times> stream_cache" where
  "stream_AbortTxn txn c = (case AbortTxn txn (backing c) of (r, txn, b) \<Rightarrow> (r, txn, c\<lparr>backing := b\<rparr>))"

definition stream_CommitTxn :: "transaction \<Rightarrow> stream_cache \<Rightarrow> (int \<times> transaction \<times> stream_cache) option" where
  "stream_CommitTxn txn c = do {
     (r, txn, b) \<leftarrow> CommitTxn txn (backing c);
     Some (r, txn, c\<lparr>backing := b\<rparr>)
   }"

definition MoveOutBackingCacheMgr :: "stream_cache \<Rightarrow> int \<times> ram_cache" where
  "MoveOutBackingCacheMgr c = (fd_in_cache_mgr (GetHandle 0 (stream_fds c)), backing c)"

section \<open>What the sink receives\<close>

fun written :: "bytes \<Rightarrow> sink_call list \<Rightarrow> bytes" where
  "written x [] = x"
| "written x (SinkWrite buf # calls) = written (x @ buf) calls"
| "written x (_ # calls) = written [] calls"

text \<open>
  The bytes of \<open>x\<close> from \<open>offset\<close> on are in the first \<open>sz\<close> bytes of the caller's memory, which is otherwise the size it was.
\<close>

definition window_has :: "bytes \<Rightarrow> nat \<Rightarrow> nat \<Rightarrow> bytes option \<Rightarrow> bytes option \<Rightarrow> bool" where
  "window_has x offset sz buf buf' \<longleftrightarrow> (case (buf, buf') of
       (None, None) \<Rightarrow> True
     | (Some w, Some w') \<Rightarrow> length w' = length w \<and> (\<forall>i < sz. offset + i < length x \<longrightarrow> w' ! i = x ! (offset + i))
     | _ \<Rightarrow> False)"

definition window_ok :: "nat \<Rightarrow> nat \<Rightarrow> bytes option \<Rightarrow> bool" where
  "window_ok offset sz buf \<longleftrightarrow> offset + sz < 2 ^ 62 \<and> (case buf of None \<Rightarrow> sz = 0 | Some w \<Rightarrow> sz \<le> length w)"

definition sink_rel :: "nat \<Rightarrow> nat \<Rightarrow> bytes option \<Rightarrow> nat option \<Rightarrow> streaming_sink \<Rightarrow> bytes \<Rightarrow> bool" where
  "sink_rel offset sz buf n s x \<longleftrightarrow> window_ok offset sz buf \<and> sink_pos s = length x \<and> length x < 2 ^ 63 \<and>
     window_size s = sz \<and> window_offset s = offset \<and> window_has x offset sz buf (window_buf s) \<and>
     (case (n, sink_object s) of (None, None) \<Rightarrow> True
      | (Some n, Some ob) \<Rightarrow> length ob = n \<and> length x \<le> n \<and> take (length x) ob = x
      | _ \<Rightarrow> False)"

lemma window_copy:
  assumes w: "length w' = length w" "\<forall>i < sz. offset + i < length x \<longrightarrow> w' ! i = x ! (offset + i)" and sz: "sz \<le> length w"
    and pos: "offset \<le> length x + length buf" "length x < offset + sz"
  defines "co \<equiv> max (length x) offset"
  defines "cs \<equiv> min (length buf - (co - length x)) (sz - (co - offset))"
  shows "\<exists>data w''. mem_read buf (co - length x) cs = Some data \<and> mem_write w' (co - offset) data = Some w'' \<and>
    length w'' = length w \<and> (\<forall>i < sz. offset + i < length (x @ buf) \<longrightarrow> w'' ! i = (x @ buf) ! (offset + i))"
proof -
  let ?data = "take cs (drop (co - length x) buf)"
  have r: "co - length x + cs \<le> length buf" using pos by (auto simp: co_def cs_def)
  have l: "length ?data = cs" using r by simp
  have o: "co - offset + cs \<le> length w'" using pos w(1) sz by (auto simp: co_def cs_def)
  define w'' where "w'' = take (co - offset) w' @ ?data @ drop (co - offset + cs) w'"
  have lw: "length w'' = length w" using o w(1) l by (simp add: w''_def)
  have "w'' ! i = (x @ buf) ! (offset + i)" if i: "i < sz" "offset + i < length (x @ buf)" for i
  proof (cases "offset + i < length x")
    case True
    then have "i < co - offset" by (auto simp: co_def)
    then show ?thesis using w(2) i True o by (simp add: w''_def nth_append)
  next
    case False
    then have a: "co - offset \<le> i" "i - (co - offset) < cs" using i by (auto simp: co_def cs_def)
    then have "w'' ! i = ?data ! (i - (co - offset))" using l o by (simp add: w''_def nth_append)
    also have "\<dots> = buf ! (co - length x + (i - (co - offset)))" using a(2) r by simp
    also have "co - length x + (i - (co - offset)) = offset + i - length x" using a(1) False by (auto simp: co_def)
    finally show ?thesis using False by (simp add: nth_append)
  qed
  moreover have "mem_read buf (co - length x) cs = Some ?data" using r by (simp add: mem_read_def)
  moreover have "mem_write w' (co - offset) ?data = Some w''" using o l by (simp add: mem_write_def w''_def)
  ultimately show ?thesis using lw by blast
qed

lemma sink_Write_ok:
  assumes "sink_rel offset sz buf n s x" "length (x @ d) < 2 ^ 63" "\<forall>m. n = Some m \<longrightarrow> length (x @ d) \<le> m"
  shows "\<exists>s'. sink_Write d s = Some (int (length d), s') \<and> sink_rel offset sz buf n s' (x @ d)"
proof -
  have R: "window_ok offset sz buf" "sink_pos s = length x" "window_size s = sz" "window_offset s = offset"
      "window_has x offset sz buf (window_buf s)" using assms(1) by (simp_all add: sink_rel_def)
  have len: "u64 (length x + length d) = length x + length d" "s64 (length d) = int (length d)" "u64 (offset + sz) = offset + sz"
    using assms(2) R(1) by (simp_all add: s64_def window_ok_def)
  obtain s1 where s1: "(case sink_object s of None \<Rightarrow> Some s
       | Some ob \<Rightarrow> do { ob \<leftarrow> mem_write ob (sink_pos s) d; Some (s\<lparr>sink_object := Some ob\<rparr>) }) = Some s1"
     "window_buf s1 = window_buf s \<and> window_size s1 = window_size s \<and> window_offset s1 = window_offset s \<and> sink_pos s1 = sink_pos s"
     "case (n, sink_object s1) of (None, None) \<Rightarrow> True | (Some n, Some ob) \<Rightarrow> length ob = n \<and> length (x @ d) \<le> n \<and> take (length (x @ d)) ob = x @ d
      | _ \<Rightarrow> False"
    using assms(1,3) R(2) by (cases n; cases "sink_object s")
      (auto simp: sink_rel_def mem_write_def take_add)
  let ?s = "s1\<lparr>sink_pos := length x + length d\<rparr>"
  have fr: "window_buf s1 = window_buf s" "window_size s1 = sz" "window_offset s1 = offset" "sink_pos s1 = length x"
    using s1(2) R by auto
  have rel: "sink_rel offset sz buf n (?s\<lparr>window_buf := b\<rparr>) (x @ d)" if "window_has (x @ d) offset sz buf b" for b
    using that s1(3) R assms(2) fr by (simp add: sink_rel_def)
  have same: "?s\<lparr>window_buf := window_buf s\<rparr> = ?s" using fr(1) by (cases s1) simp
  show ?thesis
  proof (cases "window_buf s")
    case None
    have "buf = None" using R(5) None by (auto simp: window_has_def split: option.splits)
    then have "sink_rel offset sz buf n ?s (x @ d)" using rel[of "window_buf s"] None unfolding same by (simp add: window_has_def)
    moreover have "sink_Write d s = Some (int (length d), ?s)" using s1(1) fr len None by (simp add: sink_Write_def Let_def)
    ultimately show ?thesis by blast
  next
    case (Some w')
    obtain w where w: "buf = Some w" "length w' = length w" "\<forall>i < sz. offset + i < length x \<longrightarrow> w' ! i = x ! (offset + i)"
      using R(5) Some by (auto simp: window_has_def split: option.splits)
    have sz: "sz \<le> length w" using R(1) w(1) by (simp add: window_ok_def)
    consider (out) "length x + length d < offset \<or> offset + sz \<le> length x" | (inside) "offset \<le> length x + length d" "length x < offset + sz"
      by linarith
    then show ?thesis
    proof cases
      case out
      then have "window_has (x @ d) offset sz buf (Some w')" using w by (auto simp: window_has_def nth_append)
      then have "sink_rel offset sz buf n ?s (x @ d)" using rel[of "window_buf s"] Some unfolding same by simp
      moreover have "sink_Write d s = Some (int (length d), ?s)" using s1(1) fr len Some out by (auto simp: sink_Write_def Let_def)
      ultimately show ?thesis by blast
    next
      case inside
      obtain data w'' where c: "mem_read d (max (length x) offset - length x)
            (min (length d - (max (length x) offset - length x)) (sz - (max (length x) offset - offset))) = Some data"
          "mem_write w' (max (length x) offset - offset) data = Some w''" "length w'' = length w"
          "\<forall>i < sz. offset + i < length (x @ d) \<longrightarrow> w'' ! i = (x @ d) ! (offset + i)"
        using window_copy[OF w(2,3) sz inside] by blast
      then have "sink_rel offset sz buf n (?s\<lparr>window_buf := Some w''\<rparr>) (x @ d)" by (intro rel) (simp add: window_has_def w(1))
      moreover have "sink_Write d s = Some (int (length d), ?s\<lparr>window_buf := Some w''\<rparr>)"
        using s1(1) fr len Some inside c(1,2) by (simp add: sink_Write_def Let_def)
      ultimately show ?thesis by blast
    qed
  qed
qed

lemma sink_Reset_ok:
  assumes "sink_rel offset sz buf n s x"
  shows "sink_rel offset sz buf n (snd (sink_Reset s)) []"
  using assms by (auto simp: sink_rel_def sink_Reset_def window_has_def split: option.splits)

text \<open>All attempts stay below \<open>m\<close> bytes.\<close>

definition calls_within :: "nat \<Rightarrow> bytes \<Rightarrow> sink_call list \<Rightarrow> bool" where
  "calls_within m x calls \<longleftrightarrow> (\<forall>k. length (written x (take k calls)) \<le> m)"

lemma calls_within_simps:
  "calls_within m x [] \<longleftrightarrow> length x \<le> m"
  "calls_within m x (call # calls) \<longleftrightarrow> length x \<le> m \<and> calls_within m (written x [call]) calls"
proof -
  have w: "written x (take (Suc k) (call # calls)) = written (written x [call]) (take k calls)" for k by (cases call) simp_all
  show "calls_within m x [] \<longleftrightarrow> length x \<le> m" by (simp add: calls_within_def)
  show "calls_within m x (call # calls) \<longleftrightarrow> length x \<le> m \<and> calls_within m (written x [call]) calls"
  proof
    assume a: "calls_within m x (call # calls)"
    have "length (written (written x [call]) (take k calls)) \<le> m" for k using a w[of k] unfolding calls_within_def by metis
    moreover have "length x \<le> m" using a unfolding calls_within_def by (metis take0 written.simps(1))
    ultimately show "length x \<le> m \<and> calls_within m (written x [call]) calls" unfolding calls_within_def by blast
  next
    assume a: "length x \<le> m \<and> calls_within m (written x [call]) calls"
    have "length (written x (take k (call # calls))) \<le> m" for k using a w by (cases k) (simp_all add: calls_within_def del: take_Suc_Cons)
    then show "calls_within m x (call # calls)" unfolding calls_within_def by blast
  qed
qed

lemma calls_within_first: "calls_within m x calls \<Longrightarrow> length x \<le> m"
  by (cases calls) (simp_all add: calls_within_simps)

lemma sink_run_ok:
  assumes "sink_rel offset sz buf n s x" "calls_within m x calls" "m < 2 ^ 63" "\<forall>k. n = Some k \<longrightarrow> m \<le> k"
  shows "\<exists>s'. fold_opt sink_step calls s = Some s' \<and> sink_rel offset sz buf n s' (written x calls)"
  using assms(1,2)
proof (induction calls arbitrary: s x)
  case (Cons call calls)
  have next_within: "calls_within m (written x [call]) calls" using Cons.prems(2) by (simp only: calls_within_simps)
  have "\<exists>s1. sink_step call s = Some s1 \<and> sink_rel offset sz buf n s1 (written x [call])"
  proof (cases call)
    case (SinkWrite d)
    have le: "length (x @ d) \<le> m" using calls_within_first[OF next_within] SinkWrite by simp
    then have "length (x @ d) < 2 ^ 63" "\<forall>k. n = Some k \<longrightarrow> length (x @ d) \<le> k" using assms(3,4) le_trans by fastforce+
    from sink_Write_ok[OF Cons.prems(1) this] show ?thesis by (auto simp: SinkWrite sink_step_def)
  qed (simp_all add: sink_step_def sink_Purge_def sink_Reset_ok[OF Cons.prems(1)])
  then obtain s1 where s1: "sink_step call s = Some s1" "sink_rel offset sz buf n s1 (written x [call])" by blast
  have "written (written x [call]) calls = written x (call # calls)" by (cases call) simp_all
  with Cons.IH[OF s1(2) next_within] s1(1) show ?case by simp
qed simp

text \<open>With memory for the object, an attempt that delivers more bytes than it holds writes behind its end.\<close>

lemma sink_Write_overflow:
  assumes "sink_rel offset sz buf (Some m) s x" "m < length (x @ d)"
  shows "sink_Write d s = None"
  using assms by (auto simp: sink_rel_def sink_Write_def mem_write_def Let_def split: option.splits)

lemma sink_run_overflow:
  assumes "sink_rel offset sz buf (Some m) s x" "\<not> calls_within m x calls" "m < 2 ^ 63"
  shows "fold_opt sink_step calls s = None"
  using assms(1,2)
proof (induction calls arbitrary: s x)
  case Nil
  then show ?case by (auto simp: sink_rel_def calls_within_simps split: option.splits)
next
  case (Cons call calls)
  have x: "length x \<le> m" using Cons.prems(1) by (auto simp: sink_rel_def split: option.splits)
  then have rest: "\<not> calls_within m (written x [call]) calls" using Cons.prems(2) by (simp only: calls_within_simps simp_thms)
  show ?case
  proof (cases call)
    case (SinkWrite d)
    show ?thesis
    proof (cases "m < length (x @ d)")
      case True
      then show ?thesis using sink_Write_overflow[OF Cons.prems(1)] by (simp add: SinkWrite sink_step_def)
    next
      case False
      then have "length (x @ d) < 2 ^ 63" "\<forall>k. Some m = Some k \<longrightarrow> length (x @ d) \<le> k" using assms(3) by simp_all
      from sink_Write_ok[OF Cons.prems(1) this] obtain s' where s': "sink_Write d s = Some (int (length d), s')" "sink_rel offset sz buf (Some m) s' (x @ d)"
        by blast
      then show ?thesis using Cons.IH[OF s'(2)] rest by (simp add: SinkWrite sink_step_def)
    qed
  qed (use Cons.IH[OF sink_Reset_ok[OF Cons.prems(1)]] rest in \<open>simp_all add: sink_step_def sink_Purge_def\<close>)
qed

end
