(* ===== verification/StreamProps.thy ===== *)
theory StreamProps
  imports Streaming
begin

text \<open>
  Properties of the streaming cache manager.  The state is related to the list of buffered
  objects (\<open>stream_rel\<close>): the ring buffer holds them with their digests, and the hash table maps exactly their digests
  to their handles.  So reads return the bytes of the object whether it is downloaded or found in the
  buffer, and whatever has been evicted before.
\<close>

section \<open>Digests in memory\<close>

lemma any_image_length [simp]: "length (any_image d) = 28"
  by (simp add: any_image_def)

lemma image_algorithm: "alg_of_index (alg_index a) = a"
  by (cases a) (simp_all add: alg_index_def alg_of_index_def)

lemma digest_size_cases: "digest_size a = (if a = kMd5 then 16 else 20)"
  by (cases a) (simp_all add: alg_index_def kDigestSizes_def)

lemma any_of_image:
  assumes "digest_ok d"
  shows "any_of_image (any_image d @ rest) = d"
proof -
  have n: "length (bytes d) = digest_size (algorithm d)" using assms by (simp add: digest_ok_def)
  have t: "take 4 (drop 20 (any_image d @ rest)) = le_bytes 4 (alg_index (algorithm d))" by (simp add: any_image_def)
  have "alg_index (algorithm d) < 256 ^ 4" by (cases "algorithm d") (simp_all add: alg_index_def)
  then have a: "alg_of_index (le_value (take 4 (drop 20 (any_image d @ rest)))) = algorithm d"
    unfolding t by (simp only: le_value_bytes image_algorithm)
  let ?p = "take 20 (bytes d @ replicate 20 0) @ le_bytes 4 (alg_index (algorithm d))"
  have "length ?p = 24" "any_image d @ rest = ?p @ of_char (suffix d) # [0, 0, 0] @ rest" by (simp_all add: any_image_def)
  then have s: "(any_image d @ rest) ! 24 = of_char (suffix d)" by (metis nth_append_length)
  have "take (digest_size (algorithm d)) (any_image d @ rest) = bytes d"
    using n by (simp add: any_image_def digest_size_cases split: if_splits)
  then show ?thesis unfolding any_of_image_def a s Let_def by simp
qed

section \<open>Reading beyond an object\<close>

lemma CopySlice_prefix:
  assumes "ring_rel r (p @ ob # q)" "h = (back_pos r + length (area p)) mod total_size r" "n \<le> total_size r" "off < 2 ^ 62 + 28"
  shows "\<exists>data. CopySlice h n off r = Some data \<and> length data = n \<and> (\<forall>i < n. off + i < length ob \<longrightarrow> data ! i = ob ! (off + i))"
proof -
  have R: "length (buffer r) = total_size r" "total_size r < 2 ^ 63" "8 \<le> total_size r" "h < total_size r"
    using assms by (auto simp: ring_rel_def)
  have u: "u64 (h + 8 + off) = h + 8 + off" using R(2,4) assms(4) by simp
  let ?rot = "rotate ((h + 8 + off) mod total_size r) (buffer r)"
  have g: "CopySlice h n off r = Some (take n ?rot)"
    using ring_Get_rotate[OF R(1), of "(h + 8 + off) mod total_size r" n] R(3) assms(3) u by (simp add: CopySlice_def size_of_size_t_def)
  have "take n ?rot ! i = ob ! (off + i)" if i: "i < n" "off + i < length ob" for i
  proof -
    have e: "CopySlice h (Suc i) off r = Some (take (Suc i) (drop off ob))" using CopySlice_at[OF assms(1,2), of off "Suc i"] i by simp
    have "CopySlice h (Suc i) off r = Some (take (Suc i) ?rot)"
      using ring_Get_rotate[OF R(1), of "(h + 8 + off) mod total_size r" "Suc i"] R(3) i(1) assms(3) u by (simp add: CopySlice_def size_of_size_t_def)
    with e have "take (Suc i) ?rot ! i = take (Suc i) (drop off ob) ! i" by simp
    then show ?thesis using i by simp
  qed
  with g show ?thesis using assms(3) R(1) by simp
qed

lemma RemoveBack_frame: "RemoveBack r = Some (h, r') \<Longrightarrow> buffer r' = buffer r \<and> total_size r' = total_size r"
  by (auto simp: RemoveBack_def ring_Shrink_def Let_def split: bind_splits)

lemma CopySlice_frame: "buffer r' = buffer r \<Longrightarrow> total_size r' = total_size r \<Longrightarrow> CopySlice h n off r' = CopySlice h n off r"
  by (simp add: CopySlice_def ring_Get_def Let_def)

section \<open>The buffered objects\<close>

text \<open>\<open>D\<close> gives the contents of the objects by digest.\<close>

definition stored_object :: "(digest \<Rightarrow> bytes) \<Rightarrow> digest \<Rightarrow> bytes" where
  "stored_object D d = any_image d @ D (any_key d)"

definition handles :: "(digest \<Rightarrow> bytes) \<Rightarrow> ring \<Rightarrow> digest list \<Rightarrow> nat list" where
  "handles D r q = handles_of (total_size r) (back_pos r) (map (stored_object D) q)"

definition stream_rel :: "(digest \<Rightarrow> bytes) \<Rightarrow> stream_cache \<Rightarrow> digest list \<Rightarrow> bool" where
  "stream_rel D c q \<longleftrightarrow> ring_rel (stream_ring c) (map (stored_object D) q) \<and> total_size (stream_ring c) \<le> 2 ^ 34 \<and>
     list_all kv_key_ok q \<and> distinct (map any_key q) \<and> dyn_inv (buffered_objects c) \<and> empty_key (buffered_objects c) = kv_null \<and>
     sh_abs (buffered_objects c) = map_of (zip (map any_key q) (handles D (stream_ring c) q))"

lemma handles_length [simp]: "length (handles D r q) = length q"
proof -
  have "length (handles_of n pos xs) = length xs" for n pos xs by (induction xs arbitrary: pos) auto
  then show ?thesis by (simp add: handles_def)
qed

lemma handles_nth:
  "i < length q \<Longrightarrow> handles D r q ! i = (back_pos r + length (area (map (stored_object D) (take i q)))) mod total_size r"
proof -
  have "i < length xs \<Longrightarrow> handles_of n pos xs ! i = (pos + length (area (take i xs))) mod n" for n pos xs
    by (induction xs arbitrary: pos i) (auto simp: nth_Cons' take_Cons' add.assoc)
  from this[of "map (stored_object D) q"] show "i < length q \<Longrightarrow> ?thesis" by (simp add: handles_def take_map)
qed

lemma stream_rel_count: "stream_rel D c q \<Longrightarrow> length q < 2 ^ 30"
proof -
  assume r: "stream_rel D c q"
  have "length (area (map (stored_object D) q)) \<ge> 36 * length q" by (induction q) (auto simp: stored_object_def)
  then show ?thesis using ring_rel_free[of "stream_ring c" "map (stored_object D) q"] r by (auto simp: stream_rel_def)
qed

text \<open>What does not change while an object is streamed.\<close>

definition stream_frame :: "stream_cache \<Rightarrow> stream_cache \<Rightarrow> bool" where
  "stream_frame c c' \<longleftrightarrow> backing c' = backing c \<and> stream_fds c' = stream_fds c \<and> regular_download_mgr c' = regular_download_mgr c \<and>
     external_download_mgr c' = external_download_mgr c \<and> total_size (stream_ring c') = total_size (stream_ring c)"

lemma stream_frame_trans: "stream_frame c1 c2 \<Longrightarrow> stream_frame c2 c3 \<Longrightarrow> stream_frame c1 c3"
  by (simp add: stream_frame_def)

lemma Xadd_simps [simp]:
  "stream_rel D (Xadd n x c) q = stream_rel D c q" "stream_frame c' (Xadd n x c) = stream_frame c' c" "stream_frame (Xadd n x c) c' = stream_frame c c'"
  "stream_ring (Xadd n x c) = stream_ring c" "buffered_objects (Xadd n x c) = buffered_objects c"
  "SelectDownloadManager info (Xadd n x c) = SelectDownloadManager info c"
  "backing (Xadd n x c) = backing c" "stream_fds (Xadd n x c) = stream_fds c" "regular_download_mgr (Xadd n x c) = regular_download_mgr c"
  "external_download_mgr (Xadd n x c) = external_download_mgr c"
  by (simp_all add: Xadd_def stream_rel_def stream_frame_def SelectDownloadManager_def fun_eq_iff)

lemma map_of_zip_drop: "k \<notin> set ks \<Longrightarrow> (map_of (zip (k # ks) (x # hs)))(k := None) = map_of (zip ks hs)"
proof -
  assume "k \<notin> set ks"
  then have "map_of (zip ks hs) k = None" by (auto simp: map_of_eq_None_iff dest: set_zip_leftD)
  then show ?thesis by (auto simp: fun_eq_iff)
qed

lemma map_of_zip_snoc:
  "length ks = length hs \<Longrightarrow> k \<notin> set ks \<Longrightarrow> map_of (zip (ks @ [k]) (hs @ [h])) = (map_of (zip ks hs))(k \<mapsto> h)"
  by (induction ks hs rule: list_induct2) auto

lemma evict_one:
  assumes "stream_rel D c (d # q)"
  obtains r h x where "RemoveBack (stream_ring c) = Some (back_pos (stream_ring c), r)"
    "CopySlice (back_pos (stream_ring c)) sizeof_Any 0 r = Some (any_image d)"
    "dyn_Erase (any_key d) (buffered_objects c) = Some (x, h)" "stream_rel D (c\<lparr>stream_ring := r, buffered_objects := h\<rparr>) q"
    "total_size r = total_size (stream_ring c)"
proof -
  let ?r = "stream_ring c" and ?t = "buffered_objects c"
  have R: "ring_rel ?r (stored_object D d # map (stored_object D) q)" "kv_key_ok d" "any_key d \<notin> set (map any_key q)" "dyn_inv ?t" "empty_key ?t = kv_null"
      "sh_abs ?t = map_of (zip (map any_key (d # q)) (handles D ?r (d # q)))" using assms by (auto simp: stream_rel_def)
  have b: "back_pos ?r < total_size ?r" using R(1) by (simp add: ring_rel_def)
  obtain r where r: "RemoveBack ?r = Some (back_pos ?r, r)" "ring_rel r (map (stored_object D) q)" "total_size r = total_size ?r"
      "back_pos r = (back_pos ?r + length (tagged (stored_object D d))) mod total_size ?r"
    using RemoveBack_ok[OF R(1)] .
  have "CopySlice (back_pos ?r) 28 0 ?r = Some (take 28 (drop 0 (stored_object D d)))"
    by (rule CopySlice_at[of ?r "[]" "stored_object D d" "map (stored_object D) q"]) (use R(1) b in \<open>simp_all add: stored_object_def\<close>)
  then have slice: "CopySlice (back_pos ?r) sizeof_Any 0 r = Some (any_image d)"
    using CopySlice_frame[of r ?r "back_pos ?r" 28 0] RemoveBack_frame[OF r(1)] by (simp add: stored_object_def sizeof_Any_def)
  obtain h where h: "dyn_Erase (any_key d) ?t = Some (sh_abs ?t (any_key d) \<noteq> None, h)" "dyn_inv h" "sh_abs h = (sh_abs ?t)(any_key d := None)"
      "dyn_frame ?t h"
    using dyn_Erase_correct[OF R(4), of "any_key d"] kv_key_okD[OF R(2)] R(5) by auto
  have "handles D ?r (d # q) = back_pos ?r # handles D r q"
    using b handles_of_mod[of "total_size ?r" "back_pos ?r + length (tagged (stored_object D d))"] by (simp add: handles_def r(3,4))
  then have sh: "sh_abs h = map_of (zip (map any_key q) (handles D r q))"
    unfolding h(3) R(6) using map_of_zip_drop[OF R(3)] by (simp only: list.map)
  have "empty_key h = kv_null" using h(4) R(5) by (simp add: dyn_frame_def)
  then have "stream_rel D (c\<lparr>stream_ring := r, buffered_objects := h\<rparr>) q"
    using assms r(2,3) h(2) sh by (simp add: stream_rel_def)
  from that[OF r(1) slice h(1) this r(3)] show thesis .
qed

lemma evict_loop_ok:
  assumes "stream_rel D c q" "n + 8 \<le> total_size (stream_ring c)"
  shows "\<exists>c' p q'. evict_loop n c = Some c' \<and> q = p @ q' \<and> stream_rel D c' q' \<and> n + 8 \<le> free_space (stream_ring c') \<and> stream_frame c c'"
  using assms
proof (induction q arbitrary: c)
  case Nil
  then have "free_space (stream_ring c) = total_size (stream_ring c)" "total_size (stream_ring c) < 2 ^ 64"
    using ring_rel_free[of "stream_ring c" "[]"] by (auto simp: stream_rel_def)
  then have "ring_HasSpaceFor n (stream_ring c)" using Nil.prems(2) by (simp add: ring_HasSpaceFor_def size_of_size_t_def)
  then show ?case using Nil.prems \<open>free_space (stream_ring c) = _\<close> by (simp add: evict_loop.simps stream_frame_def)
next
  case (Cons d q)
  have lt: "n + 8 < 2 ^ 64" using Cons.prems by (auto simp: stream_rel_def)
  show ?case
  proof (cases "ring_HasSpaceFor n (stream_ring c)")
    case True
    then have sp: "n + 8 \<le> free_space (stream_ring c)" using lt by (simp add: ring_HasSpaceFor_def size_of_size_t_def)
    show ?thesis
      by (rule exI[of _ c], rule exI[of _ "[]"], rule exI[of _ "d # q"]) (use sp True Cons.prems(1) in \<open>simp add: evict_loop.simps stream_frame_def\<close>)
  next
    case False
    obtain r h x where e: "RemoveBack (stream_ring c) = Some (back_pos (stream_ring c), r)"
      "CopySlice (back_pos (stream_ring c)) sizeof_Any 0 r = Some (any_image d)"
      "dyn_Erase (any_key d) (buffered_objects c) = Some (x, h)" "stream_rel D (c\<lparr>stream_ring := r, buffered_objects := h\<rparr>) q"
      "total_size r = total_size (stream_ring c)"
      using evict_one[OF Cons.prems(1)] .
    have "digest_ok d" using Cons.prems(1) by (simp add: stream_rel_def kv_key_ok_def)
    then have img: "any_of_image (any_image d) = d" using any_of_image[of d "[]"] by simp
    let ?c = "Xadd S_buffer_objects (- 1) (Xadd S_buffer_evicts 1 (c\<lparr>stream_ring := r, buffered_objects := h\<rparr>))"
    have run: "evict_loop n c = evict_loop n ?c" using False e(1-3) img by (subst evict_loop.simps) simp
    obtain c' p q' where c': "evict_loop n ?c = Some c'" "q = p @ q'" "stream_rel D c' q'" "n + 8 \<le> free_space (stream_ring c')" "stream_frame ?c c'"
      using Cons.IH[of ?c] e(4,5) Cons.prems(2) by auto
    show ?thesis
      by (rule exI[of _ c'], rule exI[of _ "d # p"], rule exI[of _ q']) (use c' e(5) in \<open>simp add: run stream_frame_def\<close>)
  qed
qed

lemma stream_store_ok:
  assumes "stream_rel D c q" "kv_key_ok (info_object info)" "any_key (info_object info) \<notin> set (map any_key q)"
    "length (stored_object D (info_object info)) + 8 \<le> total_size (stream_ring c)"
  shows "\<exists>c' q'. stream_store info (stored_object D (info_object info)) c = Some c' \<and> stream_rel D c' q' \<and> stream_frame c c'"
proof -
  let ?d = "info_object info" and ?o = "stored_object D (info_object info)"
  obtain c1 p q1 where c1: "evict_loop (length ?o) c = Some c1" "q = p @ q1" "stream_rel D c1 q1" "length ?o + 8 \<le> free_space (stream_ring c1)"
      "stream_frame c c1" using evict_loop_ok[OF assms(1,4)] by blast
  let ?r = "stream_ring c1" and ?t = "buffered_objects c1"
  have R: "ring_rel ?r (map (stored_object D) q1)" "dyn_inv ?t" "empty_key ?t = kv_null" "sh_abs ?t = map_of (zip (map any_key q1) (handles D ?r q1))"
    using c1(3) by (simp_all add: stream_rel_def)
  obtain r where r: "PushFront ?o ?r = Some ((back_pos ?r + length (area (map (stored_object D) q1))) mod total_size ?r, r)"
      "ring_rel r (map (stored_object D) q1 @ [?o])" "total_size r = total_size ?r" "back_pos r = back_pos ?r"
    using PushFront_ok[OF R(1), of ?o] c1(4) by auto
  let ?h = "(back_pos ?r + length (area (map (stored_object D) q1))) mod total_size ?r"
  have "card (dom (sh_abs ?t)) \<le> length q1" unfolding R(4) by (metis card_length dom_map_of_zip handles_length length_map)
  then have room: "card (dom (sh_abs ?t)) < 2 ^ 30" using stream_rel_count[OF c1(3)] by simp
  obtain t where t: "dyn_Insert (any_key ?d) ?h ?t = Some t" "dyn_inv t" "sh_abs t = (sh_abs ?t)(any_key ?d \<mapsto> ?h)" "dyn_frame ?t t"
    using dyn_Insert_correct[OF R(2), of "any_key ?d" ?h] kv_key_okD[OF assms(2)] R(3) room by auto
  have new: "any_key ?d \<notin> set (map any_key q1)" using assms(3) c1(2) by simp
  have "handles D r (q1 @ [?d]) = handles D ?r q1 @ [?h]" using r(3,4) by (simp add: handles_def handles_of_snoc)
  then have "sh_abs t = map_of (zip (map any_key (q1 @ [?d])) (handles D r (q1 @ [?d])))"
    unfolding t(3) R(4) using map_of_zip_snoc[OF _ new, of "handles D ?r q1" ?h] by simp
  then have "stream_rel D (c1\<lparr>stream_ring := r, buffered_objects := t\<rparr>) (q1 @ [?d])"
    using c1(3) r(2,3) t(2,4) R(3) assms(2) new by (simp add: stream_rel_def dyn_frame_def)
  moreover have "stream_store info ?o c = Some (Xadd S_buffer_objects 1 (c1\<lparr>stream_ring := r, buffered_objects := t\<rparr>))"
    using c1(1) r(1) t(1) by (simp add: stream_store_def)
  moreover have "stream_frame c (c1\<lparr>stream_ring := r, buffered_objects := t\<rparr>)" using c1(5) r(3) by (simp add: stream_frame_def)
  ultimately show ?thesis by auto
qed

section \<open>Streaming\<close>

text \<open>
  The contract of the download managers: a download that reports success has delivered the requested object
  since the last reset of the sink, which it has verified by its hash.  Nothing is assumed about the bytes of failing
  attempts, or about how many they are, below \<open>2 ^ 62\<close>.  The label of an object in the catalog states its size or leaves
  it open.
\<close>

definition delivers :: "(digest \<Rightarrow> bytes) \<Rightarrow> download_mgr \<Rightarrow> bool" where
  "delivers D mgr \<longleftrightarrow> (\<forall>n job. (dl_ok (mgr n job) \<longrightarrow> written [] (dl_calls (mgr n job)) = D (any_key (job_hash job))) \<and>
     calls_within (2 ^ 62) [] (dl_calls (mgr n job)))"

text \<open>
  The code does not limit what an attempt writes: some request for an object whose label states its size, and
  which has memory of that size, delivers more bytes than the label says.
\<close>

definition overruns :: "stream_cache \<Rightarrow> fd_info \<Rightarrow> bool" where
  "overruns c info \<longleftrightarrow> fst (stream_alloc info c) \<noteq> None \<and> (\<exists>n job. stream_job info = Some job \<and>
     \<not> calls_within (label_size (info_label info)) [] (dl_calls (SelectDownloadManager info c n job)))"

lemma overruns_frame: "stream_frame c c' \<Longrightarrow> overruns c' info = overruns c info"
  by (simp add: overruns_def stream_frame_def stream_alloc_def Let_def GetMaxObjectSize_def SelectDownloadManager_def)

definition info_ok :: "(digest \<Rightarrow> bytes) \<Rightarrow> fd_info \<Rightarrow> bool" where
  "info_ok D info \<longleftrightarrow> fd_in_cache_mgr info < 0 \<and> kv_key_ok (info_object info) \<and> \<not> IsNull (info_object info) \<and>
     label_size (info_label info) \<in> {kSizeUnknown, length (D (any_key (info_object info)))} \<and>
     length (D (any_key (info_object info))) < 2 ^ 62"

lemma stream_job_ok:
  assumes "kv_key_ok (info_object info)"
  shows "\<exists>job. stream_job info = Some job \<and> job_hash job = info_object info \<and> job_range_size job = s64 (label_size (info_label info))"
proof -
  have "\<exists>p. MakePath (info_object info) = Some p"
    unfolding MakePath_def MakePathExplicit_1_2 by blast
  then show ?thesis by (auto simp: stream_job_def Let_def)
qed

lemma stream_hit_ok:
  assumes rel: "stream_rel D c q" and d: "d \<in> set q" "any_key d = any_key i" and w: "window_ok offset sz buf"
    and sz: "sz \<le> total_size (stream_ring c)" and X: "length (D (any_key i)) < 2 ^ 62"
  shows "\<exists>hnd buf' c'. sh_abs (buffered_objects c) (any_key i) = Some hnd \<and>
    stream_hit hnd buf sz offset c = Some (int (length (D (any_key i))), buf', c') \<and>
    window_has (D (any_key i)) offset sz buf buf' \<and> stream_rel D c' q \<and> stream_frame c c'"
proof -
  let ?r = "stream_ring c" and ?x = "D (any_key i)"
  obtain n where n: "n < length q" "q ! n = d" using d(1) by (auto simp: in_set_conv_nth)
  define h where "h = handles D ?r q ! n"
  have R: "ring_rel ?r (map (stored_object D) q)" "distinct (map any_key q)"
      "sh_abs (buffered_objects c) = map_of (zip (map any_key q) (handles D ?r q))" using rel by (simp_all add: stream_rel_def)
  have "map_of (zip (map any_key q) (handles D ?r q)) (map any_key q ! n) = Some h"
    unfolding h_def using R(2) n(1) by (intro map_of_zip_nth) simp_all
  then have look: "sh_abs (buffered_objects c) (any_key i) = Some h" using R(3) n d(2) by simp
  have split: "map (stored_object D) q = map (stored_object D) (take n q) @ stored_object D d # map (stored_object D) (drop (Suc n) q)"
    using n by (metis id_take_nth_drop list.simps(9) map_append)
  have rr: "ring_rel ?r (map (stored_object D) (take n q) @ stored_object D d # map (stored_object D) (drop (Suc n) q))" using R(1) split by simp
  have hh: "h = (back_pos ?r + length (area (map (stored_object D) (take n q)))) mod total_size ?r"
    using handles_nth[OF n(1)] by (simp add: h_def)
  have ob: "stored_object D d = any_image d @ ?x" by (simp add: stored_object_def d(2))
  have u: "u64 (offset + 28) = offset + 28" using w by (simp add: window_ok_def)
  obtain data where data: "CopySlice h sz (offset + 28) ?r = Some data" "length data = sz"
      "\<forall>j < sz. offset + 28 + j < length (stored_object D d) \<longrightarrow> data ! j = stored_object D d ! (offset + 28 + j)"
    using CopySlice_prefix[OF rr hh sz, of "offset + 28"] w by (auto simp: window_ok_def)
  have bytes: "data ! j = ?x ! (offset + j)" if "j < sz" "offset + j < length ?x" for j
    using data(3) that by (simp add: ob nth_append)
  have gs: "GetObjectSize h ?r = Some (28 + length ?x)" using GetObjectSize_at[OF rr hh] by (simp add: ob)
  have ret: "s64 (u64 (28 + length ?x + (2 ^ 64 - 28))) = int (length ?x)" using X u64_sub[of 28 "28 + length ?x"] by (simp add: s64_def)
  have "\<exists>buf'. (case buf of Some w \<Rightarrow> do { w \<leftarrow> mem_write w 0 data; Some (Some w) } | None \<Rightarrow> if data = [] then Some None else None) = Some buf' \<and>
      window_has ?x offset sz buf buf'"
    using w data(2) bytes by (cases buf) (auto simp: window_ok_def window_has_def mem_write_def nth_append)
  then obtain buf' where b: "(case buf of Some w \<Rightarrow> do { w \<leftarrow> mem_write w 0 data; Some (Some w) } | None \<Rightarrow> if data = [] then Some None else None) = Some buf'"
      "window_has ?x offset sz buf buf'" by blast
  have "stream_hit h buf sz offset c = Some (int (length ?x), buf', Xadd S_buffer_hits 1 c)"
    using data(1) u b(1) gs ret by (simp add: stream_hit_def sizeof_Any_def)
  then show ?thesis using look b(2) rel by (auto simp: stream_frame_def)
qed

lemma sink_new_rel:
  assumes "window_ok offset sz buf"
  shows "sink_rel offset sz buf (map_option (\<lambda>n. n - sizeof_Any) m) (StreamingSink_new buf sz offset (map_option (\<lambda>n. map fresh [sizeof_Any..<n]) m)) []"
  using assms by (cases m; cases buf) (auto simp: sink_rel_def StreamingSink_new_def window_has_def)

text \<open>The result of a download in the sink; the stored object, if there is one, is the complete object.\<close>

lemma stream_fetch_ok:
  assumes del: "delivers D mgr" and info: "info_ok D info" and job: "stream_job info = Some job" and w: "window_ok offset sz buf"
    and alloc: "stream_alloc info c = (m, c1)"
    and fits: "m \<noteq> None \<longrightarrow> calls_within (label_size (info_label info)) [] (dl_calls (mgr k job))"
  shows "\<exists>s. fold_opt sink_step (dl_calls (mgr k job)) (StreamingSink_new buf sz offset (map_option (\<lambda>n. map fresh [sizeof_Any..<n]) m)) = Some s \<and>
    window_has (written [] (dl_calls (mgr k job))) offset sz buf (window_buf s) \<and>
    GetNBytesStreamed s = int (length (written [] (dl_calls (mgr k job)))) \<and> m = map_option (\<lambda>body. sizeof_Any + length body) (sink_object s) \<and>
    (dl_ok (mgr k job) \<longrightarrow> written [] (dl_calls (mgr k job)) = D (any_key (info_object info)) \<and>
       (\<forall>ob. sink_object s = Some ob \<longrightarrow> ob = D (any_key (info_object info))))"
proof -
  let ?x = "D (any_key (info_object info))" and ?n = "label_size (info_label info)" and ?calls = "dl_calls (mgr k job)"
  obtain job' where j: "stream_job info = Some job'" "job_hash job' = info_object info" "job_range_size job' = s64 ?n"
    using stream_job_ok[of info] info by (auto simp: info_ok_def)
  have jb: "job' = job" using j(1) job by simp
  define lim where "lim = (if m = None then 2 ^ 62 else ?n)"
  have within: "calls_within lim [] ?calls" using del fits unfolding delivers_def lim_def by presburger
  have sizes: "?n = kSizeUnknown \<or> ?n = length ?x" "length ?x < 2 ^ 62" using info by (auto simp: info_ok_def)
  have m: "m = None \<or> m = Some (28 + length ?x) \<and> ?n \<noteq> kSizeUnknown"
    using alloc sizes by (auto simp: stream_alloc_def Let_def sizeof_Any_def split: if_splits)
  have lim: "lim < 2 ^ 63" using sizes m by (auto simp: lim_def)
  have room: "\<forall>b. map_option (\<lambda>n. n - sizeof_Any) m = Some b \<longrightarrow> lim \<le> b" using m sizes(1) by (auto simp: lim_def sizeof_Any_def)
  obtain s where s: "fold_opt sink_step ?calls (StreamingSink_new buf sz offset (map_option (\<lambda>n. map fresh [sizeof_Any..<n]) m)) = Some s"
      "sink_rel offset sz buf (map_option (\<lambda>n. n - sizeof_Any) m) s (written [] ?calls)"
    using sink_run_ok[OF sink_new_rel[OF w] within lim room] by blast
  have "dl_ok (mgr k job) \<Longrightarrow> written [] ?calls = ?x" using del j(2) unfolding delivers_def jb by metis
  moreover have "GetNBytesStreamed s = int (length (written [] ?calls))" using s(2) by (simp add: sink_rel_def GetNBytesStreamed_def s64_def)
  moreover have "ob = ?x" if "written [] ?calls = ?x" "sink_object s = Some ob" for ob
    using s(2) that m by (auto simp: sink_rel_def sizeof_Any_def)
  moreover have "m = map_option (\<lambda>body. sizeof_Any + length body) (sink_object s)"
    using s(2) m by (auto simp: sink_rel_def sizeof_Any_def split: option.splits)
  ultimately show ?thesis using s by (auto simp: sink_rel_def)
qed

lemma stream_fetch_overflow:
  assumes info: "info_ok D info" and w: "window_ok offset sz buf" and alloc: "stream_alloc info c = (Some m, c1)"
    and over: "\<not> calls_within (label_size (info_label info)) [] calls"
  shows "fold_opt sink_step calls (StreamingSink_new buf sz offset (Some (map fresh [sizeof_Any..<m]))) = None"
proof -
  let ?n = "label_size (info_label info)"
  have n: "?n < 2 ^ 62" "m = 28 + ?n" using alloc info by (auto simp: stream_alloc_def Let_def sizeof_Any_def info_ok_def split: if_splits)
  have "sink_rel offset sz buf (Some ?n) (StreamingSink_new buf sz offset (Some (map fresh [sizeof_Any..<m]))) []"
    using sink_new_rel[OF w, of "Some m" fresh] n(2) by (simp add: sizeof_Any_def)
  from sink_run_overflow[OF this over] n(1) show ?thesis by simp
qed

lemma buffered_lookup:
  assumes "stream_rel D c q" "kv_key_ok i"
  shows "hash_lookup (any_key i) (buffered_objects c) = Some (sh_abs (buffered_objects c) (any_key i))"
    "any_key i \<notin> set (map any_key q) \<Longrightarrow> sh_abs (buffered_objects c) (any_key i) = None"
proof -
  have R: "dyn_inv (buffered_objects c)" "empty_key (buffered_objects c) = kv_null"
      "sh_abs (buffered_objects c) = map_of (zip (map any_key q) (handles D (stream_ring c) q))" using assms(1) by (simp_all add: stream_rel_def)
  show "hash_lookup (any_key i) (buffered_objects c) = Some (sh_abs (buffered_objects c) (any_key i))"
    using hash_lookup_correct[of "buffered_objects c" "any_key i"] dyn_invD(1)[OF R(1)] kv_key_okD[OF assms(2)] R(2) by simp
  show "any_key i \<notin> set (map any_key q) \<Longrightarrow> sh_abs (buffered_objects c) (any_key i) = None"
    unfolding R(3) by (auto simp: map_of_eq_None_iff dest: set_zip_leftD)
qed

lemma Stream_overflow:
  assumes rel: "stream_rel D c q" and info: "info_ok D info" and w: "window_ok offset sz buf"
    and new: "any_key (info_object info) \<notin> set (map any_key q)"
    and alloc: "stream_alloc info c = (Some m, c1)" and job: "stream_job info = Some job"
    and over: "\<not> calls_within (label_size (info_label info)) [] (dl_calls (SelectDownloadManager info c (nat (stream_counters c S_downloads)) job))"
  shows "Stream fresh info buf sz offset c = None"
proof -
  have i: "kv_key_ok (info_object info)" using info by (simp add: info_ok_def)
  have "c1 = c" using alloc by (auto simp: stream_alloc_def Let_def split: if_splits)
  then show ?thesis using buffered_lookup(1)[OF rel i] buffered_lookup(2)[OF rel i new] alloc job stream_fetch_overflow[OF info w alloc over]
    by (simp add: Stream_def Let_def)
qed

lemma Stream_miss_ok:
  assumes rel: "stream_rel D c q" and del: "delivers D (SelectDownloadManager info c)"
    and info: "info_ok D info" and w: "window_ok offset sz buf" and new: "any_key (info_object info) \<notin> set (map any_key q)"
    and alloc: "stream_alloc info c = (m, c1)" and job: "stream_job info = Some job"
    and within: "m \<noteq> None \<longrightarrow> calls_within (label_size (info_label info)) []
      (dl_calls (SelectDownloadManager info c (nat (stream_counters c S_downloads)) job))"
  shows "\<exists>r buf' c' q'. Stream fresh info buf sz offset c = Some (r, buf', c') \<and> stream_rel D c' q' \<and> stream_frame c c' \<and>
    (r = - EIO \<and> (buf = None \<longleftrightarrow> buf' = None) \<or>
     r = int (length (D (any_key (info_object info)))) \<and> window_has (D (any_key (info_object info))) offset sz buf buf')"
proof -
  let ?k = "any_key (info_object info)"
  have i: "kv_key_ok (info_object info)" using info by (simp add: info_ok_def)
  have c1: "stream_rel D c1 q" "stream_frame c c1" "stream_ring c1 = stream_ring c" "SelectDownloadManager info c1 = SelectDownloadManager info c"
      "stream_counters c1 S_downloads = stream_counters c S_downloads" "\<forall>n. m = Some n \<longrightarrow> 36 + length (D ?k) \<le> total_size (stream_ring c)"
    using alloc rel info by (auto simp: stream_alloc_def Let_def stream_frame_def info_ok_def sizeof_Any_def GetMaxObjectSize_def size_of_size_t_def
        stream_rel_def ring_rel_def Xadd_def SelectDownloadManager_def fun_eq_iff split: if_splits)
  define res where "res = SelectDownloadManager info c (nat (stream_counters c S_downloads)) job"
  from stream_fetch_ok[OF del info job w alloc within, of fresh, folded res_def] obtain s where
    s: "fold_opt sink_step (dl_calls res) (StreamingSink_new buf sz offset (map_option (\<lambda>n. map fresh [sizeof_Any..<n]) m)) = Some s"
    "window_has (written [] (dl_calls res)) offset sz buf (window_buf s)" "GetNBytesStreamed s = int (length (written [] (dl_calls res)))"
    "m = map_option (\<lambda>body. sizeof_Any + length body) (sink_object s)"
    "dl_ok res \<longrightarrow> written [] (dl_calls res) = D ?k \<and> (\<forall>ob. sink_object s = Some ob \<longrightarrow> ob = D ?k)"
    by (elim exE conjE) (rule that)
  define c2 where "c2 = Xadd S_transferred_bytes (GetNBytesStreamed s) (Xadd S_downloads 1 (Xadd S_transfer_ms (int (dl_ns res div (1000 * 1000))) c1))"
  have c2: "stream_rel D c2 q" "stream_frame c c2" "stream_ring c2 = stream_ring c" using c1 by (simp_all add: c2_def)
  have run: "Stream fresh info buf sz offset c = (if \<not> dl_ok res then Some (- EIO, window_buf s, c2)
      else do { c' \<leftarrow> (case sink_object s of None \<Rightarrow> Some c2 | Some body \<Rightarrow> do { assert_that (m = Some (sizeof_Any + length body)); stream_store info (any_image (info_object info) @ body) c2 });
                Some (GetNBytesStreamed s, window_buf s, c') })"
    using buffered_lookup(1)[OF rel i] buffered_lookup(2)[OF rel i new] alloc job s(1) c1(4,5)
    by (simp add: Stream_def Let_def res_def c2_def cong: option.case_cong)
  show ?thesis
  proof (cases "dl_ok res")
    case False
    have "buf = None \<longleftrightarrow> window_buf s = None" using s(2) by (auto simp: window_has_def split: option.splits)
    then show ?thesis using run c2 False by auto
  next
    case True
    then have x: "written [] (dl_calls res) = D ?k" "\<And>ob. sink_object s = Some ob \<Longrightarrow> ob = D ?k" using s(5) by blast+
    show ?thesis
    proof (cases "sink_object s")
      case None
      then show ?thesis using run True c2 s(2,3) x(1) by auto
    next
      case (Some body)
      then have "body = D ?k" "m \<noteq> None" using x(2) s(4) by auto
      then obtain c' q' where "stream_store info (any_image (info_object info) @ body) c2 = Some c'" "stream_rel D c' q'" "stream_frame c2 c'"
        using stream_store_ok[OF c2(1) i new] c1(6) c2(3) by (auto simp: stored_object_def)
      then show ?thesis using run True Some c2 s(2,3,4) x(1) stream_frame_trans[OF c2(2)] by auto
    qed
  qed
qed

text \<open>A call of \<open>Stream\<close> writes out of bounds because the download overruns the memory for the object, or it is right.\<close>

lemma Stream_ok:
  assumes rel: "stream_rel D c q" and del: "delivers D (regular_download_mgr c)" "delivers D (external_download_mgr c)"
    and info: "info_ok D info" and w: "window_ok offset sz buf" and sz: "sz \<le> total_size (stream_ring c)"
  shows "Stream fresh info buf sz offset c = None \<and> overruns c info \<or>
   (\<exists>r buf' c' q'. Stream fresh info buf sz offset c = Some (r, buf', c') \<and> stream_rel D c' q' \<and> stream_frame c c' \<and>
    (r = - EIO \<and> (buf = None \<longleftrightarrow> buf' = None) \<or>
     r = int (length (D (any_key (info_object info)))) \<and> window_has (D (any_key (info_object info))) offset sz buf buf'))"
proof -
  let ?k = "any_key (info_object info)"
  have i: "kv_key_ok (info_object info)" "length (D ?k) < 2 ^ 62" using info by (simp_all add: info_ok_def)
  show ?thesis
  proof (cases "?k \<in> set (map any_key q)")
    case True
    then obtain d where d: "d \<in> set q" "any_key d = ?k" by auto
    obtain hnd buf' c' where "sh_abs (buffered_objects c) ?k = Some hnd" "stream_hit hnd buf sz offset c = Some (int (length (D ?k)), buf', c')"
        "window_has (D ?k) offset sz buf buf'" "stream_rel D c' q" "stream_frame c c'"
      using stream_hit_ok[OF rel d w sz i(2)] by blast
    then show ?thesis using buffered_lookup(1)[OF rel i(1)] by (auto simp: Stream_def)
  next
    case False
    obtain m c1 where a: "stream_alloc info c = (m, c1)" by force
    obtain job where job: "stream_job info = Some job" using stream_job_ok[OF i(1)] by blast
    have del': "delivers D (SelectDownloadManager info c)" using del by (simp add: SelectDownloadManager_def)
    let ?calls = "dl_calls (SelectDownloadManager info c (nat (stream_counters c S_downloads)) job)"
    show ?thesis
    proof (cases "m \<noteq> None \<longrightarrow> calls_within (label_size (info_label info)) [] ?calls")
      case True
      show ?thesis by (rule disjI2) (rule Stream_miss_ok[OF rel del' info w False a job True])
    next
      case over: False
      then obtain k where k: "m = Some k" by blast
      have "overruns c info" using over a job by (auto simp: overruns_def)
      then show ?thesis using Stream_overflow[OF rel info w False a[unfolded k] job] over by blast
    qed
  qed
qed

text \<open>
  A hit copies as many bytes as were asked for, not as many as the object has: a request of more than twice the
  size of the ring buffer reads behind the memory of the buffer.
\<close>

lemma stream_hit_overread:
  assumes "length (buffer (stream_ring c)) = total_size (stream_ring c)" "2 * total_size (stream_ring c) < sz"
  shows "stream_hit hnd buf sz offset c = None"
proof -
  have "ring_Get p sz (stream_ring c) = None" for p using assms by (auto simp: ring_Get_def mem_read_def Let_def min_def split: bind_splits)
  then show ?thesis by (simp add: stream_hit_def CopySlice_def Let_def)
qed

section \<open>Construction and opening\<close>

lemma StreamingCacheManager_new_ok:
  assumes "tparams_ok tp" "0 < n" "8 \<le> sz" "sz \<le> 2 ^ 34"
  obtains c where "StreamingCacheManager_new tp p n b reg ext sz = Some c" "stream_rel D c []" "fd_inv (stream_fds c)"
    "fd_abs (stream_fds c) = Map.empty" "GetMaxFds (stream_fds c) = n" "invalid_handle (stream_fds c) = FdInfo_new"
    "handle_eq (stream_fds c) = fd_info_equal" "backing c = b" "regular_download_mgr c = reg" "external_download_mgr c = ext"
    "total_size (stream_ring c) = sz"
proof -
  obtain t where t: "FdTable_new fd_info_equal n FdInfo_new = Some t" "fd_inv t" "fd_abs t = Map.empty" "GetMaxFds t = n"
      "invalid_handle t = FdInfo_new" "handle_eq t = fd_info_equal"
    using FdTable_new_inv[OF assms(2), of fd_info_equal FdInfo_new] by (auto simp: fd_info_equal_def)
  obtain r where r: "RingBuffer_new sz = Some r" "ring_rel r []" "total_size r = sz" using RingBuffer_new_rel[OF assms(3)] assms(4) by auto
  obtain h where h: "dyn_Init tp 16 kv_null hasher_any p = Some h" "dyn_inv h" "sh_abs h = Map.empty" "empty_key h = kv_null"
    using dyn_Init_correct[OF assms(1), of 16 kv_null hasher_any p] by auto
  show thesis
    by (rule that[of "\<lparr>backing = b, regular_download_mgr = reg, external_download_mgr = ext, stream_fds = t, stream_ring = r,
        buffered_objects = h, stream_counters = stream_counters_new\<rparr>"])
      (use t r h assms(4) in \<open>simp_all add: StreamingCacheManager_new_def stream_rel_def\<close>)
qed

lemma stream_Open_absent:
  assumes b: "ram_rel (backing c) F S" "found_in S (any_key (object_id object)) = None" "kv_key_ok (object_id object)"
    and t: "fd_inv (stream_fds c)" "invalid_handle (stream_fds c) = FdInfo_new" "handle_eq (stream_fds c) = fd_info_equal"
      "card (dom (fd_abs (stream_fds c))) < GetMaxFds (stream_fds c)"
    and fl: "\<not> has_flag (label_flags (object_label object)) kLabelCatalog" "\<not> has_flag (label_flags (object_label object)) kLabelPinned"
      "\<not> has_flag (label_flags (object_label object)) kLabelCertificate"
  obtains fd t' b' where "stream_Open object c = Some (fd, c\<lparr>backing := b', stream_fds := t'\<rparr>)" "0 \<le> fd" "fd_abs t' fd = Some (FdInfo_object object)"
    "ram_rel b' F S"
proof -
  obtain b' where b': "ram_Open object (backing c) = Some (- ENOENT, b')" "ram_rel b' F S"
    using DoOpen_ok[OF b(1,3)] b(2) by (auto simp: ram_Open_def)
  have "\<not> handle_eq (stream_fds c) (FdInfo_object object) (invalid_handle (stream_fds c))"
    using b(3) kv_key_okD[OF b(3)] by (simp add: t(2,3) fd_info_equal_def FdInfo_object_def FdInfo_new_def any_key_def Any_new_def)
  from OpenFd_ok[OF t(1) this t(4)] obtain fd t' where t': "OpenFd (FdInfo_object object) (stream_fds c) = Some (fd, t')" "0 \<le> fd"
      "fd_abs t' = (fd_abs (stream_fds c))(fd \<mapsto> FdInfo_object object)" by blast
  have "stream_Open object c = Some (fd, c\<lparr>backing := b', stream_fds := t'\<rparr>)"
    using b'(1) t'(1) fl by (simp add: stream_Open_def Let_def errno_defs)
  from that[OF this t'(2) _ b'(2)] t'(3) show thesis by simp
qed

section \<open>Reading\<close>

lemma window_bytes:
  assumes "window_has x offset sz (Some w) (Some w')" "sz \<le> length w"
  shows "take (length (take sz (drop offset x))) w' = take sz (drop offset x)"
  using assms by (intro nth_equalityI) (auto simp: window_has_def)

lemma stream_Pread_ok:
  assumes rel: "stream_rel D c q" and del: "delivers D (regular_download_mgr c)" "delivers D (external_download_mgr c)"
    and info: "info_ok D (GetHandle fd (stream_fds c))" and w: "offset + sz < 2 ^ 62" "sz \<le> length buf" and sz: "sz \<le> total_size (stream_ring c)"
  shows "stream_Pread fresh fd buf sz offset c = None \<and> overruns c (GetHandle fd (stream_fds c)) \<or>
   (\<exists>r buf' c' q'. stream_Pread fresh fd buf sz offset c = Some (r, Some buf', c') \<and> stream_rel D c' q' \<and> stream_frame c c' \<and>
    (r = - EIO \<or> r = int (length (take sz (drop offset (D (any_key (info_object (GetHandle fd (stream_fds c)))))))) \<and>
      take (nat r) buf' = take sz (drop offset (D (any_key (info_object (GetHandle fd (stream_fds c))))))))"
proof (cases "Stream fresh (GetHandle fd (stream_fds c)) (Some buf) sz offset c")
  case None
  have "window_ok offset sz (Some buf)" using w by (simp add: window_ok_def)
  from Stream_ok[OF rel del info this sz, of fresh] None show ?thesis
    using info by (simp add: stream_Pread_def Let_def info_ok_def fd_info_IsValid_def)
next
  case (Some res)
  let ?i = "GetHandle fd (stream_fds c)" let ?x = "D (any_key (info_object ?i))"
  have wo: "window_ok offset sz (Some buf)" using w by (simp add: window_ok_def)
  obtain r b c' q' where S: "Stream fresh ?i (Some buf) sz offset c = Some (r, b, c')" "stream_rel D c' q'" "stream_frame c c'"
      "r = - EIO \<and> (Some buf = None \<longleftrightarrow> b = None) \<or> r = int (length ?x) \<and> window_has ?x offset sz (Some buf) b"
    using Stream_ok[OF rel del info wo sz, of fresh] Some by auto
  obtain buf' where b: "b = Some buf'" using S(4) by (cases b) (auto simp: window_has_def)
  have valid: "fd_info_IsValid ?i" "\<not> 0 \<le> fd_in_cache_mgr ?i" "length ?x < 2 ^ 62" using info by (auto simp: info_ok_def fd_info_IsValid_def)
  have run: "stream_Pread fresh fd buf sz offset c = (if r < 0 then Some (r, b, c') else if nat r < offset then Some (0, b, c')
      else if nat r > u64 (offset + sz) then Some (s64 sz, b, c') else Some (r - int offset, b, c'))"
    using valid(1,2) S(1) by (simp add: stream_Pread_def Let_def)
  have u: "u64 (offset + sz) = offset + sz" "s64 sz = int sz" using w(1) by (simp_all add: s64_def)
  show ?thesis
  proof (cases "r = - EIO")
    case True
    then show ?thesis using run S(2,3) b by (auto simp: EIO_def)
  next
    case False
    then have r: "r = int (length ?x)" "window_has ?x offset sz (Some buf) (Some buf')" using S(4) b by auto
    have "stream_Pread fresh fd buf sz offset c = Some (int (length (take sz (drop offset ?x))), Some buf', c')"
      using run r(1) u b by (auto simp: min_def of_nat_diff)
    then show ?thesis using S(2,3) window_bytes[OF r(2) w(2)] by (auto simp del: length_take length_drop)
  qed
qed

text \<open>A client that reads into zeroed memory and collects the results and the bytes it got.\<close>

definition read_step ::
  "(nat \<Rightarrow> nat) \<Rightarrow> int \<times> nat \<times> nat \<Rightarrow> stream_cache \<times> (int \<times> bytes) list \<Rightarrow> (stream_cache \<times> (int \<times> bytes) list) option" where
  "read_step fresh call s = (case call of (fd, sz, offset) \<Rightarrow> case s of (c, rs) \<Rightarrow> do {
     (r, buf, c) \<leftarrow> stream_Pread fresh fd (replicate sz 0) sz offset c;
     buf \<leftarrow> buf;
     Some (c, rs @ [(r, take (nat r) buf)])
   })"

text \<open>The result of a call is right for the object \<open>x\<close>: -EIO and nothing, or exactly the bytes in the requested range.\<close>

definition read_right :: "(int \<Rightarrow> bytes) \<Rightarrow> int \<times> nat \<times> nat \<Rightarrow> int \<times> bytes \<Rightarrow> bool" where
  "read_right x call answer \<longleftrightarrow> (case (call, answer) of ((fd, sz, offset), (r, data)) \<Rightarrow>
     r = - EIO \<and> data = [] \<or> r = int (length data) \<and> data = take sz (drop offset (x fd)))"

lemma read_step_ok:
  assumes rel: "stream_rel D c q" and del: "delivers D (regular_download_mgr c)" "delivers D (external_download_mgr c)"
    and info: "info_ok D (GetHandle fd (stream_fds c))" and w: "offset + sz < 2 ^ 62" "sz \<le> total_size (stream_ring c)"
  shows "read_step fresh (fd, sz, offset) (c, rs) = None \<and> overruns c (GetHandle fd (stream_fds c)) \<or>
    (\<exists>c' q' a. read_step fresh (fd, sz, offset) (c, rs) = Some (c', rs @ [a]) \<and> stream_rel D c' q' \<and> stream_frame c c' \<and>
      read_right (\<lambda>fd. D (any_key (info_object (GetHandle fd (stream_fds c))))) (fd, sz, offset) a)"
proof (cases "stream_Pread fresh fd (replicate sz 0) sz offset c")
  case None
  then show ?thesis using stream_Pread_ok[OF rel del info w(1) _ w(2), of "replicate sz 0" fresh] by (simp add: read_step_def)
next
  case (Some res)
  let ?x = "D (any_key (info_object (GetHandle fd (stream_fds c))))"
  obtain r buf' c' q' where P: "res = (r, Some buf', c')" "stream_rel D c' q'" "stream_frame c c'"
      "r = - EIO \<or> r = int (length (take sz (drop offset ?x))) \<and> take (nat r) buf' = take sz (drop offset ?x)"
    using stream_Pread_ok[OF rel del info w(1) _ w(2), of "replicate sz 0" fresh] Some by auto
  have "read_right (\<lambda>fd. D (any_key (info_object (GetHandle fd (stream_fds c))))) (fd, sz, offset) (r, take (nat r) buf')"
  proof (cases "r = - EIO")
    case False
    then have e: "take (nat r) buf' = take sz (drop offset ?x)" "r = int (length (take sz (drop offset ?x)))" using P(4) by blast+
    show ?thesis unfolding read_right_def prod.case e(1) using e(2) by blast
  qed (simp add: read_right_def EIO_def)
  moreover have "read_step fresh (fd, sz, offset) (c, rs) = Some (c', rs @ [(r, take (nat r) buf')])" using Some P(1) by (simp add: read_step_def)
  ultimately show ?thesis using P(2,3) by blast
qed

text \<open>
  C2.  Streaming returns the right bytes: for any sequence of \<open>Pread\<close> calls on open streamed objects, with downloads, hits
  in the ring buffer and evictions interleaved as they come, either all calls return, each with -EIO (and nothing) or with
  exactly the bytes of its object in the requested range; or a call writes out of bounds, and then a download for one of
  these objects delivers more bytes than its label says.  No other failure is possible.  The
  requests are not larger than the ring buffer and end below \<open>2 ^ 62\<close>; the labels state the exact size of their object or leave it
  open; of the download managers only \<open>delivers\<close> is assumed: what they report as downloaded is the object.
\<close>

theorem stream_reads:
  assumes "stream_rel D c q" "delivers D (regular_download_mgr c)" "delivers D (external_download_mgr c)"
    "list_all (\<lambda>(fd, sz, offset). info_ok D (GetHandle fd (stream_fds c)) \<and> offset + sz < 2 ^ 62 \<and> sz \<le> total_size (stream_ring c)) calls"
  shows "(\<exists>c' rs. fold_opt (read_step fresh) calls (c, []) = Some (c', rs) \<and>
      list_all2 (read_right (\<lambda>fd. D (any_key (info_object (GetHandle fd (stream_fds c)))))) calls rs) \<or>
    fold_opt (read_step fresh) calls (c, []) = None \<and> (\<exists>(fd, sz, offset) \<in> set calls. overruns c (GetHandle fd (stream_fds c)))"
proof -
  let ?x = "\<lambda>fd. D (any_key (info_object (GetHandle fd (stream_fds c))))"
  have "(\<exists>c' rs'. fold_opt (read_step fresh) calls (c1, rs) = Some (c', rs @ rs') \<and> list_all2 (read_right ?x) calls rs') \<or>
      fold_opt (read_step fresh) calls (c1, rs) = None \<and> (\<exists>(fd, sz, offset) \<in> set calls. overruns c (GetHandle fd (stream_fds c)))"
    if "stream_rel D c1 q1" "stream_frame c c1" for c1 q1 rs
    using assms(4) that
  proof (induction calls arbitrary: c1 q1 rs)
    case (Cons call calls)
    obtain fd sz offset where call: "call = (fd, sz, offset)" by (cases call)
    have fr: "stream_fds c1 = stream_fds c" "regular_download_mgr c1 = regular_download_mgr c" "external_download_mgr c1 = external_download_mgr c"
        "total_size (stream_ring c1) = total_size (stream_ring c)" using Cons.prems(3) by (simp_all add: stream_frame_def)
    have first: "info_ok D (GetHandle fd (stream_fds c))" "offset + sz < 2 ^ 62" "sz \<le> total_size (stream_ring c)"
      and rest: "list_all (\<lambda>(fd, sz, offset). info_ok D (GetHandle fd (stream_fds c)) \<and> offset + sz < 2 ^ 62 \<and> sz \<le> total_size (stream_ring c)) calls"
      using Cons.prems(1) by (simp_all add: call)
    note step = read_step_ok[OF Cons.prems(2), of fd offset sz fresh rs, unfolded fr overruns_frame[OF Cons.prems(3)], OF assms(2,3) first, folded call]
    show ?case
    proof (cases "read_step fresh call (c1, rs)")
      case None
      then show ?thesis using step by (auto simp: call)
    next
      case (Some res)
      with step obtain c2 q2 a where ok: "read_step fresh call (c1, rs) = Some (c2, rs @ [a])" "stream_rel D c2 q2" "stream_frame c1 c2"
          "read_right ?x call a" by auto
      from Cons.IH[OF rest ok(2) stream_frame_trans[OF Cons.prems(3) ok(3)], of "rs @ [a]"] show ?thesis
      proof (elim disjE exE conjE)
        fix c' rs' assume "fold_opt (read_step fresh) calls (c2, rs @ [a]) = Some (c', (rs @ [a]) @ rs')" "list_all2 (read_right ?x) calls rs'"
        then show ?thesis using ok(1,4) by (intro disjI1 exI[of _ c'] exI[of _ "a # rs'"]) simp
      qed (use ok(1) in auto)
    qed
  qed simp
  from this[OF assms(1), of "[]"] show ?thesis by (simp add: stream_frame_def)
qed

text \<open>A download manager that delivers the byte 7 ten times, in two pieces, after a failed attempt.\<close>

definition stream_demo_mgr :: download_mgr where
  "stream_demo_mgr n job = (if 0 \<le> job_range_size job \<and> job_range_size job < 10 then \<lparr>dl_calls = [], dl_ok = False, dl_ns = 5\<rparr>
     else \<lparr>dl_calls = [SinkWrite [1], SinkReset, SinkWrite (replicate 4 7), SinkWrite (replicate 6 7)], dl_ok = True, dl_ns = 5\<rparr>)"

definition stream_demo_object :: labeled_object where
  "stream_demo_object = \<lparr>object_id = kv_demo_id 7, object_label = (ram_demo_label 0)\<lparr>label_size := 10\<rparr>\<rparr>"

definition stream_demo_params :: "(digest, nat) tparams" where
  "stream_demo_params = \<lparr>sizeof_key = 28, sizeof_value = 8, default_key = kv_null, default_value = 0\<rparr>"

lemma stream_demo_delivers: "delivers (\<lambda>_. replicate 10 7) stream_demo_mgr"
  by (auto simp: delivers_def stream_demo_mgr_def calls_within_simps simp flip: replicate_add)

lemma stream_demo_fits: "calls_within 10 [] (dl_calls (stream_demo_mgr n job))"
  by (simp add: stream_demo_mgr_def calls_within_simps)

lemma stream_demo_info: "info_ok (\<lambda>_. replicate 10 7) (FdInfo_object stream_demo_object)"
  using kv_demo_key[of 7]
  by (simp add: info_ok_def FdInfo_object_def stream_demo_object_def ram_demo_label_def IsNull_def kv_demo_id_def kDigestSizes_def alg_index_def upt_conv_Cons)

lemma stream_demo:
  obtains b c0 fd c where "ram_demo_new = Some b" "StreamingCacheManager_new stream_demo_params Prng_new 4 b mgr mgr 64 = Some c0"
    "stream_Open stream_demo_object c0 = Some (fd, c)" "stream_rel D c []" "GetHandle fd (stream_fds c) = FdInfo_object stream_demo_object"
    "regular_download_mgr c = mgr" "external_download_mgr c = mgr" "total_size (stream_ring c) = 64"
proof -
  obtain b where b: "ram_demo_new = Some b" "ram_rel b Map.empty (\<lambda>_. [])" using ram_demo by metis
  have "tparams_ok stream_demo_params" by (simp add: tparams_ok_def stream_demo_params_def)
  then obtain c0 where c0: "StreamingCacheManager_new stream_demo_params Prng_new 4 b mgr mgr 64 = Some c0" "stream_rel D c0 []"
    "fd_inv (stream_fds c0)" "fd_abs (stream_fds c0) = Map.empty" "GetMaxFds (stream_fds c0) = 4" "invalid_handle (stream_fds c0) = FdInfo_new"
    "handle_eq (stream_fds c0) = fd_info_equal" "backing c0 = b" "regular_download_mgr c0 = mgr" "external_download_mgr c0 = mgr"
    "total_size (stream_ring c0) = 64"
    by (rule StreamingCacheManager_new_ok[where D = D and n = 4 and sz = 64 and p = Prng_new and b = b and reg = mgr and ext = mgr]) simp_all
  obtain fd t b' where o: "stream_Open stream_demo_object c0 = Some (fd, c0\<lparr>backing := b', stream_fds := t\<rparr>)" "fd_abs t fd = Some (FdInfo_object stream_demo_object)"
    by (rule stream_Open_absent[of c0 Map.empty "\<lambda>_. []" stream_demo_object])
      (use b(2) c0(3-8) kv_demo_key[of 7] in \<open>simp_all add: found_in_def stream_demo_object_def ram_demo_label_def Label_new_def has_flag_def\<close>)
  show thesis
    by (rule that[OF b(1) c0(1) o(1)]) (use c0(2,9-11) o(2) in \<open>simp_all add: GetHandle_abs stream_rel_def\<close>)
qed

theorem stream_reads_witness:
  "\<exists>b c0 fd c1 c2 rs. ram_demo_new = Some b \<and>
    StreamingCacheManager_new stream_demo_params Prng_new 4 b stream_demo_mgr stream_demo_mgr 64 = Some c0 \<and>
    stream_Open stream_demo_object c0 = Some (fd, c1) \<and>
    fold_opt (read_step (\<lambda>_. 0)) [(fd, 8, 4), (fd, 3, 0)] (c1, []) = Some (c2, rs) \<and>
    list_all2 (read_right (\<lambda>_. replicate 10 7)) [(fd, 8, 4), (fd, 3, 0)] rs"
proof -
  let ?D = "\<lambda>_ :: digest. replicate 10 7 :: bytes"
  obtain b c0 fd c where c: "ram_demo_new = Some b" "StreamingCacheManager_new stream_demo_params Prng_new 4 b stream_demo_mgr stream_demo_mgr 64 = Some c0"
    "stream_Open stream_demo_object c0 = Some (fd, c)" "stream_rel ?D c []" "GetHandle fd (stream_fds c) = FdInfo_object stream_demo_object"
    "regular_download_mgr c = stream_demo_mgr" "external_download_mgr c = stream_demo_mgr" "total_size (stream_ring c) = 64" by (rule stream_demo)
  have "label_size (info_label (FdInfo_object stream_demo_object)) = 10" by (simp add: FdInfo_object_def stream_demo_object_def)
  then have fits: "\<not> overruns c (GetHandle fd (stream_fds c))" using stream_demo_fits by (simp add: overruns_def SelectDownloadManager_def c(5-7))
  have "(\<exists>c' rs. fold_opt (read_step (\<lambda>_. 0)) [(fd, 8, 4), (fd, 3, 0)] (c, []) = Some (c', rs) \<and>
      list_all2 (read_right (\<lambda>fd. ?D (any_key (info_object (GetHandle fd (stream_fds c)))))) [(fd, 8, 4), (fd, 3, 0)] rs) \<or>
    fold_opt (read_step (\<lambda>_. 0)) [(fd, 8, 4), (fd, 3, 0)] (c, []) = None \<and>
      (\<exists>(fd, sz, offset) \<in> set [(fd, 8 :: nat, 4 :: nat), (fd, 3, 0)]. overruns c (GetHandle fd (stream_fds c)))"
    by (rule stream_reads[OF c(4)]) (use c(5-8) stream_demo_delivers stream_demo_info in simp_all)
  then have "\<exists>c' rs. fold_opt (read_step (\<lambda>_. 0)) [(fd, 8, 4), (fd, 3, 0)] (c, []) = Some (c', rs) \<and>
      list_all2 (read_right (\<lambda>_. replicate 10 7)) [(fd, 8, 4), (fd, 3, 0)] rs" using fits by auto
  then show ?thesis using c(1-3) by blast
qed

text \<open>
  C38.  The sink does not check how much it is given: if an attempt to download an object that is not in the buffer, and whose
  label states a size that fits the buffer, delivers more bytes than this size, \<open>Write\<close> copies them behind the
  memory for the object.  This happens before the hash is verified, whether or not the download succeeds.
\<close>

theorem stream_download_overflows:
  assumes "stream_rel D c q" "info_ok D (GetHandle fd (stream_fds c))"
    "any_key (info_object (GetHandle fd (stream_fds c))) \<notin> set (map any_key q)"
    "label_size (info_label (GetHandle fd (stream_fds c))) \<noteq> kSizeUnknown"
    "label_size (info_label (GetHandle fd (stream_fds c))) + 36 \<le> total_size (stream_ring c)"
    "offset + sz < 2 ^ 62" "sz \<le> length buf" "stream_job (GetHandle fd (stream_fds c)) = Some job"
    "label_size (info_label (GetHandle fd (stream_fds c))) < length (written [] (take k
       (dl_calls (SelectDownloadManager (GetHandle fd (stream_fds c)) c (nat (stream_counters c S_downloads)) job))))"
  shows "stream_Pread fresh fd buf sz offset c = None"
proof -
  let ?i = "GetHandle fd (stream_fds c)" let ?n = "label_size (info_label ?i)"
  have "total_size (stream_ring c) < 2 ^ 63" using assms(1) by (simp add: stream_rel_def ring_rel_def)
  then have a: "stream_alloc ?i c = (Some (28 + ?n), c)"
    using assms(4,5) by (simp add: stream_alloc_def Let_def sizeof_Any_def GetMaxObjectSize_def size_of_size_t_def)
  have "window_ok offset sz (Some buf)" using assms(6,7) by (simp add: window_ok_def)
  from Stream_overflow[OF assms(1,2) this assms(3) a assms(8), of fresh] assms(9) have "Stream fresh ?i (Some buf) sz offset c = None"
    unfolding calls_within_def by (metis leD)
  then show ?thesis using assms(2) by (simp add: stream_Pread_def Let_def info_ok_def fd_info_IsValid_def)
qed

text \<open>A server that sends one byte too many.\<close>

definition stream_demo_bad_mgr :: download_mgr where
  "stream_demo_bad_mgr n job = \<lparr>dl_calls = [SinkWrite (replicate 11 1)], dl_ok = False, dl_ns = 5\<rparr>"

theorem stream_download_overflows_witness:
  "\<exists>b c0 fd c. ram_demo_new = Some b \<and>
    StreamingCacheManager_new stream_demo_params Prng_new 4 b stream_demo_bad_mgr stream_demo_bad_mgr 64 = Some c0 \<and>
    stream_Open stream_demo_object c0 = Some (fd, c) \<and> stream_Pread (\<lambda>_. 0) fd [0, 0] 2 0 c = None"
proof -
  let ?D = "\<lambda>_ :: digest. replicate 10 7 :: bytes" and ?i = "FdInfo_object stream_demo_object"
  obtain b c0 fd c where c: "ram_demo_new = Some b" "StreamingCacheManager_new stream_demo_params Prng_new 4 b stream_demo_bad_mgr stream_demo_bad_mgr 64 = Some c0"
    "stream_Open stream_demo_object c0 = Some (fd, c)" "stream_rel ?D c []" "GetHandle fd (stream_fds c) = ?i"
    "regular_download_mgr c = stream_demo_bad_mgr" "external_download_mgr c = stream_demo_bad_mgr" "total_size (stream_ring c) = 64" by (rule stream_demo)
  have n: "label_size (info_label ?i) = 10" by (simp add: FdInfo_object_def stream_demo_object_def)
  obtain job where "stream_job ?i = Some job" using stream_job_ok[of ?i] stream_demo_info by (auto simp: info_ok_def)
  then have "stream_Pread (\<lambda>_. 0) fd [0, 0] 2 0 c = None"
    by (intro stream_download_overflows[OF c(4), where k = 1])
      (use c(5-8) n stream_demo_info in \<open>simp_all add: kSizeUnknown_def SelectDownloadManager_def stream_demo_bad_mgr_def\<close>)
  then show ?thesis using c(1-3) by blast
qed

text \<open>
  C39.  \<open>Open\<close> leaks: if the backing cache manager has the object but all descriptors of the streaming cache
  manager are taken, it returns -ENFILE and the descriptor it has opened in the backing cache manager stays open, with its
  reference on the object, although nobody knows it.
\<close>

theorem stream_Open_leaks:
  assumes "ram_rel (backing c) F S" "kv_key_ok (object_id object)" "found_in S (any_key (object_id object)) = Some v"
    "card (dom F) < GetMaxFds (ram_fds (backing c))" "fd_inv (stream_fds c)" "handle_eq (stream_fds c) = fd_info_equal"
    "invalid_handle (stream_fds c) = FdInfo_new" "card (dom (fd_abs (stream_fds c))) = GetMaxFds (stream_fds c)"
  shows "\<exists>fd b'. stream_Open object c = Some (- ENFILE, c\<lparr>backing := b'\<rparr>) \<and> F fd = None \<and>
    ram_rel b' (F(fd \<mapsto> \<lparr>ro_handle = object_id object, is_volatile = v\<rparr>)) (referenced v (any_key (object_id object)) Suc S)"
proof -
  obtain fd b' where b: "DoOpen (object_id object) (backing c) = Some (fd, b')" "0 \<le> fd" "F fd = None"
      "ram_rel b' (F(fd \<mapsto> \<lparr>ro_handle = object_id object, is_volatile = v\<rparr>)) (referenced v (any_key (object_id object)) Suc S)"
    using DoOpen_ok[OF assms(1,2)] assms(3,4) by auto
  have "\<not> handle_eq (stream_fds c) (FdInfo_fd fd) (invalid_handle (stream_fds c))"
    using b(2) by (simp add: assms(6,7) fd_info_equal_def FdInfo_fd_def FdInfo_new_def)
  from OpenFd_errors(2)[OF assms(5) this assms(8)] b show ?thesis by (auto simp: stream_Open_def ram_Open_def Let_def)
qed

theorem stream_Open_leaks_witness:
  "\<exists>b t1 b1 c0 c1 b2. ram_demo_new = Some b \<and> CommitTxn (ram_demo_txn 5 [9]) b = Some (0, t1, b1) \<and>
    StreamingCacheManager_new stream_demo_params Prng_new 1 b1 stream_demo_mgr stream_demo_mgr 64 = Some c0 \<and>
    PlantFd 0 c0 = Some (0, c1) \<and> stream_Open (ram_demo_object 5) c1 = Some (- ENFILE, c1\<lparr>backing := b2\<rparr>) \<and>
    (\<exists>fd. fd_abs (ram_fds b1) fd = None \<and> fd_abs (ram_fds b2) fd \<noteq> None)"
proof -
  obtain b t1 b1 ob where b: "ram_demo_new = Some b" "CommitTxn (ram_demo_txn 5 [9]) b = Some (0, t1, b1)"
    "ram_rel b1 Map.empty ((\<lambda>_. [])(False := [(any_key (kv_demo_id 5), ob)]))" by (rule ram_demo_first)
  have "tparams_ok stream_demo_params" by (simp add: tparams_ok_def stream_demo_params_def)
  then obtain c0 where c0: "StreamingCacheManager_new stream_demo_params Prng_new 1 b1 stream_demo_mgr stream_demo_mgr 64 = Some c0"
    "fd_inv (stream_fds c0)" "fd_abs (stream_fds c0) = Map.empty" "GetMaxFds (stream_fds c0) = 1" "invalid_handle (stream_fds c0) = FdInfo_new"
    "handle_eq (stream_fds c0) = fd_info_equal" "backing c0 = b1"
    by (rule StreamingCacheManager_new_ok[where n = 1 and sz = 64 and p = Prng_new and b = b1 and reg = stream_demo_mgr and ext = stream_demo_mgr]) simp_all
  have "\<not> handle_eq (stream_fds c0) (FdInfo_fd 0) (invalid_handle (stream_fds c0))"
    by (simp add: c0(5,6) fd_info_equal_def FdInfo_fd_def FdInfo_new_def)
  from OpenFd_ok[OF c0(2) this] c0(3,4) obtain fd t where t: "OpenFd (FdInfo_fd 0) (stream_fds c0) = Some (fd, t)" "fd_inv t" "0 \<le> fd" "fd < 1"
    "fd_abs t = Map.empty(fd \<mapsto> FdInfo_fd 0)" "GetMaxFds t = 1" "invalid_handle t = FdInfo_new" "handle_eq t = fd_info_equal"
    using c0(5,6) by auto
  let ?c = "c0\<lparr>stream_fds := t\<rparr>"
  have fd: "fd = 0" using t(3,4) by simp
  have max: "0 < GetMaxFds (ram_fds b1)" using ram_relD(1)[OF b(3)] by (simp add: fd_inv_def GetMaxFds_def)
  have "\<exists>fd b'. stream_Open (ram_demo_object 5) ?c = Some (- ENFILE, ?c\<lparr>backing := b'\<rparr>) \<and> Map.empty fd = (None :: read_only_handle option) \<and>
    ram_rel b' (Map.empty(fd \<mapsto> \<lparr>ro_handle = object_id (ram_demo_object 5), is_volatile = False\<rparr>))
      (referenced False (any_key (object_id (ram_demo_object 5))) Suc ((\<lambda>_. [])(False := [(any_key (kv_demo_id 5), ob)])))"
    by (rule stream_Open_leaks)
      (use b(3) kv_demo_key[of 5] max t c0(7) in \<open>simp_all add: ram_demo_object_def found_in_def\<close>)
  then obtain fd' b2 where o: "stream_Open (ram_demo_object 5) ?c = Some (- ENFILE, ?c\<lparr>backing := b2\<rparr>)" "fd_abs (ram_fds b2) fd' \<noteq> None"
    using ram_relD(2) by fastforce
  have "fd_abs (ram_fds b1) fd' = None" using ram_relD(2)[OF b(3)] by simp
  moreover have "PlantFd 0 c0 = Some (0, ?c)" using t(1) fd by (simp add: PlantFd_def)
  ultimately show ?thesis using b(1,2) c0(1) o by blast
qed

end
