(* ===== verification/OrdMap.thy ===== *)
theory OrdMap
  imports Main
begin

text \<open>
  \<open>std::map\<close>: an association list with strictly ascending keys, which is the order in which the
  iterators of the container walk it.  \<open>om_put\<close> is \<^verbatim>\<open>m[k] = v\<close>, \<open>om_del\<close> is \<^verbatim>\<open>m.erase(k)\<close> and lookup is
  \<open>map_of\<close>.
\<close>

definition om_ok :: "('k::linorder \<times> 'v) list \<Rightarrow> bool" where
  "om_ok m \<longleftrightarrow> sorted_wrt (<) (map fst m)"

fun om_put :: "'k::linorder \<Rightarrow> 'v \<Rightarrow> ('k \<times> 'v) list \<Rightarrow> ('k \<times> 'v) list" where
  "om_put k v [] = [(k, v)]"
| "om_put k v ((k', v') # m) =
     (if k < k' then (k, v) # (k', v') # m else if k = k' then (k, v) # m else (k', v') # om_put k v m)"

definition om_del :: "'k::linorder \<Rightarrow> ('k \<times> 'v) list \<Rightarrow> ('k \<times> 'v) list" where
  "om_del k m = filter (\<lambda>e. fst e \<noteq> k) m"

lemma om_ok_Nil [simp]: "om_ok []"
  by (simp add: om_ok_def)

lemma om_ok_distinct: "om_ok m \<Longrightarrow> distinct (map fst m)"
  by (simp add: om_ok_def strict_sorted_iff)

lemma map_of_om_put [simp]: "map_of (om_put k v m) = (map_of m)(k \<mapsto> v)"
  by (induction k v m rule: om_put.induct) (auto simp: fun_eq_iff)

lemma om_put_keys: "fst ` set (om_put k v m) = insert k (fst ` set m)"
  by (induction k v m rule: om_put.induct) auto

lemma om_put_set: "set (om_put k v m) \<subseteq> insert (k, v) (set m)"
  by (induction k v m rule: om_put.induct) auto

lemma om_put_ok: "om_ok m \<Longrightarrow> om_ok (om_put k v m)"
proof (induction k v m rule: om_put.induct)
  case (2 k v k' v' m)
  then show ?case using om_put_keys[of k v m] by (auto simp: om_ok_def)
qed (simp add: om_ok_def)

lemma om_put_length: "length (om_put k v m) \<le> Suc (length m)"
  by (induction k v m rule: om_put.induct) auto

lemma om_put_length_old: "om_ok m \<Longrightarrow> map_of m k \<noteq> None \<Longrightarrow> length (om_put k v m) = length m"
proof (induction k v m rule: om_put.induct)
  case (2 k v k' v' m)
  have "k' < k" if "map_of m k \<noteq> None" using that 2(2) by (auto simp: om_ok_def dest!: map_of_SomeD)
  with 2 show ?case by (auto simp: om_ok_def split: if_splits)
qed simp

lemma om_put_last: "\<forall>e \<in> set m. fst e < k \<Longrightarrow> om_put k v m = m @ [(k, v)]"
  by (induction k v m rule: om_put.induct) (auto dest: less_asym)

lemma map_of_om_del [simp]: "map_of (om_del k m) = (map_of m)(k := None)"
  by (induction m) (auto simp: om_del_def fun_eq_iff)

lemma om_del_set: "set (om_del k m) \<subseteq> set m"
  by (auto simp: om_del_def)

lemma om_filter_ok: "om_ok m \<Longrightarrow> om_ok (filter P m)"
proof (induction m)
  case (Cons e m)
  then show ?case by (auto simp: om_ok_def)
qed simp

lemma om_del_ok: "om_ok m \<Longrightarrow> om_ok (om_del k m)"
  unfolding om_del_def by (rule om_filter_ok)

lemma om_append_less: "om_ok (m @ e # n) \<Longrightarrow> \<forall>x \<in> set m. fst x < fst e"
  by (auto simp: om_ok_def sorted_wrt_append)

end
