(* ===== verification/Xattr.thy ===== *)
theory Xattr
  imports StringUtil Bytes OrdMap "HOL-Library.Char_ord" "HOL-Library.List_Lexorder"
begin

text \<open>
  Extended attributes, \<^verbatim>\<open>cvmfs/xattr.cc\<close>: the list of attributes of a file and the compact binary form
  in which the catalogs store it.

  The member \<open>xattrs_\<close>, a \<open>std::map\<close> from keys to values, is the state of the class.  A buffer is a
  list of bytes (characters); the memory that \<open>smalloc\<close> returns has arbitrary contents, the parameter
  \<open>fresh\<close>.  A null pointer is \<open>None\<close>, so the results of the operations on buffers carry two options: the
  outer one for a failed assertion or an access out of bounds, the inner one for the pointer.

  The list is well-formed (\<open>xattr_wf\<close>) after every operation; deserialisation is safe on arbitrary
  bytes; and it inverts serialisation, except that a list of 256 attributes, which \<open>Set\<close> admits,
  wraps the 8-bit counter of the header to zero and is lost.
\<close>

section \<open>The list of attributes\<close>

type_synonym xattrs = "(string \<times> string) list"

abbreviation nul :: char where
  "nul \<equiv> CHR 0x00"

definition kVersionSmall :: nat where
  "kVersionSmall = 1"

definition kVersionBig :: nat where
  "kVersionBig = 2"

definition IsSupportedVersion :: "nat \<Rightarrow> bool" where
  "IsSupportedVersion v = (v = kVersionSmall \<or> v = kVersionBig)"

definition xattr_Has :: "string \<Rightarrow> xattrs \<Rightarrow> bool" where
  "xattr_Has key x = (map_of x key \<noteq> None)"

definition xattr_Get :: "string \<Rightarrow> xattrs \<Rightarrow> string option" where
  "xattr_Get key x = (case map_of x key of Some value \<Rightarrow> Some value | None \<Rightarrow> None)"

definition ListKeys :: "xattrs \<Rightarrow> string list" where
  "ListKeys x = fold (\<lambda>e result. result @ [fst e]) x []"

definition ListKeysPosix :: "string \<Rightarrow> xattrs \<Rightarrow> string" where
  "ListKeysPosix merge_with x = (let
     result = (if merge_with \<noteq> [] then
         fold (\<lambda>k result. if k = [] then result
                          else if map_of x k = None then result @ k @ [nul] else result)
           (SplitString merge_with nul) []
       else [])
   in fold (\<lambda>e result. result @ fst e @ [nul]) x result)"

definition xattr_Set :: "string \<Rightarrow> string \<Rightarrow> xattrs \<Rightarrow> bool \<times> xattrs" where
  "xattr_Set key value x =
     (if key = [] then (False, x)
      else if length key > 255 then (False, x)
      else if nul \<in> set key then (False, x)
      else if length value \<ge> 64 * 1024 then (False, x)
      else if map_of x key \<noteq> None then (True, om_put key value x)
      else if length x \<ge> 256 then (False, x)
      else (True, om_put key value x))"

definition xattr_Remove :: "string \<Rightarrow> xattrs \<Rightarrow> bool \<times> xattrs" where
  "xattr_Remove key x = (if map_of x key \<noteq> None then (True, om_del key x) else (False, x))"

definition xattr_IsEmpty :: "xattrs \<Rightarrow> bool" where
  "xattr_IsEmpty x = (x = [])"

definition xattr_Clear :: "xattrs \<Rightarrow> xattrs" where
  "xattr_Clear x = []"

section \<open>The serialised form\<close>

record xattr_header =
  version :: nat
  num_xattrs :: nat

definition XattrHeader_new :: xattr_header where
  "XattrHeader_new = \<lparr>version = kVersionSmall, num_xattrs = 0\<rparr>"

text \<open>The two bytes of the header in memory.\<close>

definition header_bytes :: "xattr_header \<Rightarrow> string" where
  "header_bytes h = [char_of (version h), char_of (num_xattrs h)]"

definition header_of :: "string \<Rightarrow> xattr_header" where
  "header_of bs = \<lparr>version = of_char (bs ! 0), num_xattrs = of_char (bs ! 1)\<rparr>"

definition GetHeaderSize :: "nat \<Rightarrow> nat" where
  "GetHeaderSize ver = (if ver = kVersionBig then 3 else 2)"

text \<open>
  \<open>XattrEntrySerializer::Serialize\<close> at position \<open>to\<close> of the buffer: the number of bytes and the buffer.
\<close>

definition entry_Serialize :: "nat \<Rightarrow> string \<Rightarrow> string \<Rightarrow> nat \<Rightarrow> string \<Rightarrow> (nat \<times> string) option" where
  "entry_Serialize ver key value to buf = do {
     assert_that (length key < 256);
     assert_that (length value < (if ver = kVersionSmall then 256 else 64 * 1024));
     buf \<leftarrow> mem_write buf to [char_of (length key)];
     let to = to + 1;
     (to, buf) \<leftarrow> (if ver = kVersionSmall then do {
         buf \<leftarrow> mem_write buf to [char_of (length value)];
         Some (to + 1, buf)
       } else do {
         assert_that (ver = kVersionBig);
         buf \<leftarrow> mem_write buf to (map char_of (le_bytes 2 (length value)));
         Some (to + 2, buf)
       });
     buf \<leftarrow> mem_write buf to key;
     let to = to + length key;
     buf \<leftarrow> mem_write buf to value;
     Some (GetHeaderSize ver + length key + length value, buf)
   }"

text \<open>
  \<open>XattrEntrySerializer::Deserialize\<close> at position \<open>from\<close>: the number of bytes read, the key and the
  value; zero bytes stand for a malformed entry.
\<close>

definition entry_Deserialize :: "nat \<Rightarrow> string \<Rightarrow> nat \<Rightarrow> nat \<Rightarrow> (nat \<times> string \<times> string) option" where
  "entry_Deserialize ver buf from bufsize =
     (if bufsize < GetHeaderSize ver then Some (0, [], [])
      else do {
        let bufsize = bufsize - GetHeaderSize ver;
        b \<leftarrow> mem_read buf from 1;
        let len_key = of_char (b ! 0);
        let from = from + 1;
        (len_value, from) \<leftarrow> (if ver = kVersionSmall then do {
            b \<leftarrow> mem_read buf from 1;
            Some (of_char (b ! 0), from + 1)
          } else do {
            assert_that (ver = kVersionBig);
            b \<leftarrow> mem_read buf from 2;
            Some (le_value (map of_char b), from + 2)
          });
        if bufsize < len_key + len_value then Some (0, replicate len_key nul, replicate len_value nul)
        else do {
          key \<leftarrow> mem_read buf from len_key;
          value \<leftarrow> mem_read buf (from + len_key) len_value;
          Some (GetHeaderSize ver + len_key + len_value, key, value)
        }
      })"

fun deserialize_loop :: "nat \<Rightarrow> string \<Rightarrow> nat \<Rightarrow> nat \<Rightarrow> nat \<Rightarrow> xattrs \<Rightarrow> xattrs option option" where
  "deserialize_loop ver buf 0 bufpos remain result = Some (Some result)"
| "deserialize_loop ver buf (Suc n) bufpos remain result = do {
     (nbytes, key, value) \<leftarrow> entry_Deserialize ver buf bufpos remain;
     if nbytes = 0 then Some None
     else case xattr_Set key value result of (retval, result) \<Rightarrow>
       if \<not> retval then Some None
       else deserialize_loop ver buf n (bufpos + nbytes) (remain - nbytes) result
   }"

definition xattr_Deserialize :: "string option \<Rightarrow> nat \<Rightarrow> xattrs option option" where
  "xattr_Deserialize inbuf sz = (case inbuf of None \<Rightarrow> Some (Some [])
     | Some buf \<Rightarrow>
       if sz < 2 then Some None
       else do {
         bs \<leftarrow> mem_read buf 0 2;
         let header = header_of bs;
         if \<not> IsSupportedVersion (version header) then Some None
         else deserialize_loop (version header) buf (num_xattrs header) 2 (sz - 2) []
       })"

text \<open>The loop that computes the size of the keys and values and picks the version.\<close>

definition measure_entry :: "string \<times> string \<Rightarrow> nat \<times> xattr_header \<Rightarrow> nat \<times> xattr_header" where
  "measure_entry e s = (case s of (sz, header) \<Rightarrow>
     (u32 (u32 (sz + length (fst e)) + length (snd e)),
      if length (snd e) > 255 then header\<lparr>version := kVersionBig\<rparr> else header))"

definition blacklisted :: "string list option \<Rightarrow> string \<Rightarrow> bool" where
  "blacklisted blacklist key = (case blacklist of None \<Rightarrow> False
     | Some bl \<Rightarrow> list_ex (\<lambda>b. HasPrefix key b True) bl)"

fun serialize_loop :: "string list option \<Rightarrow> xattrs \<Rightarrow> nat \<Rightarrow> xattr_header \<Rightarrow> string \<Rightarrow> (xattr_header \<times> string) option" where
  "serialize_loop blacklist [] bufpos header buf = Some (header, buf)"
| "serialize_loop blacklist ((key, value) # es) bufpos header buf =
     (if blacklisted blacklist key then serialize_loop blacklist es bufpos header buf
      else do {
        (nbytes, buf) \<leftarrow> entry_Serialize (version header) key value bufpos buf;
        serialize_loop blacklist es (bufpos + nbytes) (header\<lparr>num_xattrs := (num_xattrs header + 1) mod 256\<rparr>) buf
      })"

definition xattr_Serialize :: "(nat \<Rightarrow> char) \<Rightarrow> string list option \<Rightarrow> xattrs \<Rightarrow> (string option \<times> nat) option" where
  "xattr_Serialize fresh blacklist x =
     (if x = [] then Some (None, 0)
      else do {
        let (sz, header) = fold measure_entry x (2, XattrHeader_new);
        let sz = u32 (sz + length x * GetHeaderSize (version header));
        let buf = map fresh [0..<sz];
        (header, buf) \<leftarrow> serialize_loop blacklist x 2 (header\<lparr>num_xattrs := 0\<rparr>) buf;
        if num_xattrs header = 0 then Some (None, 0)
        else do {
          buf \<leftarrow> mem_write buf 0 (header_bytes header);
          Some (Some buf, sz)
        }
      })"

text \<open>\<open>XattrEntry\<close>, the in-memory layout of an entry of version 1; \<open>fresh\<close> is its uninitialised array.\<close>

record xattr_entry =
  len_key :: nat
  len_value :: nat
  entry_data :: string

definition XattrEntry_new :: "(nat \<Rightarrow> char) \<Rightarrow> string \<Rightarrow> string \<Rightarrow> xattr_entry option" where
  "XattrEntry_new fresh key value = do {
     let lk = length key mod 256;
     let lv = length value mod 256;
     d \<leftarrow> mem_write (map fresh [0..<512]) 0 (take lk key);
     d \<leftarrow> mem_write d lk (take lv value);
     Some \<lparr>len_key = lk, len_value = lv, entry_data = d\<rparr>
   }"

definition entry_GetKey :: "xattr_entry \<Rightarrow> string option" where
  "entry_GetKey e = (if len_key e = 0 then Some [] else mem_read (entry_data e) 0 (len_key e))"

definition entry_GetSize :: "xattr_entry \<Rightarrow> nat" where
  "entry_GetSize e = (1 + 1 + len_key e + len_value e) mod 2 ^ 16"

definition entry_GetValue :: "xattr_entry \<Rightarrow> string option" where
  "entry_GetValue e = (if len_value e = 0 then Some [] else mem_read (entry_data e) (len_key e) (len_value e))"

text \<open>
  \<open>CreateFromFile\<close>.  The system calls are parameters: \<open>llist n\<close> is \<open>llistxattr\<close> with a buffer of \<open>n\<close>
  bytes (result and buffer contents), \<open>lget key n\<close> is \<open>lgetxattr\<close> (result, \<open>errno\<close> and buffer contents).
  A negative size passed to \<open>smalloc\<close> aborts the process.
\<close>

definition ERANGE :: int where
  "ERANGE = 34"

definition get_value :: "(string \<Rightarrow> nat \<Rightarrow> int \<times> int \<times> string) \<Rightarrow> string \<Rightarrow> (int \<times> string) option" where
  "get_value lget key = (case lget key 255 of (sz_value, err, buffer) \<Rightarrow>
     if sz_value < 0 \<and> err = ERANGE then do {
       let sz_value = fst (lget key 0);
       assert_that (sz_value \<ge> 0);
       let (sz_value, err, buffer) = lget key (nat sz_value);
       Some (sz_value, buffer)
     } else Some (sz_value, buffer))"

definition create_entry ::
  "(string \<Rightarrow> nat \<Rightarrow> int \<times> int \<times> string) \<Rightarrow> string \<Rightarrow> xattrs \<Rightarrow> xattrs option" where
  "create_entry lget key result =
     (if key = [] then Some result
      else do {
        (sz_value, buffer) \<leftarrow> get_value lget key;
        if sz_value \<ge> 0 then do {
          value \<leftarrow> mem_read buffer 0 (nat sz_value);
          Some (snd (xattr_Set key value result))
        } else Some result
      })"

definition CreateFromFile ::
  "(nat \<Rightarrow> int \<times> string) \<Rightarrow> (string \<Rightarrow> nat \<Rightarrow> int \<times> int \<times> string) \<Rightarrow> xattrs option option" where
  "CreateFromFile llist lget = (let sz_list = fst (llist 0) in
     if sz_list < 0 \<or> sz_list > 64 * 1024 then Some None
     else if sz_list = 0 then Some (Some [])
     else let (sz_list, buffer) = llist (nat sz_list) in
       if sz_list < 0 then Some None
       else if sz_list = 0 then Some (Some [])
       else do {
         lst \<leftarrow> mem_read buffer 0 (nat sz_list);
         result \<leftarrow> fold_opt (create_entry lget) (SplitString lst nul) [];
         Some (Some result)
       })"

section \<open>Well-formed lists\<close>

definition valid_entry :: "string \<times> string \<Rightarrow> bool" where
  "valid_entry e \<longleftrightarrow> fst e \<noteq> [] \<and> length (fst e) \<le> 255 \<and> nul \<notin> set (fst e) \<and> length (snd e) < 65536"

definition xattr_wf :: "xattrs \<Rightarrow> bool" where
  "xattr_wf x \<longleftrightarrow> om_ok x \<and> length x \<le> 256 \<and> list_all valid_entry x"

lemma xattr_wf_Nil [simp]: "xattr_wf []"
  by (simp add: xattr_wf_def)

lemma xattr_put_wf:
  assumes "xattr_wf x" "valid_entry (key, value)" "map_of x key \<noteq> None \<or> length x < 256"
  shows "xattr_wf (om_put key value x)"
proof -
  have "length (om_put key value x) \<le> 256"
    using assms om_put_length[of key "value" x] om_put_length_old[of x key "value"] by (auto simp: xattr_wf_def)
  then show ?thesis using assms om_put_set[of key "value" x] om_put_ok[of x key "value"]
    by (auto simp: xattr_wf_def list_all_iff)
qed

lemma xattr_Set_cases:
  assumes "xattr_wf x"
  shows "xattr_Set key value x =
    (if valid_entry (key, value) \<and> (map_of x key \<noteq> None \<or> length x < 256) then (True, om_put key value x) else (False, x))"
  by (auto simp: xattr_Set_def valid_entry_def not_le)

lemma xattr_Set_wf: "xattr_wf x \<Longrightarrow> xattr_wf (snd (xattr_Set key value x))"
  by (simp add: xattr_Set_cases xattr_put_wf)

lemma xattr_filter_wf: "xattr_wf x \<Longrightarrow> xattr_wf (filter P x)"
  using length_filter_le[of P x] by (auto simp: xattr_wf_def om_filter_ok list_all_iff simp del: length_filter_le)

lemma xattr_del_wf: "xattr_wf x \<Longrightarrow> xattr_wf (om_del key x)"
  by (simp add: om_del_def xattr_filter_wf)


section \<open>Entries\<close>

definition entry_bytes :: "nat \<Rightarrow> string \<times> string \<Rightarrow> string" where
  "entry_bytes ver e = char_of (length (fst e)) #
     (if ver = kVersionSmall then [char_of (length (snd e))] else map char_of (le_bytes 2 (length (snd e)))) @ fst e @ snd e"

definition fits_version :: "nat \<Rightarrow> string \<times> string \<Rightarrow> bool" where
  "fits_version ver e \<longleftrightarrow> ver = kVersionSmall \<and> length (snd e) < 256 \<or> ver = kVersionBig"

lemmas version_defs = kVersionSmall_def kVersionBig_def

lemma entry_bytes_length:
  "IsSupportedVersion ver \<Longrightarrow> length (entry_bytes ver e) = GetHeaderSize ver + length (fst e) + length (snd e)"
  by (auto simp: entry_bytes_def GetHeaderSize_def IsSupportedVersion_def version_defs)

lemma le_bytes_2: "le_bytes 2 n = [n mod 256, n div 256 mod 256]"
  by (simp add: numeral_2_eq_2)

lemma split_length: "length ys = a + b \<Longrightarrow> \<exists>y z. ys = y @ z \<and> length y = a \<and> length z = b"
  by (rule exI[of _ "take a ys"], rule exI[of _ "drop a ys"]) simp

lemma entry_Serialize_at:
  assumes "valid_entry e" "fits_version ver e" "to = length xs" "length ys = length (entry_bytes ver e)"
  shows "entry_Serialize ver (fst e) (snd e) to (xs @ ys @ zs) =
    Some (length (entry_bytes ver e), xs @ entry_bytes ver e @ zs)"
proof -
  have sup: "IsSupportedVersion ver" using assms(2) by (auto simp: fits_version_def IsSupportedVersion_def)
  define h where "h = (if ver = kVersionSmall then [char_of (length (snd e))] else map char_of (le_bytes 2 (length (snd e)))) "
  have hl: "Suc (length h) = GetHeaderSize ver" using sup by (auto simp: h_def GetHeaderSize_def IsSupportedVersion_def version_defs)
  have b: "entry_bytes ver e = [char_of (length (fst e))] @ h @ fst e @ snd e" by (simp add: entry_bytes_def h_def)
  obtain y1 r1 where r1: "ys = y1 @ r1" "length y1 = 1" "length r1 = length h + (length (fst e) + length (snd e))"
    using split_length[of ys 1 "length h + (length (fst e) + length (snd e))"] assms(4) by (auto simp: b)
  obtain y2 r2 where r2: "r1 = y2 @ r2" "length y2 = length h" "length r2 = length (fst e) + length (snd e)"
    using split_length[OF r1(3)] by auto
  obtain y3 y4 where r3: "r2 = y3 @ y4" "length y3 = length (fst e)" "length y4 = length (snd e)"
    using split_length[OF r2(3)] by auto
  note ys = r1(1,2) r2(1,2) r3
  have w1: "mem_write (xs @ ys @ zs) to [c] = Some ((xs @ [c]) @ y2 @ (y3 @ y4 @ zs))" for c
    using mem_write_at[of to xs "[c]" y1 "y2 @ y3 @ y4 @ zs"] assms(3) ys by simp
  have w2: "mem_write ((xs @ [c]) @ y2 @ (y3 @ y4 @ zs)) (to + 1) h = Some ((xs @ [c] @ h) @ y3 @ (y4 @ zs))" for c
    using mem_write_at[of "to + 1" "xs @ [c]" h y2 "y3 @ y4 @ zs"] assms(3) ys by simp
  have w3: "mem_write ((xs @ [c] @ h) @ y3 @ (y4 @ zs)) (to + 1 + length h) (fst e) = Some ((xs @ [c] @ h @ fst e) @ y4 @ zs)" for c
    using mem_write_at[of "to + 1 + length h" "xs @ [c] @ h" "fst e" y3 "y4 @ zs"] assms(3) ys by simp
  have w4: "mem_write ((xs @ [c] @ h @ fst e) @ y4 @ zs) (to + 1 + length h + length (fst e)) (snd e) = Some (xs @ [c] @ h @ fst e @ snd e @ zs)" for c
    using mem_write_at[of "to + 1 + length h + length (fst e)" "xs @ [c] @ h @ fst e" "snd e" y4 zs] assms(3) ys by simp
  have len: "length (entry_bytes ver e) = GetHeaderSize ver + length (fst e) + length (snd e)" by (rule entry_bytes_length[OF sup])
  show ?thesis
  proof (cases "ver = kVersionSmall")
    case True
    then have h: "h = [char_of (length (snd e))]" by (simp add: h_def)
    show ?thesis using True assms(1,2) w1 w2[unfolded h] w3[unfolded h] w4[unfolded h] len
      by (simp add: entry_Serialize_def valid_entry_def fits_version_def Let_def entry_bytes_def version_defs)
  next
    case False
    then have h: "h = map char_of (le_bytes 2 (length (snd e)))" by (simp add: h_def)
    show ?thesis using False assms(1,2) w1 w2[unfolded h] w3[unfolded h] w4[unfolded h] len
      by (simp add: entry_Serialize_def valid_entry_def fits_version_def Let_def entry_bytes_def version_defs add.assoc)
  qed
qed

lemma entry_Deserialize_at:
  assumes "valid_entry e" "fits_version ver e" "from = length xs" "length (entry_bytes ver e) \<le> remain"
  shows "entry_Deserialize ver (xs @ entry_bytes ver e @ zs) from remain = Some (length (entry_bytes ver e), e)"
proof -
  have sup: "IsSupportedVersion ver" using assms(2) by (auto simp: fits_version_def IsSupportedVersion_def)
  have k: "of_char (char_of (length (fst e)) :: char) = length (fst e)" using assms(1) by (simp add: valid_entry_def)
  have len: "length (entry_bytes ver e) = GetHeaderSize ver + length (fst e) + length (snd e)" by (rule entry_bytes_length[OF sup])
  define h where "h = (if ver = kVersionSmall then [char_of (length (snd e))] else map char_of (le_bytes 2 (length (snd e))) :: string)"
  have b: "entry_bytes ver e = [char_of (length (fst e))] @ h @ fst e @ snd e" by (simp add: entry_bytes_def h_def)
  let ?buf = "xs @ entry_bytes ver e @ zs"
  have r1: "mem_read ?buf from 1 = Some [char_of (length (fst e))]"
    using mem_read_at[of "from" xs 1 "[char_of (length (fst e))]"] assms(3) by (simp add: b)
  have r2: "mem_read ?buf (from + 1) (length h) = Some h"
    using mem_read_at[of "from + 1" "xs @ [char_of (length (fst e))]" "length h" h "fst e @ snd e @ zs"] assms(3) by (simp add: b)
  have r3: "mem_read ?buf (from + 1 + length h) (length (fst e)) = Some (fst e)"
    using mem_read_at[of "from + 1 + length h" "xs @ [char_of (length (fst e))] @ h" "length (fst e)" "fst e" "snd e @ zs"] assms(3) by (simp add: b)
  have r4: "mem_read ?buf (from + 1 + length h + length (fst e)) (length (snd e)) = Some (snd e)"
    using mem_read_at[of "from + 1 + length h + length (fst e)" "xs @ [char_of (length (fst e))] @ h @ fst e" "length (snd e)" "snd e" zs] assms(3)
    by (simp add: b)
  show ?thesis
  proof (cases "ver = kVersionSmall")
    case True
    then have h: "h = [char_of (length (snd e))]" "length h = 1" by (simp_all add: h_def)
    show ?thesis using True assms(2,4) k len r1 r2[unfolded h] r3[unfolded h] r4[unfolded h]
      by (simp add: entry_Deserialize_def fits_version_def Let_def GetHeaderSize_def version_defs)
  next
    case False
    then have h: "h = map char_of (le_bytes 2 (length (snd e)))" "length h = 2" by (simp_all add: h_def)
    have v: "le_value (map of_char h) = length (snd e)"
      using assms(1) less_mult_imp_div_less[of "length (snd e)" 256 256] by (simp add: h(1) le_bytes_2 valid_entry_def)
    show ?thesis using False assms(2,4) k len r1 r2[unfolded h(2)] r3[unfolded h(2)] r4[unfolded h(2)] v
      by (simp add: entry_Deserialize_def fits_version_def Let_def GetHeaderSize_def version_defs)
  qed
qed

text \<open>On arbitrary bytes: no access out of bounds, and no more bytes are consumed than remain.\<close>

lemma mem_read_in: "p + n \<le> length mem \<Longrightarrow> mem_read mem p n = Some (take n (drop p mem))"
  by (simp add: mem_read_def)

lemma entry_Deserialize_safe:
  assumes "IsSupportedVersion ver" "from + remain = length buf"
  shows "\<exists>nbytes key val. entry_Deserialize ver buf from remain = Some (nbytes, key, val) \<and> nbytes \<le> remain"
proof (cases "remain < GetHeaderSize ver")
  case False
  define lk :: nat where "lk = of_char (take 1 (drop from buf) ! 0)"
  define lv :: nat where "lv = (if ver = kVersionSmall then of_char (take 1 (drop (from + 1) buf) ! 0)
    else le_value (map of_char (take 2 (drop (from + 1) buf))))"
  have "entry_Deserialize ver buf from remain =
    (if remain - GetHeaderSize ver < lk + lv then Some (0, replicate lk nul, replicate lv nul)
     else do { key \<leftarrow> mem_read buf (from + GetHeaderSize ver) lk; val \<leftarrow> mem_read buf (from + GetHeaderSize ver + lk) lv;
            Some (GetHeaderSize ver + lk + lv, key, val) })"
    using assms False
    by (auto simp: entry_Deserialize_def Let_def lk_def lv_def IsSupportedVersion_def GetHeaderSize_def version_defs mem_read_in numeral_3_eq_3 numeral_2_eq_2)
  then show ?thesis using assms(2) False by (auto simp: mem_read_in)
qed (simp add: entry_Deserialize_def)

section \<open>The loops\<close>

lemma deserialize_loop_safe:
  assumes "IsSupportedVersion ver" "bufpos + remain = length buf" "xattr_wf x"
  shows "\<exists>r. deserialize_loop ver buf n bufpos remain x = Some r \<and> (\<forall>y. r = Some y \<longrightarrow> xattr_wf y)"
  using assms(2,3)
proof (induction n arbitrary: bufpos remain x)
  case (Suc n)
  obtain nbytes key val where d: "entry_Deserialize ver buf bufpos remain = Some (nbytes, key, val)" "nbytes \<le> remain"
    using entry_Deserialize_safe[OF assms(1) Suc.prems(1)] by auto
  obtain ok y where s: "xattr_Set key val x = (ok, y)" by force
  then have "xattr_wf y" using xattr_Set_wf[OF Suc.prems(2), of key val] by simp
  from Suc.IH[OF _ this, of "bufpos + nbytes" "remain - nbytes"] Suc.prems(1) d s show ?case by simp
qed simp

lemma deserialize_loop_at:
  assumes "list_all valid_entry es" "list_all (fits_version ver) es" "bufpos = length xs"
    "length (concat (map (entry_bytes ver) es)) \<le> remain" "om_ok (x @ es)" "length (x @ es) \<le> 256"
    "list_all valid_entry x"
  shows "deserialize_loop ver (xs @ concat (map (entry_bytes ver) es) @ zs) (length es) bufpos remain x = Some (Some (x @ es))"
  using assms
proof (induction es arbitrary: xs bufpos remain x)
  case (Cons e es)
  let ?rest = "concat (map (entry_bytes ver) es) @ zs"
  have d: "entry_Deserialize ver (xs @ entry_bytes ver e @ ?rest) bufpos remain = Some (length (entry_bytes ver e), fst e, snd e)"
    using entry_Deserialize_at[of e ver bufpos xs remain ?rest] Cons.prems by simp
  have less: "\<forall>y \<in> set x. fst y < fst e" using om_append_less[of x e es] Cons.prems(5) by simp
  then have put: "om_put (fst e) (snd e) x = x @ [e]" using om_put_last[of x "fst e" "snd e"] by simp
  have wf: "xattr_wf x" using Cons.prems by (auto simp: xattr_wf_def om_ok_def sorted_wrt_append)
  have s: "xattr_Set (fst e) (snd e) x = (True, x @ [e])" using xattr_Set_cases[OF wf, of "fst e" "snd e"] Cons.prems put by simp
  have pos: "length (entry_bytes ver e) \<noteq> 0" by (simp add: entry_bytes_def)
  have rem: "length (concat (map (entry_bytes ver) es)) \<le> remain - length (entry_bytes ver e)" using Cons.prems(4) by simp
  show ?case
    using Cons.IH[OF _ _ _ rem, of "bufpos + length (entry_bytes ver e)" "xs @ entry_bytes ver e" "x @ [e]"]
      Cons.prems d s pos by (simp add: case_prod_unfold)
qed simp

definition kept :: "string list option \<Rightarrow> xattrs \<Rightarrow> xattrs" where
  "kept blacklist x = filter (\<lambda>e. \<not> blacklisted blacklist (fst e)) x"

lemma serialize_loop_at:
  assumes "list_all valid_entry es" "list_all (fits_version (version h)) es" "bufpos = length xs"
    "length (concat (map (entry_bytes (version h)) es)) \<le> length ys" "num_xattrs h < 256"
  shows "\<exists>zs. serialize_loop bl es bufpos h (xs @ ys) =
      Some (h\<lparr>num_xattrs := (num_xattrs h + length (kept bl es)) mod 256\<rparr>, xs @ concat (map (entry_bytes (version h)) (kept bl es)) @ zs)
    \<and> length (concat (map (entry_bytes (version h)) (kept bl es)) @ zs) = length ys"
  using assms
proof (induction es arbitrary: xs ys bufpos h)
  case Nil
  then show ?case by (simp add: kept_def)
next
  case (Cons e es)
  show ?case
  proof (cases "blacklisted bl (fst e)")
    case True
    then show ?thesis using Cons.IH[of h bufpos xs ys] Cons.prems by (cases e) (simp add: kept_def)
  next
    case False
    let ?b = "entry_bytes (version h) e" and ?h = "h\<lparr>num_xattrs := (num_xattrs h + 1) mod 256\<rparr>"
    obtain y ys' where y: "ys = y @ ys'" "length y = length ?b"
      using split_length[of ys "length ?b" "length ys - length ?b"] Cons.prems(4) by auto
    have s: "entry_Serialize (version h) (fst e) (snd e) bufpos (xs @ ys) = Some (length ?b, xs @ ?b @ ys')"
      using entry_Serialize_at[of e "version h" bufpos xs y ys'] Cons.prems(1-3) y by simp
    have room: "length (concat (map (entry_bytes (version h)) es)) \<le> length ys'" using Cons.prems(4) y by simp
    have prems: "list_all valid_entry es" "list_all (fits_version (version ?h)) es" "bufpos + length ?b = length (xs @ ?b)"
      "length (concat (map (entry_bytes (version ?h)) es)) \<le> length ys'" "num_xattrs ?h < 256"
      using Cons.prems(1-3) room by simp_all
    obtain zs where zs: "serialize_loop bl es (bufpos + length ?b) ?h ((xs @ ?b) @ ys') =
        Some (?h\<lparr>num_xattrs := (num_xattrs ?h + length (kept bl es)) mod 256\<rparr>, (xs @ ?b) @ concat (map (entry_bytes (version h)) (kept bl es)) @ zs)"
        "length (concat (map (entry_bytes (version h)) (kept bl es)) @ zs) = length ys'"
      using Cons.IH[OF prems] by (elim exE conjE) (rule that, simp_all)
    have k: "kept bl (e # es) = e # kept bl es" using False by (simp add: kept_def)
    have loop: "serialize_loop bl (e # es) bufpos h (xs @ ys) = serialize_loop bl es (bufpos + length ?b) ?h ((xs @ ?b) @ ys')"
      using False s by (cases e) simp
    show ?thesis unfolding loop k zs(1)
      by (rule exI[of _ zs]) (use zs(2) y(2) in \<open>simp add: y(1) mod_simps\<close>)
  qed
qed

text \<open>The size that is computed is enough, and the version fits all entries.\<close>

lemma measure_fold:
  assumes "sz + sum_list (map (\<lambda>e. length (fst e) + length (snd e)) x) < 2 ^ 32"
  shows "fold measure_entry x (sz, h) =
    (sz + sum_list (map (\<lambda>e. length (fst e) + length (snd e)) x),
     if list_ex (\<lambda>e. length (snd e) > 255) x then h\<lparr>version := kVersionBig\<rparr> else h)"
  using assms
proof (induction x arbitrary: sz h)
  case (Cons e x)
  have "measure_entry e (sz, h) = (sz + (length (fst e) + length (snd e)), if length (snd e) > 255 then h\<lparr>version := kVersionBig\<rparr> else h)"
    using Cons.prems by (simp add: measure_entry_def)
  then show ?case using Cons.IH[of "sz + (length (fst e) + length (snd e))"] Cons.prems by (simp add: add.assoc)
qed simp

lemma sum_list_bound: "list_all (\<lambda>e. f e \<le> (c::nat)) xs \<Longrightarrow> sum_list (map f xs) \<le> length xs * c"
  by (induction xs) auto

lemma concat_entry_length:
  "IsSupportedVersion ver \<Longrightarrow> length (concat (map (entry_bytes ver) x)) =
     sum_list (map (\<lambda>e. length (fst e) + length (snd e)) x) + length x * GetHeaderSize ver"
  by (induction x) (auto simp: entry_bytes_length)

section \<open>Round trip\<close>

lemma Serialize_kept:
  assumes "xattr_wf x" "x \<noteq> []"
  obtains ver buf zs where "xattr_Serialize fresh bl x = Some (if length (kept bl x) mod 256 = 0 then (None, 0) else (Some buf, length buf))"
    "buf = header_bytes \<lparr>version = ver, num_xattrs = length (kept bl x) mod 256\<rparr> @ concat (map (entry_bytes ver) (kept bl x)) @ zs"
    "IsSupportedVersion ver" "list_all (fits_version ver) x"
proof -
  define s where "s = sum_list (map (\<lambda>e. length (fst e) + length (snd e)) x)"
  define h where "h = (if list_ex (\<lambda>e. length (snd e) > 255) x then XattrHeader_new\<lparr>version := kVersionBig\<rparr> else XattrHeader_new)"
  have v: "IsSupportedVersion (version h)" "list_all (fits_version (version h)) x" "num_xattrs h = 0"
    by (auto simp: h_def XattrHeader_new_def IsSupportedVersion_def fits_version_def list_ex_iff list_all_iff version_defs)
  have "list_all (\<lambda>e. length (fst e) + length (snd e) \<le> 65790) x"
    using assms(1) by (auto simp: xattr_wf_def valid_entry_def list_all_iff)
  from sum_list_bound[OF this] assms(1) have s: "s \<le> 16842240" by (auto simp: s_def xattr_wf_def)
  have m: "fold measure_entry x (2, XattrHeader_new) = (2 + s, h)"
    using measure_fold[of 2 x XattrHeader_new] s by (simp add: s_def h_def)
  let ?n = "s + length x * GetHeaderSize (version h)"
  have n: "length x * GetHeaderSize (version h) \<le> 768" using assms(1) by (auto simp: xattr_wf_def GetHeaderSize_def)
  have sz: "u32 (2 + s + length x * GetHeaderSize (version h)) = 2 + ?n" using s n by simp
  obtain y ys where y: "map fresh [0..<2 + ?n] = y @ ys" "length y = 2" "length ys = ?n"
    using split_length[of "map fresh [0..<2 + ?n]" 2 ?n] by auto
  obtain zs where zs: "serialize_loop bl x 2 h (y @ ys) =
      Some (h\<lparr>num_xattrs := length (kept bl x) mod 256\<rparr>, y @ concat (map (entry_bytes (version h)) (kept bl x)) @ zs)"
      "length (concat (map (entry_bytes (version h)) (kept bl x)) @ zs) = ?n"
    using serialize_loop_at[of x h 2 y ys bl] v assms(1) y concat_entry_length[OF v(1), of x] by (auto simp: xattr_wf_def s_def)
  let ?h = "\<lparr>version = version h, num_xattrs = length (kept bl x) mod 256\<rparr>"
  let ?c = "concat (map (entry_bytes (version h)) (kept bl x)) @ zs"
  have w: "mem_write (y @ ?c) 0 (header_bytes ?h) = Some (header_bytes ?h @ ?c)"
    using mem_write_at[of 0 "[]" "header_bytes ?h" y ?c] y(2) by (simp add: header_bytes_def)
  have h0: "h\<lparr>num_xattrs := 0\<rparr> = h" "h\<lparr>num_xattrs := length (kept bl x) mod 256\<rparr> = ?h" using v(3) by (cases h, simp)+
  have "xattr_Serialize fresh bl x = Some (if length (kept bl x) mod 256 = 0 then (None, 0) else (Some (header_bytes ?h @ ?c), length (header_bytes ?h @ ?c)))"
    using assms(2) m sz y(1) zs w h0 by (simp add: xattr_Serialize_def header_bytes_def)
  from that[OF this refl v(1,2)] show thesis .
qed

text \<open>
  C10.  Round trip: serialising a well-formed list of attributes and reading the result back gives the
  attributes that are not blacklisted, in order, whatever the memory of the buffer held before -
  unless 256 attributes are to be written: the number in the header is a byte, it wraps to zero and
  everything is dropped.
\<close>

theorem xattr_round_trip:
  assumes "xattr_wf x"
  shows "(do { (buf, sz) \<leftarrow> xattr_Serialize fresh blacklist x; xattr_Deserialize buf sz }) =
    Some (Some (let k = filter (\<lambda>(key, _). \<not> blacklisted blacklist key) x in if length k = 256 then [] else k))"
proof (cases "x = []")
  case True
  then show ?thesis by (simp add: xattr_Serialize_def xattr_Deserialize_def Let_def)
next
  case False
  have k: "filter (\<lambda>(key, _). \<not> blacklisted blacklist key) x = kept blacklist x" by (simp add: kept_def case_prod_unfold)
  have kw: "xattr_wf (kept blacklist x)" unfolding kept_def by (rule xattr_filter_wf[OF assms])
  obtain ver buf zs where s: "xattr_Serialize fresh blacklist x = Some (if length (kept blacklist x) mod 256 = 0 then (None, 0) else (Some buf, length buf))"
    "buf = header_bytes \<lparr>version = ver, num_xattrs = length (kept blacklist x) mod 256\<rparr> @ concat (map (entry_bytes ver) (kept blacklist x)) @ zs"
    "IsSupportedVersion ver" "list_all (fits_version ver) x"
    using Serialize_kept[OF assms False] by metis
  have le: "length (kept blacklist x) \<le> 256" using kw by (simp add: xattr_wf_def)
  show ?thesis
  proof (cases "length (kept blacklist x) mod 256 = 0")
    case True
    then have "length (kept blacklist x) = 0 \<or> length (kept blacklist x) = 256"
      using le mod_less[of "length (kept blacklist x)" 256] by linarith
    with True s(1) show ?thesis unfolding k by (auto simp: xattr_Deserialize_def Let_def)
  next
    case False
    then have n: "length (kept blacklist x) < 256" using le by (cases "length (kept blacklist x) = 256") auto
    let ?h = "\<lparr>version = ver, num_xattrs = length (kept blacklist x)\<rparr>"
    let ?c = "concat (map (entry_bytes ver) (kept blacklist x))"
    have hl: "length (header_bytes ?h) = 2" "header_of (header_bytes ?h) = ?h"
      using n s(3) by (auto simp: header_bytes_def header_of_def IsSupportedVersion_def version_defs)
    have "list_all (fits_version ver) (kept blacklist x)" using s(4) by (auto simp: kept_def list_all_iff)
    with deserialize_loop_at[of "kept blacklist x" ver 2 "header_bytes ?h" "length buf - 2" "[]" zs] kw hl n s(2)
    have "deserialize_loop ver buf (length (kept blacklist x)) 2 (length buf - 2) [] = Some (Some (kept blacklist x))"
      by (simp add: xattr_wf_def)
    moreover have "mem_read buf 0 2 = Some (header_bytes ?h)" "2 \<le> length buf"
      using mem_read_at[of 0 "[]" 2 "header_bytes ?h" "?c @ zs"] hl(1) n s(2) by simp_all
    ultimately have "xattr_Deserialize (Some buf) (length buf) = Some (Some (kept blacklist x))"
      using hl(2) s(3) by (simp add: xattr_Deserialize_def)
    with s(1) False n show ?thesis unfolding k by (simp add: Let_def)
  qed
qed

theorem xattr_round_trip_witness:
  "(do { (buf, sz) \<leftarrow> xattr_Serialize (\<lambda>_. CHR ''?'') (Some [''SECURITY.'']) [(''security.ima'', ''x''), (''user.a'', ''1'')];
         xattr_Deserialize buf sz }) = Some (Some [(''user.a'', ''1'')])"
proof -
  have b: "blacklisted (Some [''SECURITY.'']) ''security.ima''" "\<not> blacklisted (Some [''SECURITY.'']) ''user.a''" by code_simp+
  have "xattr_wf [(''security.ima'', ''x''), (''user.a'', ''1'')]"
    by (simp add: xattr_wf_def om_ok_def valid_entry_def)
  from xattr_round_trip[OF this, of "\<lambda>_. CHR ''?''" "Some [''SECURITY.'']"] b show ?thesis by simp
qed

text \<open>
  C21.  Deserialisation is safe on arbitrary bytes: it never reads outside the buffer nor fails an
  assertion, and what it returns is the null pointer or a well-formed list of attributes.
\<close>

theorem xattr_Deserialize_safe:
  "\<exists>r. xattr_Deserialize (Some buf) (length buf) = Some r \<and> (case r of None \<Rightarrow> True | Some x \<Rightarrow> xattr_wf x)"
proof (cases "length buf < 2")
  case False
  let ?h = "header_of (take 2 buf)"
  have d: "xattr_Deserialize (Some buf) (length buf) = (if \<not> IsSupportedVersion (version ?h) then Some None
      else deserialize_loop (version ?h) buf (num_xattrs ?h) 2 (length buf - 2) [])"
    using False by (simp add: xattr_Deserialize_def mem_read_in Let_def)
  have "IsSupportedVersion (version ?h) \<Longrightarrow> \<exists>r. deserialize_loop (version ?h) buf (num_xattrs ?h) 2 (length buf - 2) [] = Some r \<and>
      (\<forall>y. r = Some y \<longrightarrow> xattr_wf y)"
    using False by (intro deserialize_loop_safe) auto
  then show ?thesis unfolding d by (cases "IsSupportedVersion (version ?h)") (auto split: option.split)
qed (simp add: xattr_Deserialize_def)

section \<open>Histories\<close>

datatype xattr_op = XSet string string | XRemove string | XClear

definition xattr_step :: "xattr_op \<Rightarrow> xattrs \<Rightarrow> xattrs" where
  "xattr_step op x = (case op of XSet k v \<Rightarrow> snd (xattr_Set k v x) | XRemove k \<Rightarrow> snd (xattr_Remove k x) | XClear \<Rightarrow> xattr_Clear x)"

text \<open>
  The limits: 256 attributes, names of 1 to 255 bytes without zero, values below 64 kB (the documentation allows
  64 kB, the code does not).
\<close>

definition xattr_spec :: "xattr_op \<Rightarrow> (string \<rightharpoonup> string) \<Rightarrow> (string \<rightharpoonup> string)" where
  "xattr_spec op m = (case op of
       XSet k v \<Rightarrow> if valid_entry (k, v) \<and> (k \<in> dom m \<or> card (dom m) < 256) then m(k \<mapsto> v) else m
     | XRemove k \<Rightarrow> m(k := None)
     | XClear \<Rightarrow> Map.empty)"

lemma card_dom_om: "om_ok x \<Longrightarrow> card (dom (map_of x)) = length x"
  using om_ok_distinct[of x] by (metis dom_map_of_conv_image_fst distinct_card length_map set_map)

lemma xattr_step_ok: "xattr_wf x \<Longrightarrow> xattr_wf (xattr_step op x) \<and> map_of (xattr_step op x) = xattr_spec op (map_of x)"
  using card_dom_om[of x] xattr_wf_def[of x]
  by (cases op)
    (auto simp: xattr_step_def xattr_spec_def xattr_Set_cases xattr_put_wf xattr_Remove_def xattr_del_wf
      xattr_Clear_def domIff fun_eq_iff)

lemma ListKeys_map: "ListKeys x = map fst x"
proof -
  have "fold (\<lambda>e result. result @ [fst e]) x ks = ks @ map fst x" for ks by (induction x arbitrary: ks) auto
  then show ?thesis by (simp add: ListKeys_def)
qed

text \<open>
  C22.  After every sequence of \<open>Set\<close>, \<open>Remove\<close> and \<open>Clear\<close> the list is well-formed, \<open>Get\<close> and \<open>Has\<close> answer
  like a map on which \<open>Set\<close> outside the documented limits has no effect, and \<open>ListKeys\<close> returns the keys
  in ascending order.
\<close>

theorem xattr_history:
  "xattr_wf (fold xattr_step ops []) \<and>
   (\<forall>k. xattr_Get k (fold xattr_step ops []) = fold xattr_spec ops Map.empty k \<and>
        xattr_Has k (fold xattr_step ops []) = (fold xattr_spec ops Map.empty k \<noteq> None)) \<and>
   ListKeys (fold xattr_step ops []) = sorted_list_of_set (dom (fold xattr_spec ops Map.empty))"
proof -
  have "xattr_wf (fold xattr_step ops x) \<and> map_of (fold xattr_step ops x) = fold xattr_spec ops (map_of x)" if "xattr_wf x" for x
    using that
  proof (induction ops arbitrary: x)
    case (Cons op ops)
    then show ?case using xattr_step_ok[of x op] by simp
  qed simp
  from this[of "[]"] have wf: "xattr_wf (fold xattr_step ops [])" and m: "map_of (fold xattr_step ops []) = fold xattr_spec ops Map.empty"
    by simp_all
  have "sorted_list_of_set (dom (map_of (fold xattr_step ops []))) = map fst (fold xattr_step ops [])"
    using wf by (simp add: xattr_wf_def om_ok_def dom_map_of_conv_image_fst flip: set_map)
      (metis sorted_list_of_set.idem_if_sorted_distinct strict_sorted_iff)
  with wf m show ?thesis by (simp add: xattr_Get_def xattr_Has_def ListKeys_map split: option.split)
qed

section \<open>The POSIX list of keys\<close>

lemma concat_nul_join: "concat (map (\<lambda>k. k @ [d]) ks) = JoinStrings (ks @ [[]]) [d]"
  by (induction ks) (auto simp: JoinStrings_Cons)

text \<open>
  Splitting the list at the zero bytes gives the names of \<open>merge_with\<close> that the list does not have,
  then its own keys.
\<close>

lemma ListKeysPosix_splits:
  assumes "xattr_wf x"
  shows "filter (\<lambda>k. k \<noteq> []) (SplitString (ListKeysPosix merge_with x) nul) =
    filter (\<lambda>k. k \<noteq> [] \<and> \<not> xattr_Has k x) (SplitString merge_with nul) @ ListKeys x"
proof -
  define ms where "ms = filter (\<lambda>k. k \<noteq> [] \<and> \<not> xattr_Has k x) (SplitString merge_with nul)"
  have f1: "fold (\<lambda>k result. if k = [] then result else if map_of x k = None then result @ k @ [nul] else result) l r
      = r @ concat (map (\<lambda>k. k @ [nul]) (filter (\<lambda>k. k \<noteq> [] \<and> \<not> xattr_Has k x) l))" for l r
    by (induction l arbitrary: r) (auto simp: xattr_Has_def)
  have f2: "fold (\<lambda>e result. result @ fst e @ [nul]) y r = r @ concat (map (\<lambda>k. k @ [nul]) (map fst y))" for r and y :: xattrs
    by (induction y arbitrary: r) auto
  have "ListKeysPosix merge_with x = concat (map (\<lambda>k. k @ [nul]) (ms @ map fst x))"
    by (auto simp: ListKeysPosix_def Let_def f1 f2 ms_def SplitString_Nil)
  moreover have "\<forall>k \<in> set (ms @ map fst x). k \<noteq> [] \<and> nul \<notin> set k"
    using assms SplitString_free[of _ merge_with nul] by (auto simp: ms_def xattr_wf_def list_all_iff valid_entry_def)
  moreover have "concat (map (\<lambda>k. k @ [nul]) (ms @ map fst x)) = JoinStrings ((ms @ map fst x) @ [[]]) [nul]" by (rule concat_nul_join)
  ultimately have "SplitString (ListKeysPosix merge_with x) nul = (ms @ map fst x) @ [[]]" "filter (\<lambda>k. k \<noteq> []) (ms @ map fst x) = ms @ map fst x"
    using SplitString_JoinStrings[of "(ms @ map fst x) @ [[]]" nul] by (auto simp del: filter_append map_append append_assoc)
  then show ?thesis by (simp add: ListKeys_map ms_def)
qed

section \<open>In-memory entries\<close>

lemma XattrEntry_fields:
  assumes "length key \<le> 255" "length val \<le> 255"
  obtains e where "XattrEntry_new fresh key val = Some e" "entry_GetKey e = Some key" "entry_GetValue e = Some val"
    "entry_GetSize e = length (entry_bytes kVersionSmall (key, val))"
proof -
  obtain d1 r where d1: "map fresh [0..<512] = d1 @ r" "length d1 = length key" "length r = length val + (512 - length key - length val)"
    using split_length[of "map fresh [0..<512]" "length key" "length val + (512 - length key - length val)"] assms by auto
  obtain d2 d3 where d2: "r = d2 @ d3" "length d2 = length val" using split_length[OF d1(3)] by auto
  have w1: "mem_write (map fresh [0..<512]) 0 key = Some (key @ d2 @ d3)"
    using mem_write_at[of 0 "[]" key d1 "d2 @ d3"] d1 d2 by simp
  have w2: "mem_write (key @ d2 @ d3) (length key) val = Some (key @ val @ d3)"
    using mem_write_at[of "length key" key val d2 d3] d2 by simp
  let ?e = "\<lparr>len_key = length key, len_value = length val, entry_data = key @ val @ d3\<rparr>"
  have "XattrEntry_new fresh key val = Some ?e" using assms w1 w2 by (simp add: XattrEntry_new_def)
  moreover have "entry_GetKey ?e = Some key" "entry_GetValue ?e = Some val"
    using mem_read_at[of 0 "[]" "length key" key "val @ d3"] mem_read_at[of "length key" key "length val" val d3]
    by (auto simp: entry_GetKey_def entry_GetValue_def)
  moreover have "entry_GetSize ?e = length (entry_bytes kVersionSmall (key, val))" using assms by (simp add: entry_GetSize_def entry_bytes_def)
  ultimately show thesis by (rule that)
qed

section \<open>Reading the attributes of a file\<close>

lemma create_entry_wf: "xattr_wf x \<Longrightarrow> create_entry lget key x = Some y \<Longrightarrow> xattr_wf y"
  by (auto simp: create_entry_def xattr_Set_wf split: if_splits bind_splits)

lemma CreateFromFile_wf:
  assumes "CreateFromFile llist lget = Some (Some x)"
  shows "xattr_wf x"
proof -
  have "fold_opt (create_entry lget) ks y = Some z \<Longrightarrow> xattr_wf y \<Longrightarrow> xattr_wf z" for ks y z
    by (induction ks arbitrary: y) (auto split: bind_splits dest: create_entry_wf)
  with assms show ?thesis by (auto simp: CreateFromFile_def Let_def split: if_splits prod.splits bind_splits)
qed

end
