(* ===== verification/Spec2Isabelle.thy ===== *)
theory Spec2Isabelle
  imports FdTable SmallHashDyn StringUtil Shash LruCache MallocHeap KvProps StreamProps Xattr
begin

text \<open>
  A verification development for the client side of the CernVM file system (\<^verbatim>\<open>cvmfs/\<close> in the repository),
  a read-only network file system.  It covers the path on which file contents are kept in memory,
  from the cache manager down to the bytes of its heap, and the self-contained data structures and formats
  around it.

  \<^bold>\<open>The program and its parts.\<close>  Content is addressed by cryptographic hashes
  (\<^verbatim>\<open>crypto/hash.h\<close>).  A cache manager hands out file descriptors for objects and stores new objects in
  transactions.  The in-memory one (\<^verbatim>\<open>cache_ram.cc\<close>) keeps a table of open descriptors (\<^verbatim>\<open>fd_table.h\<close>) and two
  key-value stores (\<^verbatim>\<open>kvstore.cc\<close>), which evict the least recently used unreferenced objects (\<^verbatim>\<open>lru.h\<close>, over
  the hash table of \<^verbatim>\<open>smallhash.h\<close>) and take memory from a compacting heap (\<^verbatim>\<open>malloc_heap.cc\<close>) or from
  \<open>malloc\<close>.  The streaming cache manager (\<^verbatim>\<open>cache_stream.cc\<close>) sits on top of another cache manager, downloads what that
  one does not have, and keeps recently streamed objects in a ring buffer (\<^verbatim>\<open>ring_buffer.cc\<close>).  Extended attributes
  (\<^verbatim>\<open>xattr.cc\<close>) are stored in a binary form, other data in the text formats of \<^verbatim>\<open>util/string.cc\<close>.

  \<^bold>\<open>Conventions\<close> (theory \<open>Prelude\<close>).  A C++ object is a record; an operation takes the object and returns its
  results with the updated object.  \<open>None\<close> stands for a failed assertion, an access out of bounds, a deadlock or a loop
  that does not end, so that a theorem that an operation equals \<open>Some\<close> includes that it returns.  Unsigned
  integers are natural numbers with their wrap-around written out (\<open>u32\<close>, \<open>u64\<close>), signed ones are integers
  (\<open>s64\<close>, \<open>i64\<close>), doubles are exact fractions rounded as IEEE 754 says (\<open>Doubles\<close>).  Loops are
  recursive functions with a termination proof, folds (\<open>fold_opt\<close>), or partial functions where the code may loop for ever.

  \<^bold>\<open>Theories and the code they model.\<close>
  \<^item> \<open>FdTable\<close>: \<^verbatim>\<open>fd_table.h\<close>, \<open>FdTable\<close>.  Invariant \<open>fd_inv\<close>; the interface \<open>descriptor_table\<close> with its interpretation
    \<open>fdt\<close>; all histories of \<open>OpenFd\<close> and \<open>CloseFd\<close> behave like a partial map from numbers to handles.
  \<^item> \<open>Doubles\<close>, \<open>Prng\<close>: the floating-point operations in use and \<^verbatim>\<open>util/prng.h\<close>.
  \<^item> \<open>MapSpec\<close>, \<open>SmallHash\<close>, \<open>SmallHashDyn\<close>: \<^verbatim>\<open>smallhash.h\<close>.  The interface \<open>bounded_map\<close> is interpreted for the
    fixed table (\<open>fixed\<close>) and the resizable one (\<open>dyn\<close>); histories of \<open>Insert\<close>, \<open>Erase\<close>, \<open>Clear\<close> and \<open>Lookup\<close>
    refine finite maps; exact conditions for the probing loop to end.
  \<^item> \<open>StringUtil\<close>: \<^verbatim>\<open>util/string.cc\<close>.  Round trips of numbers, Base64 and splitting; key-value lines; when
    trimming and replacing end.
  \<^item> \<open>Bytes\<close>, \<open>Shash\<close>: raw memory, and \<^verbatim>\<open>crypto/hash.h\<close>, \<^verbatim>\<open>crypto/hash.cc\<close>: text forms and parsers of
    digests, object paths, orders, HMAC.
  \<^item> \<open>LruAllocator\<close>, \<open>LruList\<close>, \<open>LruCache\<close>: \<^verbatim>\<open>lru.h\<close>.  The slot pool (interface \<open>slot_pool\<close>), the doubly linked
    list in the slots of the pool, whose memory is sized in 32 bits, the cache (interface \<open>recency_cache\<close>, interpretation \<open>lru\<close>): histories refine an association list
    in the order of use.
  \<^item> \<open>MallocHeap\<close>: \<^verbatim>\<open>malloc_heap.cc\<close>.  Allocation and compaction over an arena of bytes with tags in it.
  \<^item> \<open>KvStore\<close>, \<open>KvRefine\<close>, \<open>KvSpec\<close>, \<open>KvProps\<close>: \<^verbatim>\<open>kvstore.cc\<close>.  The store on the LRU cache and either allocator
    (interface \<open>block_owner\<close>, interpretation \<open>kv\<close>); \<open>kv_view\<close> relates it to a list of objects in the order of use.
    Commit and read, eviction, reference counts.
  \<^item> \<open>RamCache\<close>, \<open>RamCommit\<close>, \<open>RamProps\<close>: \<^verbatim>\<open>cache_ram.cc\<close> and parts of \<^verbatim>\<open>cache.cc\<close>.  \<open>ram_rel\<close> ties the descriptors to the
    references in the stores.  Round trip from \<open>CommitFromMem\<close> to \<open>Open2Mem\<close>; commits never touch open objects
    and respect the size limit; descriptor histories.
  \<^item> \<open>OrdMap\<close>, \<open>Xattr\<close>: \<^verbatim>\<open>std::map\<close> as a sorted association list, and \<^verbatim>\<open>xattr.cc\<close>: limits, binary form, safe
    reading of arbitrary bytes, round trip.
  \<^item> \<open>Ring\<close>: \<^verbatim>\<open>ring_buffer.cc\<close>.  The circular area seen from its back is the sequence of stored objects;
    histories are those of a queue.
  \<^item> \<open>Streaming\<close>, \<open>StreamProps\<close>: \<^verbatim>\<open>cache_stream.cc\<close>, over the in-memory cache manager, the descriptor table, the ring
    buffer and the resizable hash table.  \<open>sink_rel\<close> says what the sink of a download has received; \<open>stream_rel\<close> ties the
    hash table to the objects in the ring buffer.  All sequences of reads return the bytes of the objects,
    unless a download delivers more bytes than the label of its object says.

  \<^bold>\<open>Bounds.\<close>  The nesting depth of \<open>Insert\<close> in a growing table is 2, which \<open>dyn_insert\<close> shows to suffice; capacities
    stay below $2^{32}$ and dynamic tables are used for up to $2^{30}$ keys; sizes of objects in the store are
    below $2^{61}$ bytes and ring buffers below $2^{63}$ bytes ($2^{34}$ in the streaming cache manager, so that
    its table never has more than $2^{30}$ keys); downloads are shorter than $2^{62}$ bytes.  Strings are shorter than
    $2^{32}$ bytes; Base64 computes with its 32-bit positions.  The loop of \<open>Erase\<close> that moves the entries of a cluster
    (\<open>erase_loop\<close>) has the capacity of the table as fuel, which \<open>erase_loop_correct\<close> shows to suffice on every table that
    satisfies the probing invariant.  No other fuel is used.

  \<^bold>\<open>Code outside the repository\<close> is a parameter: hash functions (OpenSSL), \<open>malloc\<close> and \<open>realloc\<close>, the
    contents of fresh memory, and the system calls for extended attributes.  Two parts of the repository that are
    not modelled are parameters too: the quota manager, and the download managers of \<^verbatim>\<open>network/download.cc\<close>, which run
    inside libcurl.  Of a download manager the proofs assume what its check of the expected hash gives: a download that
    reports success has delivered the requested object (\<open>delivers\<close>).

  \<^bold>\<open>Defects that the proofs brought to light.\<close>  Some theorems state that the code misbehaves: a small dynamic table
    fills up and lookups then loop; \<open>ReplaceAll\<close> and \<open>TrimString\<close> may not end; a failing commit over an existing
    object leaves a dangling entry; a commit fails for lack of space although the object fits; 256 extended
    attributes are lost on serialisation; \<open>RemoveBack\<close> on an empty ring buffer corrupts its accounting; opening an
    object while all streaming descriptors are taken leaks a descriptor of the backing cache manager; a download that is longer than the
    catalog says is written behind the memory for the object.

  \<^bold>\<open>Not modelled.\<close>  Locks and threads: operations run one after the other, except that a second acquisition of the
    lock of the LRU cache is a deadlock.  Log messages.  The FUSE front end and mount point, downloads, catalogs (SQLite),
    signatures, the other cache managers and the quota manager, publishing, gateway, tools and scripts: they are
    system calls, network protocols, SQL or callbacks of libraries whose code is not part of the repository.
\<close>

end
